(* ===== verification/Prelude.thy ===== *)
theory Prelude
  imports Main "HOL-Library.Word" "HOL-Library.Monad_Syntax"
begin

unbundle bit_operations_syntax

text \<open>
  Shared vocabulary of the development: the machine types of the i686 build, NULL-able
  pointers, checked array accesses, and the generic facts on lists and words that the
  component theories use.

  Conventions.
  \<^item> \<open>size_t\<close>, \<open>uint32_t\<close> and \<open>uintptr_t\<close> are 32-bit words (the build uses
    \<open>-m32\<close>), so additions and subtractions wrap around as they do in the compiled code.
  \<^item> A pointer argument that the code compares with NULL is an \<open>option\<close>; \<open>None\<close> is
    the NULL pointer.
  \<^item> An access outside an array has no defined result in C. Every model function that
    touches an array therefore returns an \<open>option\<close>, and \<open>None\<close> means that the code
    accessed memory outside the object. A theorem that the result is \<open>Some\<close> is thus also
    a proof of memory safety.
\<close>

type_synonym u8 = "8 word"
type_synonym u16 = "16 word"
type_synonym u32 = "32 word"
type_synonym u64 = "64 word"
type_synonym 'a ptr = "'a option"

text \<open>\<open>MAX_CPUS\<close> of \<open>src/src/kernel/smp/cpu_limits.h\<close>.\<close>

abbreviation MAX_CPUS :: nat where
  "MAX_CPUS \<equiv> 32"

named_theorems word_nat "unsigned comparisons and arithmetic of words, read as natural numbers"

section \<open>Words as natural numbers\<close>

declare word_less_nat_alt [word_nat] word_le_nat_alt [word_nat]

lemma unat_add_no_overflow [word_nat]:
  "unat x + unat y < 2 ^ LENGTH('a) \<Longrightarrow> unat (x + y) = unat x + unat (y :: 'a::len word)"
  by (rule unat_add_lem [THEN iffD1])

lemma unat_sub_no_underflow [word_nat]:
  "unat y \<le> unat x \<Longrightarrow> unat (x - y) = unat x - unat (y :: 'a::len word)"
  by (simp add: unat_sub word_le_nat_alt)

lemma unat_u32_less: "unat (x :: u32) < 4294967296"
  using unsigned_less [of x] by simp

lemma unat_u16_less: "unat (x :: u16) < 65536"
  using unsigned_less [of x] by simp

lemma unat_u8_less: "unat (x :: u8) < 256"
  using unsigned_less [of x] by simp

lemma unat_add_bounded:
  "unat x + unat y \<le> unat (z :: 'a::len word) \<Longrightarrow> unat (x + y) = unat x + unat (y :: 'a word)"
  by (rule unat_add_no_overflow) (meson le_less_trans unsigned_less)

lemma unat_plus_one:
  "unat x < unat (y :: 'a::len word) \<Longrightarrow> unat (x + 1) = Suc (unat (x :: 'a word))"
  using unat_add_bounded [of x 1 y] by simp

lemma unat_word_of_nat_le: "unat (word_of_nat n :: 'a::len word) \<le> n"
  by (simp add: unat_of_nat)

lemma unat_u32_min:
  "unat (if x < y then x else (y :: u32)) = min (unat x) (unat y)"
  by (simp add: word_nat)

lemma word_eq_nat_iff: "(x = y) = (unat x = unat (y :: 'a::len word))"
  by (simp add: word_unat_eq_iff)

lemma sint_small:
  assumes "unat (x :: u32) < 2 ^ 31"
  shows "sint x = int (unat x)"
proof -
  have "int (unat x) < 2 ^ 31" using assms by (metis of_nat_less_iff of_nat_numeral of_nat_power)
  then have "uint x < 2 ^ 31" by simp
  moreover have "- (2 ^ 31) \<le> uint x" by (rule order_trans [OF _ uint_ge_0]) simp
  ultimately have "signed_take_bit 31 (uint x) = uint x" by (intro signed_take_bit_int_eq_self)
  then show ?thesis by (simp add: sint_uint)
qed

section \<open>Checked array accesses\<close>

definition get_at :: "'a list \<Rightarrow> nat \<Rightarrow> 'a option" where
  "get_at xs i = (if i < length xs then Some (xs ! i) else None)"

definition set_at :: "'a list \<Rightarrow> nat \<Rightarrow> 'a \<Rightarrow> 'a list option" where
  "set_at xs i v = (if i < length xs then Some (xs[i := v]) else None)"

text \<open>
  \<open>blit dst d src s n\<close> is \<open>memcpy(dst + d, src + s, n)\<close> on two distinct arrays: the new
  contents of \<open>dst\<close>, or \<open>None\<close> when either range leaves its array.
\<close>

definition blit :: "'a list \<Rightarrow> nat \<Rightarrow> 'a list \<Rightarrow> nat \<Rightarrow> nat \<Rightarrow> 'a list option" where
  "blit dst d src s n =
     (if d + n \<le> length dst \<and> s + n \<le> length src
      then Some (take d dst @ take n (drop s src) @ drop (d + n) dst) else None)"

lemma get_at_Some [simp]: "i < length xs \<Longrightarrow> get_at xs i = Some (xs ! i)"
  by (simp add: get_at_def)

lemma set_at_Some [simp]: "i < length xs \<Longrightarrow> set_at xs i v = Some (xs[i := v])"
  by (simp add: set_at_def)

lemma blit_Some [simp]:
  "d + n \<le> length dst \<Longrightarrow> s + n \<le> length src \<Longrightarrow>
   blit dst d src s n = Some (take d dst @ take n (drop s src) @ drop (d + n) dst)"
  by (simp add: blit_def)

lemma get_at_eq_Some: "get_at xs i = Some v \<longleftrightarrow> i < length xs \<and> v = xs ! i"
  by (auto simp: get_at_def)

lemma set_at_eq_Some: "set_at xs i v = Some ys \<longleftrightarrow> i < length xs \<and> ys = xs[i := v]"
  by (auto simp: set_at_def)

lemma blit_length: "blit dst d src s n = Some dst' \<Longrightarrow> length dst' = length dst"
  by (auto simp: blit_def split: if_splits)

lemma drop_append_prefix: "\<exists>c'. drop c xs @ ys = drop c' (xs @ ys)"
  by (cases "c \<le> length xs") (auto intro: exI [of _ c] exI [of _ "length xs"])

section \<open>Circular views of an array\<close>

text \<open>
  \<open>ring_bytes buf t n\<close>: the \<open>n\<close> elements that start at index \<open>t\<close>, wrapping at the end of
  the array. \<open>ring_stored buf h xs buf'\<close>: \<open>buf'\<close> is \<open>buf\<close> with \<open>xs\<close> written from index
  \<open>h\<close> on, wrapping.
\<close>

definition ring_bytes :: "'a list \<Rightarrow> nat \<Rightarrow> nat \<Rightarrow> 'a list" where
  "ring_bytes buf t n = map (\<lambda>i. buf ! ((t + i) mod length buf)) [0..<n]"

definition ring_stored :: "'a list \<Rightarrow> nat \<Rightarrow> 'a list \<Rightarrow> 'a list \<Rightarrow> bool" where
  "ring_stored buf h xs buf' \<longleftrightarrow> length buf' = length buf \<and>
     (\<forall>p < length buf.
        let j = (p + length buf - h) mod length buf
        in buf' ! p = (if j < length xs then xs ! j else buf ! p))"

lemma length_ring_bytes [simp]: "length (ring_bytes buf t n) = n"
  by (simp add: ring_bytes_def)

lemma nth_ring_bytes [simp]: "i < n \<Longrightarrow> ring_bytes buf t n ! i = buf ! ((t + i) mod length buf)"
  by (simp add: ring_bytes_def)

lemma ring_bytes_0 [simp]: "ring_bytes buf t 0 = []"
  by (simp add: ring_bytes_def)

lemma ring_bytes_mod [simp]: "ring_bytes buf (t mod length buf) n = ring_bytes buf t n"
  by (simp add: ring_bytes_def mod_add_left_eq)

lemma ring_bytes_take: "k \<le> n \<Longrightarrow> take k (ring_bytes buf t n) = ring_bytes buf t k"
  by (simp add: ring_bytes_def take_map)

lemma ring_bytes_drop: "k \<le> n \<Longrightarrow> drop k (ring_bytes buf t n) = ring_bytes buf (t + k) (n - k)"
  by (rule nth_equalityI) (simp_all add: add.assoc)

lemma ring_distance:
  assumes "b \<le> a + c"
  shows "(a mod c + c - b mod c) mod c = (a + c - b) mod (c :: nat)"
proof (cases "c = 0")
  case False
  then have le: "b mod c \<le> a mod c + c"
    by (meson le_add2 le_trans less_imp_le mod_less_divisor neq0_conv)
  have "int ((a mod c + c - b mod c) mod c) = (int a mod int c + int c - int b mod int c) mod int c"
    using le by (simp add: of_nat_mod of_nat_diff)
  also have "\<dots> = (int a + int c - int b) mod int c"
    using mod_add_self2 [of "int a mod int c - int b mod int c" "int c"]
      mod_add_self2 [of "int a - int b" "int c"]
    by (simp add: mod_diff_eq algebra_simps)
  also have "\<dots> = int ((a + c - b) mod c)"
    using assms by (simp add: of_nat_mod of_nat_diff)
  finally show ?thesis by simp
qed (use assms in simp)

lemma ring_bytes_stored:
  assumes st: "ring_stored buf ((t + n) mod length buf) xs buf'"
    and fit: "n + length xs \<le> length buf"
  shows "ring_bytes buf' t (n + length xs) = ring_bytes buf t n @ xs"
proof (cases "buf = []")
  case True
  then show ?thesis using fit by simp
next
  case ne: False
  show ?thesis
proof (rule nth_equalityI)
  show "length (ring_bytes buf' t (n + length xs)) = length (ring_bytes buf t n @ xs)"
    by simp
next
  fix i
  let ?c = "length buf"
  assume "i < length (ring_bytes buf' t (n + length xs))"
  then have i: "i < n + length xs" by simp
  let ?p = "(t + i) mod ?c"
  have p: "?p < ?c" using ne by simp
  have j: "(?p + ?c - (t + n) mod ?c) mod ?c = (i + ?c - n) mod ?c"
    using ring_distance [of "t + n" "t + i" ?c] fit by (simp add: ac_simps)
  have eq: "buf' ! ?p = (if (i + ?c - n) mod ?c < length xs then xs ! ((i + ?c - n) mod ?c) else buf ! ?p)"
    using st p by (auto simp: ring_stored_def Let_def j)
  have len: "length buf' = ?c" using st by (simp add: ring_stored_def)
  show "ring_bytes buf' t (n + length xs) ! i = (ring_bytes buf t n @ xs) ! i"
  proof (cases "i < n")
    case True
    then have "(i + ?c - n) mod ?c = i + ?c - n" and "\<not> i + ?c - n < length xs"
      using fit by auto
    then show ?thesis using True i eq len by (simp add: nth_append)
  next
    case False
    then have "(i + ?c - n) mod ?c = i - n" "i - n < length xs"
      using i fit by (auto simp: mod_if)
    then show ?thesis using False i eq len by (simp add: nth_append)
  qed
qed
qed

lemma ring_stored_one_part:
  assumes "h + k \<le> length buf" "k \<le> length xs" "h < length buf"
  shows "ring_stored buf h (take k xs) (take h buf @ take k xs @ drop (h + k) buf)"
proof -
  have "(take h buf @ take k xs @ drop (h + k) buf) ! p =
      (if (p + length buf - h) mod length buf < k
       then xs ! ((p + length buf - h) mod length buf) else buf ! p)" if "p < length buf" for p
  proof (cases "p < h")
    case True
    then have "(p + length buf - h) mod length buf = p + length buf - h"
      using assms that by (intro mod_less) auto
    then show ?thesis using True assms that by (auto simp: nth_append)
  next
    case False
    then have "(p + length buf - h) mod length buf = p - h"
      using assms that by (simp add: mod_if)
    then show ?thesis using False assms that by (auto simp: nth_append min_def)
  qed
  then show ?thesis using assms by (auto simp: ring_stored_def Let_def)
qed

lemma ring_stored_two_parts:
  assumes "h < length buf" "k \<le> length buf" "length buf - h < k" "k \<le> length xs"
  shows "ring_stored buf h (take k xs)
    (take (k - (length buf - h)) (drop (length buf - h) xs) @
     drop (k - (length buf - h)) (take h buf @ take (length buf - h) xs))"
proof -
  let ?c = "length buf - h"
  have "(take (k - ?c) (drop ?c xs) @ drop (k - ?c) (take h buf @ take ?c xs)) ! p =
      (if (p + length buf - h) mod length buf < k
       then xs ! ((p + length buf - h) mod length buf) else buf ! p)" if "p < length buf" for p
  proof (cases "p < h")
    case True
    then have "(p + length buf - h) mod length buf = p + length buf - h"
      using assms that by (intro mod_less) auto
    moreover have "min (length xs - ?c) (k - ?c) = k - ?c" using assms by simp
    ultimately show ?thesis using True assms that by (auto simp: nth_append ac_simps)
  next
    case False
    then have "(p + length buf - h) mod length buf = p - h"
      using assms that by (simp add: mod_if)
    moreover have "min (length xs - ?c) (k - ?c) = k - ?c" using assms by simp
    ultimately show ?thesis using False assms that by (auto simp: nth_append)
  qed
  then show ?thesis using assms by (auto simp: ring_stored_def Let_def min_def)
qed

lemma ring_index_wrap:
  "h < c \<Longrightarrow> k \<le> c \<Longrightarrow> (h + k) mod c = (if h + k < c then h + k else k - (c - h))" for c :: nat
  by (auto simp: mod_if)

lemma ring_index_advance:
  "k \<le> n \<Longrightarrow> ((t + k) mod c + (n - k)) mod c = (t + n) mod c" for c :: nat
  using mod_add_left_eq [of "t + k" c "n - k"] by simp

lemma ring_bytes_one_part:
  "t + k \<le> length buf \<Longrightarrow> take k (drop t buf) = ring_bytes buf t k"
  by (rule nth_equalityI) auto

lemma ring_bytes_two_parts:
  assumes "t < length buf" "k \<le> length buf" "length buf - t < k"
  shows "drop t buf @ take (k - (length buf - t)) buf = ring_bytes buf t k"
proof (rule nth_equalityI)
  fix i assume "i < length (drop t buf @ take (k - (length buf - t)) buf)"
  then have "i < k" using assms by (simp split: if_splits)
  then show "(drop t buf @ take (k - (length buf - t)) buf) ! i = ring_bytes buf t k ! i"
    using assms by (auto simp: nth_append mod_if ac_simps)
qed (use assms in auto)

section \<open>Copies between an array and a ring\<close>

text \<open>
  The kernel copies in and out of its rings in two parts, up to the end of the array and then
  from its start. Both parts stay inside the array and together they move the right bytes.
\<close>

lemma blit_0 [simp]: "d \<le> length dst \<Longrightarrow> s \<le> length src \<Longrightarrow> blit dst d src s 0 = Some dst"
  by simp

lemma ring_copy_in:
  assumes "h < length b" "k \<le> length b" "off + k \<le> length src"
  defines "n1 \<equiv> min k (length b - h)"
  obtains b1 b2 where "blit b h src off n1 = Some b1" "length b1 = length b"
    "blit b1 0 src (off + n1) (k - n1) = Some b2"
    "ring_stored b h (take k (drop off src)) b2"
proof (cases "k \<le> length b - h")
  case True
  then have n1: "n1 = k" by (simp add: n1_def)
  let ?b1 = "take h b @ take k (drop off src) @ drop (h + k) b"
  have "blit b h src off n1 = Some ?b1" using assms(1-3) True by (simp add: n1)
  moreover have "ring_stored b h (take k (drop off src)) ?b1"
    using ring_stored_one_part [of h k b "drop off src"] assms(1-3) True by simp
  moreover have "length ?b1 = length b" using assms(1-3) True by simp
  moreover have "blit ?b1 0 src (off + n1) (k - n1) = Some ?b1" using assms(3) by (simp add: n1)
  ultimately show ?thesis using that by blast
next
  case False
  then have n1: "n1 = length b - h" by (simp add: n1_def)
  let ?b1 = "take h b @ take (length b - h) (drop off src)"
  let ?b2 = "take (k - n1) (drop n1 (drop off src)) @ drop (k - n1) ?b1"
  have "blit b h src off n1 = Some ?b1" using assms(1-3) False by (simp add: n1)
  moreover have "ring_stored b h (take k (drop off src)) ?b2"
    using ring_stored_two_parts [of h b k "drop off src"] assms(1-3) False by (simp add: n1)
  moreover have l: "length ?b1 = length b" using assms(1-3) False by simp
  moreover have "blit ?b1 0 src (off + n1) (k - n1) = Some ?b2"
    using assms(1-3) False l by (simp add: n1 ac_simps)
  ultimately show ?thesis using that by blast
qed

lemma ring_copy_out:
  assumes "t < length b" "k \<le> length b" "off + k \<le> length dst"
  defines "n1 \<equiv> min k (length b - t)"
  obtains d1 where "blit dst off b t n1 = Some d1" "length d1 = length dst"
    "blit d1 (off + n1) b 0 (k - n1) = Some (take off dst @ ring_bytes b t k @ drop (off + k) dst)"
proof (cases "k \<le> length b - t")
  case True
  then have n1: "n1 = k" by (simp add: n1_def)
  let ?d1 = "take off dst @ take k (drop t b) @ drop (off + k) dst"
  have "blit dst off b t n1 = Some ?d1" using assms(1-3) True by (simp add: n1)
  moreover have "take k (drop t b) = ring_bytes b t k"
    using assms(1) True by (intro ring_bytes_one_part) simp
  moreover have l: "length ?d1 = length dst" using assms(1-3) True by simp
  moreover have "blit ?d1 (off + n1) b 0 (k - n1) = Some ?d1"
    using blit_0 [of "off + n1" ?d1 0 b] assms(3) l by (simp only: n1) simp
  ultimately show ?thesis using that by metis
next
  case False
  then have n1: "n1 = length b - t" by (simp add: n1_def)
  let ?d1 = "take off dst @ drop t b @ drop (off + n1) dst"
  have "blit dst off b t n1 = Some ?d1" using assms(1-3) False by (simp add: n1)
  moreover have l: "length ?d1 = length dst" using assms(1-3) False by (simp add: n1)
  moreover have "blit ?d1 (off + n1) b 0 (k - n1) =
      Some (take off dst @ (drop t b @ take (k - n1) b) @ drop (off + k) dst)"
    using assms(1-3) False l by (auto simp add: n1 min_def ac_simps)
  moreover have "drop t b @ take (k - n1) b = ring_bytes b t k"
    using ring_bytes_two_parts [of t b k] assms(1-3) False by (simp add: n1)
  ultimately show ?thesis using that by metis
qed

lemma blit_shorter:
  "blit dst d src s n = Some x \<Longrightarrow> m \<le> n \<Longrightarrow> \<exists>y. blit dst d src s m = Some y \<and> length y = length dst"
  by (auto simp: blit_def split: if_splits)

lemma blit_0D: "blit dst d src s 0 = Some x \<Longrightarrow> x = dst"
  by (auto simp: blit_def split: if_splits)

text \<open>Bytes outside the stored part of a ring do not matter to its contents.\<close>

lemma ring_bytes_blit_free:
  assumes "blit b h src off m = Some b'" "h = (t + n) mod length b" "m \<le> length b - h" "n + m \<le> length b"
  shows "ring_bytes b' t n = ring_bytes b t n"
proof -
  have m: "off + m \<le> length src" "h + m \<le> length b" "b' = take h b @ take m (drop off src) @ drop (h + m) b"
    using assms(1) by (auto simp: blit_def split: if_splits)
  show ?thesis
  proof (cases "b = []")
    case True
    then show ?thesis using m by (simp add: ring_bytes_def)
  next
    case False
    then have "h < length b" using assms(2) by simp
    then have "ring_stored b h (take m (drop off src)) b'"
      using ring_stored_one_part [of h m b "drop off src"] m by simp
    moreover have "length (take m (drop off src)) = m" using m by simp
    ultimately have *: "ring_bytes b' t (n + m) = ring_bytes b t n @ take m (drop off src)"
      using ring_bytes_stored [of b t n "take m (drop off src)" b'] assms(2,4) by simp
    have "ring_bytes b' t n = take n (ring_bytes b' t (n + m))"
      by (rule ring_bytes_take [symmetric]) simp
    also have "\<dots> = ring_bytes b t n" unfolding * by simp
    finally show ?thesis .
  qed
qed

lemma ring_index_inj:
  assumes "(t + a) mod c = (t + b) mod c" "a < c" "b < (c :: nat)"
  shows "a = b"
proof -
  have "a = b" if "(t + a) mod c = (t + b) mod c" "a \<le> b" "b < c" for a b
  proof -
    have "c dvd (t + b) - (t + a)"
      using that mod_eq_dvd_iff_nat [of "t + a" "t + b" c] by simp
    then show ?thesis using that by (auto dest: dvd_imp_le)
  qed
  then show ?thesis using assms by (metis nat_le_linear)
qed

lemma ring_bytes_update_free:
  assumes "n \<le> i" "i < length buf"
  shows "ring_bytes (buf[(t + i) mod length buf := v]) t n = ring_bytes buf t n"
proof (rule nth_equalityI)
  fix j assume "j < length (ring_bytes (buf[(t + i) mod length buf := v]) t n)"
  then have "j < n" by simp
  then have "(t + i) mod length buf \<noteq> (t + j) mod length buf"
    using ring_index_inj [of t i "length buf" j] assms by auto
  then show "ring_bytes (buf[(t + i) mod length buf := v]) t n ! j = ring_bytes buf t n ! j"
    using \<open>j < n\<close> by simp
qed simp

lemma ring_bytes_extend:
  assumes "\<forall>j < length xs. buf ! ((t + n + j) mod length buf) = xs ! j"
  shows "ring_bytes buf t (n + length xs) = ring_bytes buf t n @ xs"
proof (rule nth_equalityI)
  fix i assume "i < length (ring_bytes buf t (n + length xs))"
  then show "ring_bytes buf t (n + length xs) ! i = (ring_bytes buf t n @ xs) ! i"
    using assms [rule_format, of "i - n"] by (auto simp: nth_append)
qed simp

lemma ring_bytes_set_first:
  "t < length xs \<Longrightarrow> n \<le> length xs \<Longrightarrow> 0 < n \<Longrightarrow>
   ring_bytes (xs[t := v]) t n = v # tl (ring_bytes xs t n)"
proof (rule nth_equalityI)
  fix i assume a: "t < length xs" "n \<le> length xs" "0 < n" and "i < length (ring_bytes (xs[t := v]) t n)"
  then have i: "i < n" by simp
  show "ring_bytes (xs[t := v]) t n ! i = (v # tl (ring_bytes xs t n)) ! i"
  proof (cases i)
    case 0
    then show ?thesis using a by simp
  next
    case (Suc j)
    have "(t + i) mod length xs \<noteq> (t + 0) mod length xs"
    proof
      assume "(t + i) mod length xs = (t + 0) mod length xs"
      then have "i = 0" by (rule ring_index_inj) (use a i in auto)
      then show False using Suc by simp
    qed
    then have "(t + i) mod length xs \<noteq> t" using a by simp
    then show ?thesis using Suc i by (simp add: nth_tl)
  qed
qed simp

lemma ring_bytes_tl: "0 < n \<Longrightarrow> ring_bytes xs (Suc t mod length xs) (n - 1) = tl (ring_bytes xs t n)"
  using ring_bytes_drop [of 1 n xs t] ring_bytes_mod [of xs "Suc t" "n - 1"] by (simp add: drop_Suc)

lemma ring_bytes_hd: "t < length xs \<Longrightarrow> 0 < n \<Longrightarrow> ring_bytes xs t n = xs ! t # tl (ring_bytes xs t n)"
  by (rule nth_equalityI) (auto simp: nth_Cons nth_tl split: nat.split)

lemma takeWhile_upt:
  assumes "P n" "n < k"
  shows "length (takeWhile (\<lambda>i. \<not> P i) [0..<k]) < k" "P (length (takeWhile (\<lambda>i. \<not> P i) [0..<k]))"
    "i < length (takeWhile (\<lambda>i. \<not> P i) [0..<k]) \<Longrightarrow> \<not> P i"
proof -
  let ?w = "takeWhile (\<lambda>i. \<not> P i) [0..<k]"
  have le: "length ?w \<le> k" using length_takeWhile_le [of _ "[0..<k]"] by simp
  have w: "?w ! i = i" if "i < length ?w" for i
    using that le takeWhile_nth [OF that] by auto
  show i: "\<not> P i" if "i < length ?w" for i
    using w [OF that] nth_mem [OF that] by (metis (mono_tags, lifting) set_takeWhileD)
  show lt: "length ?w < k" using i [of n] assms le by (cases "length ?w = k") auto
  show "P (length ?w)" using nth_length_takeWhile [of "\<lambda>i. \<not> P i" "[0..<k]"] lt by simp
qed

text \<open>The compiler's \<open>__builtin_ctz\<close>, the number of trailing zero bits of a word that is not zero.\<close>

definition ctz :: "u32 \<Rightarrow> nat" where
  "ctz v = length (takeWhile (\<lambda>i. \<not> bit v i) [0..<32])"

lemma ctz_spec:
  assumes "v \<noteq> 0"
  shows "ctz v < 32" "bit v (ctz v)" "i < ctz v \<Longrightarrow> \<not> bit v i"
proof -
  obtain n where n: "bit v n" using assms by (metis bit_eqI bit_0_eq bot_apply bot_bool_def)
  then have "n < 32" using bit_imp_le_length by fastforce
  with n show "ctz v < 32" "bit v (ctz v)" "i < ctz v \<Longrightarrow> \<not> bit v i"
    unfolding ctz_def by (rule takeWhile_upt)+
qed

lemma unat_and_mask: "unat (a AND mask k :: u32) = unat a mod 2 ^ k"
  unfolding take_bit_eq_mask [symmetric] unsigned_take_bit_eq by (simp add: take_bit_eq_mod)

lemma and_not_mask_eq_0: "s AND NOT (mask k) = 0 \<longleftrightarrow> unat s < 2 ^ k" for s :: u32
proof -
  have "s AND NOT (mask k) = 0 \<longleftrightarrow> s AND mask k = s" by (auto simp: bit_eq_iff bit_simps)
  also have "\<dots> \<longleftrightarrow> unat s mod 2 ^ k = unat s" by (simp add: word_unat_eq_iff unat_and_mask)
  also have "\<dots> \<longleftrightarrow> unat s < 2 ^ k" by (rule mod_eq_self_iff_div_eq_0 [THEN trans]) (simp add: div_eq_0_iff)
  finally show ?thesis .
qed

lemma unat_push_bit: "unat x * 2 ^ k < 2 ^ 32 \<Longrightarrow> unat (push_bit k x) = unat x * 2 ^ k" for x :: u32
  unfolding unsigned_push_bit_eq by (simp add: take_bit_eq_mod push_bit_eq_mult)

lemma or_push_bit: "unat x < 2 ^ k \<Longrightarrow> x OR push_bit k y = x + push_bit k y" for x y :: u32
proof -
  assume "unat x < 2 ^ k"
  then have "x AND NOT (mask k) = 0" by (simp add: and_not_mask_eq_0)
  then have "\<not> bit x n \<or> \<not> k \<le> n" if "n < 32" for n
    using that bit_eq_iff [of "x AND NOT (mask k)" 0] by (auto simp: bit_simps)
  then have "x AND push_bit k y = 0" by (intro bit_word_eqI) (auto simp: bit_simps)
  then show ?thesis by (rule disjunctive_add_eq_or [symmetric])
qed

lemma unat_drop_bit: "unat (drop_bit k x) = unat x div 2 ^ k" for x :: u32
  unfolding unat_drop_bit_eq by (simp add: drop_bit_eq_div)

end
