(* ===== verification/Channel.thy ===== *)
theory Channel
  imports Prelude
begin

text \<open>
  The interface of a bounded byte channel. The ring buffer of \<open>src/src/lib/ringbuf.h\<close> and the
  pipe of \<open>src/src/kernel/ipc/pipe.c\<close> both implement it: \<open>put\<close> accepts a prefix of the given
  bytes, \<open>get\<close> delivers a prefix of the stored ones, and the stored bytes never exceed a
  fixed bound. What the clients of both rely on (no byte lost, duplicated or reordered by
  any sequence of calls) is proved once, from these laws.
\<close>

datatype chan_op = Put "u8 list" | Get nat

text \<open>
  \<open>chan_run put get s ops\<close> performs the calls in order and collects the bytes that were
  accepted by the writes and the bytes that were delivered by the reads.
\<close>

fun chan_run ::
    "('s \<Rightarrow> u8 list \<Rightarrow> (nat \<times> 's) option) \<Rightarrow> ('s \<Rightarrow> nat \<Rightarrow> (u8 list \<times> 's) option) \<Rightarrow>
     's \<Rightarrow> chan_op list \<Rightarrow> (u8 list \<times> u8 list \<times> 's) option" where
  "chan_run put get s [] = Some ([], [], s)"
| "chan_run put get s (Put d # ops) = do {
     (n, s') \<leftarrow> put s d;
     (acc, del, s'') \<leftarrow> chan_run put get s' ops;
     Some (take n d @ acc, del, s'')
   }"
| "chan_run put get s (Get k # ops) = do {
     (out, s') \<leftarrow> get s k;
     (acc, del, s'') \<leftarrow> chan_run put get s' ops;
     Some (acc, out @ del, s'')
   }"

locale byte_channel =
  fixes ok :: "'s \<Rightarrow> bool"
    and contents :: "'s \<Rightarrow> u8 list"
    and bound :: "'s \<Rightarrow> nat"
    and put :: "'s \<Rightarrow> u8 list \<Rightarrow> (nat \<times> 's) option"
    and get :: "'s \<Rightarrow> nat \<Rightarrow> (u8 list \<times> 's) option"
  assumes bounded: "ok s \<Longrightarrow> length (contents s) \<le> bound s"
    and put_ok: "ok s \<Longrightarrow> \<exists>n s'. put s d = Some (n, s') \<and> ok s' \<and> bound s' = bound s \<and>
          contents s' = contents s @ take n d"
    and get_ok: "ok s \<Longrightarrow> \<exists>out s'. get s k = Some (out, s') \<and> ok s' \<and> bound s' = bound s \<and>
          contents s = out @ contents s'"
begin

lemma run_fifo:
  "ok s \<Longrightarrow> \<exists>acc del s'. chan_run put get s ops = Some (acc, del, s') \<and> ok s' \<and>
     bound s' = bound s \<and> contents s @ acc = del @ contents s'"
proof (induction ops arbitrary: s)
  case Nil
  then show ?case by simp
next
  case (Cons x ops)
  show ?case
  proof (cases x)
    case (Put d)
    obtain n s1 where "put s d = Some (n, s1)" "ok s1" "bound s1 = bound s"
        "contents s1 = contents s @ take n d"
      using put_ok [OF Cons.prems] by metis
    with Cons.IH [of s1] Put show ?thesis by auto
  next
    case (Get k)
    obtain out s1 where g: "get s k = Some (out, s1)" "ok s1" "bound s1 = bound s"
        "contents s = out @ contents s1"
      using get_ok [OF Cons.prems] by metis
    with Cons.IH [of s1] Get show ?thesis by auto
  qed
qed

text \<open>What is delivered is a prefix of what was stored or accepted, in the same order.\<close>

lemma run_prefix:
  assumes "ok s" "chan_run put get s ops = Some (acc, del, s')"
  shows "del = take (length del) (contents s @ acc)" "contents s' = drop (length del) (contents s @ acc)"
    "length (contents s') \<le> bound s"
proof -
  from run_fifo [OF assms(1), of ops] assms(2)
  have *: "ok s'" "bound s' = bound s" "contents s @ acc = del @ contents s'" by auto
  show "del = take (length del) (contents s @ acc)" "contents s' = drop (length del) (contents s @ acc)"
    by (simp_all add: *(3))
  show "length (contents s') \<le> bound s" using bounded [OF *(1)] *(2) by simp
qed

end

end
