(* ===== verification/Ringbuf.thy ===== *)
theory Ringbuf
  imports Channel
begin

text \<open>
  The byte-oriented circular buffer of \<open>src/src/lib/ringbuf.h\<close>: the structure, every
  operation of the header, the well-formedness invariant of the counters, and the
  refinement of the circular representation to a plain list of bytes (\<open>rb_bytes\<close>).
  The operations implement the interface \<open>byte_channel\<close>.
\<close>

section \<open>The structure and its operations\<close>

record ringbuf =
  rb_buffer :: "u8 list"
  rb_capacity :: u32
  rb_count :: u32
  rb_head :: u32
  rb_tail :: u32

text \<open>
  \<open>ringbuf_init\<close> zeroes the given storage and attaches it; the storage must hold at least
  \<open>capacity\<close> bytes, and only its first \<open>capacity\<close> bytes belong to the ring.
\<close>

definition ringbuf_init :: "ringbuf ptr \<Rightarrow> u8 list ptr \<Rightarrow> u32 \<Rightarrow> ringbuf ptr option" where
  "ringbuf_init rb buffer capacity =
     (case (rb, buffer) of
        (Some r, Some b) \<Rightarrow>
          if capacity = 0 then Some rb
          else do {
            b' \<leftarrow> blit b 0 (replicate (unat capacity) 0) 0 (unat capacity);
            Some (Some (r\<lparr>rb_buffer := b', rb_capacity := capacity,
                          rb_count := 0, rb_head := 0, rb_tail := 0\<rparr>))
          }
      | _ \<Rightarrow> Some rb)"

definition ringbuf_clear :: "ringbuf ptr \<Rightarrow> ringbuf ptr" where
  "ringbuf_clear rb = map_option (\<lambda>r. r\<lparr>rb_count := 0, rb_head := 0, rb_tail := 0\<rparr>) rb"

definition ringbuf_size :: "ringbuf ptr \<Rightarrow> u32" where
  "ringbuf_size rb = (case rb of None \<Rightarrow> 0 | Some r \<Rightarrow> rb_count r)"

definition ringbuf_capacity :: "ringbuf ptr \<Rightarrow> u32" where
  "ringbuf_capacity rb = (case rb of None \<Rightarrow> 0 | Some r \<Rightarrow> rb_capacity r)"

definition ringbuf_free_space :: "ringbuf ptr \<Rightarrow> u32" where
  "ringbuf_free_space rb = (case rb of None \<Rightarrow> 0 | Some r \<Rightarrow> rb_capacity r - rb_count r)"

definition ringbuf_is_empty :: "ringbuf ptr \<Rightarrow> bool" where
  "ringbuf_is_empty rb = (case rb of None \<Rightarrow> True | Some r \<Rightarrow> rb_count r = 0)"

definition ringbuf_is_full :: "ringbuf ptr \<Rightarrow> bool" where
  "ringbuf_is_full rb = (case rb of None \<Rightarrow> True | Some r \<Rightarrow> rb_count r = rb_capacity r)"

definition ringbuf_push :: "ringbuf ptr \<Rightarrow> u8 \<Rightarrow> (u32 \<times> ringbuf ptr) option" where
  "ringbuf_push rb data =
     (case rb of
        None \<Rightarrow> Some (0, None)
      | Some r \<Rightarrow>
          if rb_count r \<ge> rb_capacity r then Some (0, rb)
          else do {
            b \<leftarrow> set_at (rb_buffer r) (unat (rb_head r)) data;
            let h = rb_head r + 1;
            let h' = (if h \<ge> rb_capacity r then 0 else h);
            Some (1, Some (r\<lparr>rb_buffer := b, rb_head := h', rb_count := rb_count r + 1\<rparr>))
          })"

text \<open>
  \<open>ringbuf_pop\<close> stores the byte through \<open>out_data\<close>; the Boolean says whether that pointer
  is non-NULL, and the stored byte is the second component of the result.
\<close>

definition ringbuf_pop :: "ringbuf ptr \<Rightarrow> bool \<Rightarrow> (u32 \<times> u8 option \<times> ringbuf ptr) option" where
  "ringbuf_pop rb out_data =
     (case rb of
        None \<Rightarrow> Some (0, None, None)
      | Some r \<Rightarrow>
          if \<not> out_data \<or> rb_count r = 0 then Some (0, None, rb)
          else do {
            v \<leftarrow> get_at (rb_buffer r) (unat (rb_tail r));
            let t = rb_tail r + 1;
            let t' = (if t \<ge> rb_capacity r then 0 else t);
            Some (1, Some v, Some (r\<lparr>rb_tail := t', rb_count := rb_count r - 1\<rparr>))
          })"

definition ringbuf_write ::
    "ringbuf ptr \<Rightarrow> u8 list ptr \<Rightarrow> u32 \<Rightarrow> (u32 \<times> ringbuf ptr) option" where
  "ringbuf_write rb data sz =
     (case (rb, data) of
        (Some r, Some d) \<Rightarrow>
          if sz = 0 then Some (0, rb)
          else
            let space = rb_capacity r - rb_count r;
                sz = (if sz > space then space else sz)
            in if sz = 0 then Some (0, rb)
               else
                 let contig = rb_capacity r - rb_head r in
                 if sz \<le> contig then do {
                   b \<leftarrow> blit (rb_buffer r) (unat (rb_head r)) d 0 (unat sz);
                   let h = rb_head r + sz;
                   let h' = (if h = rb_capacity r then 0 else h);
                   Some (sz, Some (r\<lparr>rb_buffer := b, rb_head := h', rb_count := rb_count r + sz\<rparr>))
                 }
                 else do {
                   b1 \<leftarrow> blit (rb_buffer r) (unat (rb_head r)) d 0 (unat contig);
                   b2 \<leftarrow> blit b1 0 d (unat contig) (unat (sz - contig));
                   Some (sz, Some (r\<lparr>rb_buffer := b2, rb_head := sz - contig,
                                       rb_count := rb_count r + sz\<rparr>))
                 }
      | _ \<Rightarrow> Some (0, rb))"

text \<open>
  \<open>ringbuf_read\<close> copies into the caller's array \<open>out_data\<close>, whose new contents are the
  second component of the result.
\<close>

definition ringbuf_read ::
    "ringbuf ptr \<Rightarrow> u8 list ptr \<Rightarrow> u32 \<Rightarrow> (u32 \<times> u8 list ptr \<times> ringbuf ptr) option" where
  "ringbuf_read rb out_data sz =
     (case (rb, out_data) of
        (Some r, Some out) \<Rightarrow>
          if sz = 0 then Some (0, out_data, rb)
          else
            let sz = (if sz > rb_count r then rb_count r else sz)
            in if sz = 0 then Some (0, out_data, rb)
               else
                 let contig = rb_capacity r - rb_tail r in
                 if sz \<le> contig then do {
                   o1 \<leftarrow> blit out 0 (rb_buffer r) (unat (rb_tail r)) (unat sz);
                   let t = rb_tail r + sz;
                   let t' = (if t = rb_capacity r then 0 else t);
                   Some (sz, Some o1, Some (r\<lparr>rb_tail := t', rb_count := rb_count r - sz\<rparr>))
                 }
                 else do {
                   o1 \<leftarrow> blit out 0 (rb_buffer r) (unat (rb_tail r)) (unat contig);
                   o2 \<leftarrow> blit o1 (unat contig) (rb_buffer r) 0 (unat (sz - contig));
                   Some (sz, Some o2, Some (r\<lparr>rb_tail := sz - contig,
                                                rb_count := rb_count r - sz\<rparr>))
                 }
      | _ \<Rightarrow> Some (0, out_data, rb))"

text \<open>
  \<open>ringbuf_peek_contiguous\<close> yields the chunk length and, through \<open>out_ptr\<close>, the index of
  the first readable byte inside the buffer (\<open>None\<close> is the NULL it stores when the ring is
  empty).
\<close>

definition ringbuf_peek_contiguous :: "ringbuf ptr \<Rightarrow> bool \<Rightarrow> u32 \<times> u32 ptr" where
  "ringbuf_peek_contiguous rb out_ptr =
     (case rb of
        None \<Rightarrow> (0, None)
      | Some r \<Rightarrow>
          if \<not> out_ptr then (0, None)
          else if rb_count r = 0 then (0, None)
          else
            let contig = rb_capacity r - rb_tail r
            in (if rb_count r < contig then rb_count r else contig, Some (rb_tail r)))"

definition ringbuf_consume :: "ringbuf ptr \<Rightarrow> u32 \<Rightarrow> ringbuf ptr" where
  "ringbuf_consume rb sz =
     (case rb of
        None \<Rightarrow> None
      | Some r \<Rightarrow>
          if sz = 0 then rb
          else
            let sz = (if sz > rb_count r then rb_count r else sz);
                t = rb_tail r + sz;
                t' = (if t \<ge> rb_capacity r then t - rb_capacity r else t)
            in Some (r\<lparr>rb_tail := t', rb_count := rb_count r - sz\<rparr>))"

section \<open>Well-formedness and the abstraction to a list\<close>

definition rb_ok :: "ringbuf \<Rightarrow> bool" where
  "rb_ok r \<longleftrightarrow> 0 < unat (rb_capacity r) \<and> length (rb_buffer r) = unat (rb_capacity r) \<and>
     unat (rb_count r) \<le> unat (rb_capacity r) \<and> unat (rb_tail r) < unat (rb_capacity r) \<and>
     unat (rb_head r) = (unat (rb_tail r) + unat (rb_count r)) mod unat (rb_capacity r)"

definition rb_bytes :: "ringbuf \<Rightarrow> u8 list" where
  "rb_bytes r = ring_bytes (rb_buffer r) (unat (rb_tail r)) (unat (rb_count r))"

abbreviation rb_space :: "ringbuf \<Rightarrow> nat" where
  "rb_space r \<equiv> unat (rb_capacity r) - unat (rb_count r)"

lemma length_rb_bytes [simp]: "length (rb_bytes r) = unat (rb_count r)"
  by (simp add: rb_bytes_def)

lemma rb_ok_head: "rb_ok r \<Longrightarrow> unat (rb_head r) < unat (rb_capacity r)"
  by (simp add: rb_ok_def)

lemma rb_free_space: "rb_ok r \<Longrightarrow> unat (ringbuf_free_space (Some r)) = rb_space r"
  by (simp add: ringbuf_free_space_def rb_ok_def unat_sub_no_underflow)

lemma ringbuf_init_spec:
  assumes "capacity \<noteq> 0" "length b = unat capacity"
  shows "\<exists>r'. ringbuf_init (Some r) (Some b) capacity = Some (Some r') \<and> rb_ok r' \<and>
    rb_bytes r' = [] \<and> rb_capacity r' = capacity"
  using assms by (auto simp: ringbuf_init_def rb_ok_def rb_bytes_def unat_gt_0)

lemma ringbuf_push_spec:
  assumes "rb_ok r"
  shows "\<exists>r'. ringbuf_push (Some r) x =
      Some (if ringbuf_is_full (Some r) then 0 else 1, Some r') \<and> rb_ok r' \<and>
    rb_capacity r' = rb_capacity r \<and>
    rb_bytes r' = (if ringbuf_is_full (Some r) then rb_bytes r else rb_bytes r @ [x])"
proof (cases "rb_count r = rb_capacity r")
  case True
  then show ?thesis using assms by (simp add: ringbuf_push_def ringbuf_is_full_def)
next
  case False
  let ?c = "unat (rb_capacity r)" and ?n = "unat (rb_count r)" and ?t = "unat (rb_tail r)"
  have lt: "?n < ?c" using assms False by (auto simp: rb_ok_def word_eq_nat_iff)
  have h: "unat (rb_head r) < ?c" by (rule rb_ok_head [OF assms])
  have h1: "unat (rb_head r + 1) = unat (rb_head r) + 1"
    using unat_plus_one [OF h] by simp
  have n1: "unat (rb_count r + 1) = ?n + 1"
    using unat_plus_one [OF lt] by simp
  let ?b = "(rb_buffer r)[unat (rb_head r) := x]"
  let ?r = "r\<lparr>rb_buffer := ?b,
       rb_head := (if rb_head r + 1 \<ge> rb_capacity r then 0 else rb_head r + 1),
       rb_count := rb_count r + 1\<rparr>"
  have st: "ring_stored (rb_buffer r) ((?t + ?n) mod length (rb_buffer r)) [x] ?b"
    using ring_stored_one_part [of "unat (rb_head r)" 1 "rb_buffer r" "[x]"] h assms
    by (simp add: rb_ok_def upd_conv_take_nth_drop)
  have "rb_bytes ?r = rb_bytes r @ [x]"
    using ring_bytes_stored [OF st] lt assms by (auto simp: rb_bytes_def n1 rb_ok_def)
  moreover have "rb_ok ?r"
    using assms lt Suc_leI [OF h] by (auto simp: rb_ok_def n1 h1 word_le_nat_alt mod_Suc)
  moreover have "ringbuf_push (Some r) x = Some (1, Some ?r)"
    using lt h assms by (simp add: ringbuf_push_def word_le_nat_alt rb_ok_def)
  ultimately show ?thesis using False by (auto simp: ringbuf_is_full_def)
qed


lemma ringbuf_pop_spec:
  assumes "rb_ok r"
  shows "\<exists>r'. ringbuf_pop (Some r) True =
      Some (case rb_bytes r of [] \<Rightarrow> (0, None, Some r) | x # _ \<Rightarrow> (1, Some x, Some r')) \<and>
    rb_ok r' \<and> rb_capacity r' = rb_capacity r \<and> rb_bytes r' = tl (rb_bytes r)"
proof (cases "rb_count r = 0")
  case True
  then have "rb_bytes r = []" by (simp add: rb_bytes_def)
  then show ?thesis using True assms
    by (intro exI [of _ r]) (simp add: ringbuf_pop_def)
next
  case False
  let ?c = "unat (rb_capacity r)" and ?n = "unat (rb_count r)" and ?t = "unat (rb_tail r)"
  let ?r = "r\<lparr>rb_tail := (if rb_tail r + 1 \<ge> rb_capacity r then 0 else rb_tail r + 1),
       rb_count := rb_count r - 1\<rparr>"
  have n0: "0 < ?n" using False by (simp add: unat_gt_0)
  have t: "?t < ?c" using assms by (simp add: rb_ok_def)
  have t1: "unat (rb_tail r + 1) = ?t + 1" using unat_plus_one [OF t] by simp
  have n1: "unat (rb_count r - 1) = ?n - 1"
    using n0 by (subst unat_sub_no_underflow) simp_all
  have tl: "unat (rb_tail ?r) = (?t + 1) mod ?c"
    using t t1 by (auto simp: word_le_nat_alt mod_Suc)
  have md: "((?t + 1) mod ?c + (?n - 1)) mod ?c = (?t + ?n) mod ?c"
    using n0 by (intro ring_index_advance) simp
  have ok: "rb_ok ?r"
    using assms tl md by (simp add: rb_ok_def n1 del: One_nat_def) linarith
  have bytes: "rb_bytes r = (rb_buffer r ! ?t) # rb_bytes ?r"
  proof -
    have "rb_bytes r = ring_bytes (rb_buffer r) ?t 1 @ ring_bytes (rb_buffer r) (?t + 1) (?n - 1)"
      using ring_bytes_take [of 1 ?n "rb_buffer r" ?t] ring_bytes_drop [of 1 ?n "rb_buffer r" ?t] n0
      by (metis Suc_leI append_take_drop_id One_nat_def rb_bytes_def)
    moreover have "ring_bytes (rb_buffer r) ?t 1 = [rb_buffer r ! ?t]"
      using t assms by (simp add: ring_bytes_def rb_ok_def)
    moreover have "ring_bytes (rb_buffer r) (?t + 1) (?n - 1) = rb_bytes ?r"
      using assms tl ring_bytes_mod [of "rb_buffer r" "?t + 1" "?n - 1"]
      by (simp add: rb_bytes_def n1 rb_ok_def)
    ultimately show ?thesis by simp
  qed
  have pop: "ringbuf_pop (Some r) True = Some (1, Some (rb_buffer r ! ?t), Some ?r)"
    using assms False by (simp add: ringbuf_pop_def rb_ok_def)
  show ?thesis
    by (rule exI [of _ ?r]) (simp add: pop bytes ok del: ringbuf.simps)
qed

lemma ringbuf_write_spec:
  assumes ok: "rb_ok r" and len: "unat sz \<le> length d"
  defines "k \<equiv> min (unat sz) (rb_space r)"
  shows "\<exists>r' n. ringbuf_write (Some r) (Some d) sz = Some (n, Some r') \<and> unat n = k \<and>
    rb_ok r' \<and> rb_capacity r' = rb_capacity r \<and> rb_bytes r' = rb_bytes r @ take k d"
proof (cases "k = 0")
  case True
  then have "sz = 0 \<or> rb_capacity r - rb_count r = 0"
    using ok by (auto simp: k_def rb_ok_def min_def word_eq_nat_iff unat_sub_no_underflow split: if_splits)
  then show ?thesis using True ok
    by (intro exI [of _ r] exI [of _ 0]) (auto simp: ringbuf_write_def Let_def word_gt_0)
next
  case False
  let ?c = "unat (rb_capacity r)" and ?n = "unat (rb_count r)" and ?t = "unat (rb_tail r)"
  let ?h = "unat (rb_head r)"
  define s where "s = (if sz > rb_capacity r - rb_count r then rb_capacity r - rb_count r else sz)"
  have sp: "unat (rb_capacity r - rb_count r) = ?c - ?n"
    using ok by (simp add: unat_sub_no_underflow rb_ok_def)
  have s: "unat s = k" by (simp add: s_def k_def sp min_def word_less_nat_alt)
  have s0: "s \<noteq> 0" "sz \<noteq> 0" using False by (auto simp: word_eq_nat_iff s k_def)
  have h: "?h < ?c" "?h = (?t + ?n) mod ?c" "length (rb_buffer r) = ?c"
    using ok rb_ok_head by (auto simp: rb_ok_def)
  have kl: "k \<le> length d" "?n + k \<le> ?c" using len ok by (auto simp: k_def rb_ok_def)
  have cg: "unat (rb_capacity r - rb_head r) = ?c - ?h"
    using h by (simp add: unat_sub_no_underflow)
  have cnt: "unat (rb_count r + s) = ?n + k"
    using unat_add_bounded [of "rb_count r" s "rb_capacity r"] kl s by simp
  show ?thesis
  proof (cases "s \<le> rb_capacity r - rb_head r")
    case True
    then have fit: "?h + k \<le> ?c" using h by (simp add: word_le_nat_alt s cg)
    have hs: "unat (rb_head r + s) = ?h + k"
      using unat_add_bounded [of "rb_head r" s "rb_capacity r"] fit s by simp
    let ?b = "take ?h (rb_buffer r) @ take k d @ drop (?h + k) (rb_buffer r)"
    let ?r = "r\<lparr>rb_buffer := ?b, rb_head := (if rb_head r + s = rb_capacity r then 0 else rb_head r + s),
        rb_count := rb_count r + s\<rparr>"
    have "ring_stored (rb_buffer r) ((?t + ?n) mod length (rb_buffer r)) (take k d) ?b"
      using ring_stored_one_part [of ?h k "rb_buffer r" d] fit kl h by simp
    from ring_bytes_stored [OF this] have bytes: "rb_bytes ?r = rb_bytes r @ take k d"
      using kl h by (simp add: rb_bytes_def cnt)
    have hd: "unat (rb_head ?r) = (?t + (?n + k)) mod ?c"
    proof -
      have "(?t + (?n + k)) mod ?c = (?h + k) mod ?c"
        by (simp add: h(2) mod_simps add.assoc)
      then show ?thesis using fit hs by (auto simp: word_eq_nat_iff)
    qed
    have "rb_ok ?r"
      using ok kl fit hd by (simp add: rb_ok_def cnt)
    moreover have "ringbuf_write (Some r) (Some d) sz = Some (s, Some ?r)"
      using True s0 kl fit h by (simp add: ringbuf_write_def s_def [symmetric] Let_def s)
    ultimately show ?thesis using bytes s by (intro exI [of _ ?r] exI [of _ s]) simp
  next
    case wrap: False
    then have nfit: "?c - ?h < k" by (simp add: word_le_nat_alt s cg)
    have cs: "unat (s - (rb_capacity r - rb_head r)) = k - (?c - ?h)"
      using nfit by (subst unat_sub_no_underflow) (simp_all add: cg s)
    let ?b = "take (k - (?c - ?h)) (drop (?c - ?h) d) @
              drop (k - (?c - ?h)) (take ?h (rb_buffer r) @ take (?c - ?h) d)"
    let ?r = "r\<lparr>rb_buffer := ?b, rb_head := s - (rb_capacity r - rb_head r), rb_count := rb_count r + s\<rparr>"
    have stored: "ring_stored (rb_buffer r) ((?t + ?n) mod length (rb_buffer r)) (take k d) ?b"
      using ring_stored_two_parts [of ?h "rb_buffer r" k d] nfit kl h by simp
    have lb: "length ?b = ?c" using stored unfolding ring_stored_def h(3) by blast
    from ring_bytes_stored [OF stored] have bytes: "rb_bytes ?r = rb_bytes r @ take k d"
      using kl h by (simp add: rb_bytes_def cnt)
    have hd: "unat (rb_head ?r) = (?t + (?n + k)) mod ?c"
    proof -
      have "(?t + (?n + k)) mod ?c = (?h + k) mod ?c"
        by (simp add: h(2) mod_simps add.assoc)
      then show ?thesis using nfit kl ring_index_wrap [of ?h ?c k] h(1) by (simp add: cs)
    qed
    have "rb_ok ?r"
      using ok kl nfit hd lb by (simp add: rb_ok_def cnt del: length_append length_take length_drop)
    moreover have "blit (rb_buffer r) ?h d 0 (?c - ?h) =
        Some (take ?h (rb_buffer r) @ take (?c - ?h) d)"
      using kl nfit h(1,3) by simp
    moreover have "blit (take ?h (rb_buffer r) @ take (?c - ?h) d) 0 d (?c - ?h) (k - (?c - ?h)) = Some ?b"
      using kl nfit h(1,3) by (subst blit_Some) simp_all
    ultimately have "rb_ok ?r" "ringbuf_write (Some r) (Some d) sz = Some (s, Some ?r)"
      using wrap s0 by (simp_all add: ringbuf_write_def s_def [symmetric] Let_def s cg cs)
    then show ?thesis using bytes s by (intro exI [of _ ?r] exI [of _ s]) simp
  qed
qed


lemma ringbuf_read_spec:
  assumes ok: "rb_ok r" and len: "unat sz \<le> length out"
  defines "k \<equiv> min (unat sz) (unat (rb_count r))"
  shows "\<exists>r' n. ringbuf_read (Some r) (Some out) sz =
      Some (n, Some (take k (rb_bytes r) @ drop k out), Some r') \<and> unat n = k \<and>
    rb_ok r' \<and> rb_capacity r' = rb_capacity r \<and> rb_bytes r' = drop k (rb_bytes r)"
proof (cases "k = 0")
  case True
  then have "sz = 0 \<or> rb_count r = 0"
    by (auto simp: k_def min_def word_eq_nat_iff split: if_splits)
  then show ?thesis using True ok
    by (intro exI [of _ r] exI [of _ 0]) (auto simp: ringbuf_read_def Let_def word_gt_0)
next
  case False
  let ?c = "unat (rb_capacity r)" and ?n = "unat (rb_count r)" and ?t = "unat (rb_tail r)"
  define s where "s = (if sz > rb_count r then rb_count r else sz)"
  have s: "unat s = k" by (simp add: s_def k_def min_def word_less_nat_alt)
  have s0: "s \<noteq> 0" "sz \<noteq> 0" using False by (auto simp: word_eq_nat_iff s k_def)
  have t: "?t < ?c" "length (rb_buffer r) = ?c" "?n \<le> ?c"
    using ok by (auto simp: rb_ok_def)
  have kn: "k \<le> ?n" "k \<le> length out" "k \<le> ?c" using len t by (auto simp: k_def)
  have cg: "unat (rb_capacity r - rb_tail r) = ?c - ?t"
    using t by (simp add: unat_sub_no_underflow)
  have cnt: "unat (rb_count r - s) = ?n - k"
    using kn s by (subst unat_sub_no_underflow) simp_all
  have tk: "take k (rb_bytes r) = ring_bytes (rb_buffer r) ?t k"
    using kn by (simp add: rb_bytes_def ring_bytes_take)
  have after: "rb_ok r' \<and> rb_bytes r' = drop k (rb_bytes r)"
    if "unat (rb_tail r') = (?t + k) mod ?c" "rb_count r' = rb_count r - s"
      "rb_buffer r' = rb_buffer r" "rb_capacity r' = rb_capacity r" "rb_head r' = rb_head r" for r'
    using that ok kn ring_index_advance [OF kn(1), of ?t ?c]
      ring_bytes_mod [of "rb_buffer r" "?t + k" "?n - k"]
    by (auto simp: rb_ok_def rb_bytes_def cnt ring_bytes_drop)
  show ?thesis
  proof (cases "s \<le> rb_capacity r - rb_tail r")
    case True
    then have fit: "?t + k \<le> ?c" using t by (simp add: word_le_nat_alt s cg)
    have ts: "unat (rb_tail r + s) = ?t + k"
      using unat_add_bounded [of "rb_tail r" s "rb_capacity r"] fit s by simp
    let ?r = "r\<lparr>rb_tail := (if rb_tail r + s = rb_capacity r then 0 else rb_tail r + s),
        rb_count := rb_count r - s\<rparr>"
    have "unat (rb_tail ?r) = (?t + k) mod ?c"
      using fit t ts kn by (auto simp: word_eq_nat_iff)
    then have "rb_ok ?r \<and> rb_bytes ?r = drop k (rb_bytes r)" by (intro after) simp_all
    moreover have "ringbuf_read (Some r) (Some out) sz =
        Some (s, Some (take k (rb_bytes r) @ drop k out), Some ?r)"
      using True s0 kn fit t
      by (simp add: ringbuf_read_def s_def [symmetric] Let_def s tk ring_bytes_one_part)
    ultimately show ?thesis using s by (intro exI [of _ ?r] exI [of _ s]) simp
  next
    case wrap: False
    then have nfit: "?c - ?t < k" by (simp add: word_le_nat_alt s cg)
    have cs: "unat (s - (rb_capacity r - rb_tail r)) = k - (?c - ?t)"
      using nfit by (subst unat_sub_no_underflow) (simp_all add: cg s)
    let ?r = "r\<lparr>rb_tail := s - (rb_capacity r - rb_tail r), rb_count := rb_count r - s\<rparr>"
    have "unat (rb_tail ?r) = (?t + k) mod ?c"
      using ring_index_wrap [OF t(1) kn(3)] nfit by (simp add: cs split: if_splits)
    then have "rb_ok ?r \<and> rb_bytes ?r = drop k (rb_bytes r)" by (intro after) simp_all
    moreover have "ringbuf_read (Some r) (Some out) sz =
        Some (s, Some (take k (rb_bytes r) @ drop k out), Some ?r)"
      using wrap s0 kn nfit t ring_bytes_two_parts [of ?t "rb_buffer r" k, symmetric]
      by (simp add: ringbuf_read_def s_def [symmetric] Let_def s cg cs tk)
    ultimately show ?thesis using s by (intro exI [of _ ?r] exI [of _ s]) simp
  qed
qed

lemma ringbuf_consume_spec:
  assumes ok: "rb_ok r" and small: "unat (rb_capacity r) \<le> 2 ^ 31"
  shows "\<exists>r'. ringbuf_consume (Some r) sz = Some r' \<and> rb_ok r' \<and>
    rb_capacity r' = rb_capacity r \<and> rb_bytes r' = drop (unat sz) (rb_bytes r)"
proof (cases "sz = 0")
  case True
  then show ?thesis using ok by (simp add: ringbuf_consume_def)
next
  case False
  let ?c = "unat (rb_capacity r)" and ?n = "unat (rb_count r)" and ?t = "unat (rb_tail r)"
  define s where "s = (if sz > rb_count r then rb_count r else sz)"
  define k where "k = min (unat sz) ?n"
  have s: "unat s = k" by (simp add: s_def k_def min_def word_less_nat_alt)
  have t: "?t < ?c" "length (rb_buffer r) = ?c" "?n \<le> ?c" "k \<le> ?n" "k \<le> ?c"
    using ok by (auto simp: rb_ok_def k_def)
  have cnt: "unat (rb_count r - s) = ?n - k"
    using t s by (subst unat_sub_no_underflow) simp_all
  have ts: "unat (rb_tail r + s) = ?t + k"
    using t s small by (subst unat_add_no_overflow) simp_all
  let ?t' = "if rb_tail r + s \<ge> rb_capacity r then rb_tail r + s - rb_capacity r else rb_tail r + s"
  let ?r = "r\<lparr>rb_tail := ?t', rb_count := rb_count r - s\<rparr>"
  have t': "unat ?t' = (?t + k) mod ?c"
    using t ring_index_wrap [of ?t ?c k] by (auto simp: word_le_nat_alt ts unat_sub_no_underflow)
  have "rb_ok ?r"
    using ok t' t ring_index_advance [OF t(4), of ?t ?c] by (auto simp: rb_ok_def cnt)
  moreover have "rb_bytes ?r = drop k (rb_bytes r)"
    using t t' ring_bytes_mod [of "rb_buffer r" "?t + k" "?n - k"]
    by (simp add: rb_bytes_def cnt ring_bytes_drop)
  moreover have "drop k (rb_bytes r) = drop (unat sz) (rb_bytes r)"
    by (simp add: k_def min_def)
  ultimately show ?thesis using False
    by (intro exI [of _ ?r]) (simp add: ringbuf_consume_def s_def [symmetric] Let_def)
qed

lemma ringbuf_peek_contiguous_spec:
  assumes "rb_ok r" "ringbuf_peek_contiguous (Some r) True = (n, Some p)"
  shows "0 < unat n" "unat n \<le> unat (rb_count r)" "unat p + unat n \<le> length (rb_buffer r)"
    "take (unat n) (drop (unat p) (rb_buffer r)) = take (unat n) (rb_bytes r)"
proof -
  let ?c = "unat (rb_capacity r)" and ?n = "unat (rb_count r)" and ?t = "unat (rb_tail r)"
  have cg: "unat (rb_capacity r - rb_tail r) = ?c - ?t" and b: "length (rb_buffer r) = ?c" "?t < ?c"
    using assms(1) by (simp_all add: unat_sub_no_underflow rb_ok_def)
  from assms(2) have p: "p = rb_tail r" and n: "unat n = min ?n (?c - ?t)" and c0: "rb_count r \<noteq> 0"
    by (auto simp: ringbuf_peek_contiguous_def Let_def cg word_less_nat_alt split: if_splits)
  show "0 < unat n" using n c0 b by (simp add: unat_gt_0)
  show le: "unat n \<le> ?n" using n by simp
  show fit: "unat p + unat n \<le> length (rb_buffer r)" using n p b by simp
  show "take (unat n) (drop (unat p) (rb_buffer r)) = take (unat n) (rb_bytes r)"
    using fit le by (simp add: p rb_bytes_def ring_bytes_one_part ring_bytes_take)
qed

section \<open>The ring buffer is a bounded byte channel\<close>

definition rb_put :: "ringbuf \<Rightarrow> u8 list \<Rightarrow> (nat \<times> ringbuf) option" where
  "rb_put r d = do {
     (n, r') \<leftarrow> ringbuf_write (Some r) (Some d) (word_of_nat (length d));
     r'' \<leftarrow> r';
     Some (unat n, r'')
   }"

definition rb_get :: "ringbuf \<Rightarrow> nat \<Rightarrow> (u8 list \<times> ringbuf) option" where
  "rb_get r k = do {
     (n, out, r') \<leftarrow> ringbuf_read (Some r) (Some (replicate k 0)) (word_of_nat k);
     out' \<leftarrow> out;
     r'' \<leftarrow> r';
     Some (take (unat n) out', r'')
   }"

interpretation rb: byte_channel rb_ok rb_bytes "\<lambda>r. unat (rb_capacity r)" rb_put rb_get
proof unfold_locales
  fix r d k
  assume ok: "rb_ok r"
  then show "length (rb_bytes r) \<le> unat (rb_capacity r)" by (simp add: rb_ok_def)
  obtain r' n where "ringbuf_write (Some r) (Some d) (word_of_nat (length d)) = Some (n, Some r')"
      "unat n = min (unat (word_of_nat (length d) :: u32)) (rb_space r)" "rb_ok r'"
      "rb_capacity r' = rb_capacity r" "rb_bytes r' = rb_bytes r @ take (unat n) d"
    using ringbuf_write_spec [OF ok unat_word_of_nat_le] by metis
  then show "\<exists>n r'. rb_put r d = Some (n, r') \<and> rb_ok r' \<and>
      unat (rb_capacity r') = unat (rb_capacity r) \<and> rb_bytes r' = rb_bytes r @ take n d"
    by (simp add: rb_put_def)
  have "unat (word_of_nat k :: u32) \<le> length (replicate k (0 :: u8))"
    by (simp add: unat_word_of_nat_le)
  from ringbuf_read_spec [OF ok this] obtain r' n m where
      "ringbuf_read (Some r) (Some (replicate k 0)) (word_of_nat k) =
         Some (n, Some (take m (rb_bytes r) @ drop m (replicate k 0)), Some r')"
      "unat n = m" "m \<le> unat (rb_count r)" "rb_ok r'"
      "rb_capacity r' = rb_capacity r" "rb_bytes r' = drop m (rb_bytes r)"
    by (metis min.cobounded2)
  then show "\<exists>out r'. rb_get r k = Some (out, r') \<and> rb_ok r' \<and>
      unat (rb_capacity r') = unat (rb_capacity r) \<and> rb_bytes r = out @ rb_bytes r'"
    by (simp add: rb_get_def)
qed


section \<open>Properties\<close>

text \<open>C1: Any sequence of block writes and block reads on a well-formed ring buffer runs
  without leaving the storage, keeps the ring well formed, and delivers exactly the accepted
  bytes, in order, none lost or duplicated: what was stored plus what was accepted is what
  was delivered plus what is still stored.\<close>
theorem ringbuf_fifo:
  assumes "rb_ok r"
  shows "\<exists>acc del r'. chan_run rb_put rb_get r ops = Some (acc, del, r') \<and> rb_ok r' \<and>
    unat (rb_capacity r') = unat (rb_capacity r) \<and> rb_bytes r @ acc = del @ rb_bytes r'"
  using assms by (rule rb.run_fifo)

theorem ringbuf_fifo_witness:
  "let r = \<lparr>rb_buffer = [0, 0, 0, 0], rb_capacity = 4, rb_count = 0, rb_head = 0, rb_tail = 0\<rparr> in
   rb_ok r \<and> (\<exists>acc del r'. chan_run rb_put rb_get r [Put [1, 2, 3], Get 2, Put [4, 5, 6], Get 9] =
      Some (acc, del, r') \<and> rb_ok r' \<and> unat (rb_capacity r') = 4 \<and> acc = del @ rb_bytes r')"
proof -
  let ?r = "\<lparr>rb_buffer = [0, 0, 0, 0], rb_capacity = 4, rb_count = 0, rb_head = 0, rb_tail = 0\<rparr> :: ringbuf"
  have ok: "rb_ok ?r" and "rb_bytes ?r = []" by (simp_all add: rb_ok_def rb_bytes_def)
  with ringbuf_fifo [OF ok, of "[Put [1, 2, 3], Get 2, Put [4, 5, 6], Get 9]"]
  show ?thesis by (simp add: Let_def)
qed

text \<open>The byte operations are the queue operations on the stored list: \<open>ringbuf_push\<close>
  appends its byte and answers 1 exactly when the ring is not full, and otherwise answers 0
  and changes nothing; \<open>ringbuf_pop\<close> removes and returns the oldest byte and answers 1
  exactly when the ring is not empty. Both keep the ring well formed and stay inside the
  storage.\<close>
theorem ringbuf_push_pop:
  assumes "rb_ok r"
  shows "\<exists>r' r''. ringbuf_push (Some r) x =
      Some (if length (rb_bytes r) = unat (rb_capacity r) then (0, Some r) else (1, Some r')) \<and>
    rb_ok r' \<and>
    (length (rb_bytes r) < unat (rb_capacity r) \<longrightarrow> rb_bytes r' = rb_bytes r @ [x]) \<and>
    ringbuf_pop (Some r) True =
      Some (case rb_bytes r of [] \<Rightarrow> (0, None, Some r) | y # _ \<Rightarrow> (1, Some y, Some r'')) \<and>
    rb_ok r'' \<and> rb_bytes r'' = tl (rb_bytes r)"
proof -
  obtain r' where p: "ringbuf_push (Some r) x =
      Some (if ringbuf_is_full (Some r) then 0 else 1, Some r')" "rb_ok r'"
      "rb_bytes r' = (if ringbuf_is_full (Some r) then rb_bytes r else rb_bytes r @ [x])"
    using ringbuf_push_spec [OF assms] by metis
  obtain r'' where "ringbuf_pop (Some r) True =
      Some (case rb_bytes r of [] \<Rightarrow> (0, None, Some r) | y # _ \<Rightarrow> (1, Some y, Some r''))"
      "rb_ok r''" "rb_bytes r'' = tl (rb_bytes r)"
    using ringbuf_pop_spec [OF assms] by metis
  moreover have "ringbuf_is_full (Some r) \<longleftrightarrow> length (rb_bytes r) = unat (rb_capacity r)"
    by (simp add: ringbuf_is_full_def word_eq_nat_iff)
  moreover have "ringbuf_is_full (Some r) \<Longrightarrow> ringbuf_push (Some r) x = Some (0, Some r)"
    by (simp add: ringbuf_push_def ringbuf_is_full_def)
  ultimately show ?thesis using p by (intro exI [of _ r'] exI [of _ r'']) auto
qed

theorem ringbuf_push_pop_witness:
  "let r = \<lparr>rb_buffer = [7, 8, 9], rb_capacity = 3, rb_count = 2, rb_head = 1, rb_tail = 2\<rparr> in
   rb_ok r \<and> rb_bytes r = [9, 7] \<and>
   (\<exists>r''. ringbuf_pop (Some r) True = Some (1, Some 9, Some r'') \<and> rb_ok r'' \<and> rb_bytes r'' = [7])"
proof -
  let ?r = "\<lparr>rb_buffer = [7, 8, 9], rb_capacity = 3, rb_count = 2, rb_head = 1, rb_tail = 2\<rparr> :: ringbuf"
  have ok: "rb_ok ?r" and "rb_bytes ?r = [9, 7]"
    by (simp_all add: rb_ok_def rb_bytes_def ring_bytes_def upt_conv_Cons)
  with ringbuf_push_pop [OF ok, of 5] show ?thesis by (auto simp: Let_def)
qed

text \<open>C2: Zero-copy reading agrees with copying: on a ring of at most 2 GiB the chunk
  announced by \<open>ringbuf_peek_contiguous\<close> lies inside the storage, is the front of the
  stored bytes, and consuming \<open>n\<close> bytes removes exactly the first \<open>n\<close> of them.\<close>
theorem ringbuf_peek_consume:
  assumes "rb_ok r" "unat (rb_capacity r) \<le> 2 ^ 31"
    and "ringbuf_peek_contiguous (Some r) True = (n, Some p)"
  shows "\<exists>r'. ringbuf_consume (Some r) n = Some r' \<and> rb_ok r' \<and>
    unat p + unat n \<le> length (rb_buffer r) \<and>
    rb_bytes r = take (unat n) (drop (unat p) (rb_buffer r)) @ rb_bytes r'"
  using ringbuf_peek_contiguous_spec [OF assms(1,3)] ringbuf_consume_spec [OF assms(1,2), of n]
  by auto

theorem ringbuf_peek_consume_witness:
  "let r = \<lparr>rb_buffer = [7, 8, 9], rb_capacity = 3, rb_count = 2, rb_head = 1, rb_tail = 2\<rparr> in
   \<exists>r'. ringbuf_consume (Some r) 1 = Some r' \<and> rb_ok r' \<and> rb_bytes r = 9 # rb_bytes r'"
proof -
  let ?r = "\<lparr>rb_buffer = [7, 8, 9], rb_capacity = 3, rb_count = 2, rb_head = 1, rb_tail = 2\<rparr> :: ringbuf"
  have ok: "rb_ok ?r" by (simp add: rb_ok_def)
  have pk: "ringbuf_peek_contiguous (Some ?r) True = (1, Some 2)"
    by (simp add: ringbuf_peek_contiguous_def)
  from ringbuf_peek_consume [OF ok _ pk] show ?thesis by (simp add: Let_def)
qed

end
