(* ===== verification/Pipe.thy ===== *)
theory Pipe
  imports Channel
begin

text \<open>
  The kernel pipe of \<open>src/src/kernel/ipc/pipe.c\<close>: a ring of \<open>PIPE_SIZE\<close> bytes indexed by two
  free-running 32-bit counters, with blocking and non-blocking reads and writes, close,
  poll, creation and reference counting.

  A call of \<open>pipe_read\<close> or \<open>pipe_write\<close> is a sequence of critical sections (one pass
  through the body of the inner \<open>for (;;)\<close> under \<open>read_lock\<close> or \<open>write_lock\<close>) separated
  by waits on a semaphore. A section is one function here; what the other tasks do to the pipe
  during the successive waits is the argument \<open>envs\<close>, one function per wait, and a call that
  is still asleep when \<open>envs\<close> is used up has the result \<open>Waiting\<close>. Readers and writers hold
  different locks, so one read section and one write section may overlap in time; the last
  section models this overlap at the granularity of single loads, byte copies and stores.

  The calls into the semaphores and the poll wait queue are recorded, in order, in
  \<open>p_calls\<close>. Copies from and to user memory may stop at an unmapped page: \<open>ua off n\<close> is the
  number of bytes that get through when \<open>n\<close> bytes at offset \<open>off\<close> of the user buffer are
  accessed, and the copy succeeds when that is all of them.
\<close>

section \<open>State\<close>

datatype pipe_sem = SemRead | SemWrite

datatype pipe_call =
    SemDrain pipe_sem
  | SemSignalAll pipe_sem
  | PollWake u32
  | PollRegister
  | PollDetachAll
  | PollPut

record pipe =
  p_read_ptr :: u32
  p_readers :: int
  p_write_ptr :: u32
  p_writers :: int
  p_buffer :: "u8 list"
  p_size :: u32
  p_refs :: u32
  p_calls :: "pipe_call list"

record pipe_node =
  n_flags :: u32

abbreviation PIPE_SIZE :: u32 where "PIPE_SIZE \<equiv> 32768"
abbreviation VFS_FLAG_PIPE_READ :: u32 where "VFS_FLAG_PIPE_READ \<equiv> 1"
abbreviation VFS_FLAG_PIPE_WRITE :: u32 where "VFS_FLAG_PIPE_WRITE \<equiv> 2"
abbreviation VFS_POLLIN :: u32 where "VFS_POLLIN \<equiv> 0x001"
abbreviation VFS_POLLOUT :: u32 where "VFS_POLLOUT \<equiv> 0x004"
abbreviation VFS_POLLERR :: u32 where "VFS_POLLERR \<equiv> 0x008"
abbreviation VFS_POLLHUP :: u32 where "VFS_POLLHUP \<equiv> 0x010"

type_synonym uaccess = "nat \<Rightarrow> nat \<Rightarrow> nat"

definition call :: "pipe_call \<Rightarrow> pipe \<Rightarrow> pipe" where
  "call c p = p\<lparr>p_calls := p_calls p @ [c]\<rparr>"

definition call_if :: "bool \<Rightarrow> pipe_call \<Rightarrow> pipe \<Rightarrow> pipe" where
  "call_if b c p = (if b then call c p else p)"

text \<open>How a critical section ends: the call returns, the inner loop is left, or it sleeps.\<close>

datatype section_exit = Return int | Break u32 | Sleep

datatype pipe_result = Returned int | Waiting

text \<open>
  A copy of \<open>n\<close> bytes between the pipe and the caller's buffer: \<open>memcpy\<close> for kernel
  buffers, \<open>uaccess_copy_to_user\<close> or \<open>uaccess_copy_from_user\<close> for user buffers. The
  Boolean says whether all \<open>n\<close> bytes were copied; \<open>off\<close> is the offset in the caller's
  buffer.
\<close>

definition copied :: "uaccess \<Rightarrow> bool \<Rightarrow> u32 \<Rightarrow> u32 \<Rightarrow> nat" where
  "copied ua is_user off n = (if is_user then min (unat n) (ua (unat off) (unat n)) else unat n)"

definition copy_out ::
    "uaccess \<Rightarrow> bool \<Rightarrow> u8 list \<Rightarrow> u32 \<Rightarrow> u8 list \<Rightarrow> u32 \<Rightarrow> u32 \<Rightarrow> (bool \<times> u8 list) option" where
  "copy_out ua is_user buf off src soff n = do {
     b \<leftarrow> blit buf (unat off) src (unat soff) (copied ua is_user off n);
     Some (copied ua is_user off n = unat n, b)
   }"

definition copy_in ::
    "uaccess \<Rightarrow> bool \<Rightarrow> u8 list \<Rightarrow> u32 \<Rightarrow> u8 list \<Rightarrow> u32 \<Rightarrow> u32 \<Rightarrow> (bool \<times> u8 list) option" where
  "copy_in ua is_user dst doff buf off n = do {
     b \<leftarrow> blit dst (unat doff) buf (unat off) (copied ua is_user off n);
     Some (copied ua is_user off n = unat n, b)
   }"

section \<open>Reading\<close>

text \<open>The transfer of \<open>tk\<close> bytes, \<open>n1\<close> of them up to the end of the ring, with the wake-ups.\<close>

definition pipe_read_copy ::
    "uaccess \<Rightarrow> bool \<Rightarrow> u32 \<Rightarrow> u8 list \<Rightarrow> pipe \<Rightarrow> u32 \<Rightarrow> u32 \<Rightarrow> u32 \<Rightarrow>
     (section_exit \<times> u8 list \<times> pipe) option" where
  "pipe_read_copy ua is_user read_count buf p rp tk n1 =
     (let n2 = tk - n1 in do {
        (ok1, buf1) \<leftarrow> copy_out ua is_user buf read_count (p_buffer p) (rp mod p_size p) n1;
        if \<not> ok1 then
          Some (Return (sint (if read_count = 0 then -1 else read_count)), buf1,
                call_if (p_write_ptr p > rp) (SemSignalAll SemRead) p)
        else do {
          (ok2, buf2) \<leftarrow>
            (if n2 > 0 then copy_out ua is_user buf1 (read_count + n1) (p_buffer p) 0 n2
             else Some (True, buf1));
          if \<not> ok2 then
            (let p1 = p\<lparr>p_read_ptr := rp + n1\<rparr>;
                 p2 = call (PollWake VFS_POLLOUT) (call (SemSignalAll SemWrite) p1);
                 p3 = call_if (p_write_ptr p2 > rp + n1) (SemSignalAll SemRead) p2
             in Some (Return (-1), buf2, p3))
          else
            (let p1 = p\<lparr>p_read_ptr := rp + tk\<rparr>;
                 p2 = call (PollWake VFS_POLLOUT) (call (SemSignalAll SemWrite) p1);
                 p3 = call_if (p_write_ptr p2 > rp + tk) (SemSignalAll SemRead) p2
             in Some (Break (read_count + tk), buf2, p3))
        }
      })"

definition pipe_read_section ::
    "uaccess \<Rightarrow> bool \<Rightarrow> bool \<Rightarrow> bool \<Rightarrow> u32 \<Rightarrow> u32 \<Rightarrow> u8 list \<Rightarrow> pipe \<Rightarrow>
     (section_exit \<times> u8 list \<times> pipe) option" where
  "pipe_read_section ua block is_user waited sz read_count buf p0 =
     (let p = call_if waited (SemDrain SemRead) p0;
          wp = p_write_ptr p;
          rp = p_read_ptr p;
          available = wp - rp
      in if available > 0 then
           let want = sz - read_count;
               tk = (if want < available then want else available);
               rp_mod = rp mod p_size p;
               contig = p_size p - rp_mod;
               n1 = (if tk < contig then tk else contig)
           in pipe_read_copy ua is_user read_count buf p rp tk n1
         else if p_writers p = 0 then
           Some (Return (if \<not> block \<and> read_count = 0 then -1 else sint read_count), buf, p)
         else if \<not> block then Some (Return 0, buf, p)
         else Some (Sleep, buf, p))"

partial_function (option) pipe_read_loop ::
    "uaccess \<Rightarrow> bool \<Rightarrow> bool \<Rightarrow> u32 \<Rightarrow> (pipe \<Rightarrow> pipe) list \<Rightarrow> bool \<Rightarrow> u32 \<Rightarrow> u8 list \<Rightarrow> pipe \<Rightarrow>
     (pipe_result \<times> u8 list \<times> pipe) option" where
  "pipe_read_loop ua block is_user sz envs waited read_count buf p =
     do {
       (e, buf', p') \<leftarrow> pipe_read_section ua block is_user waited sz read_count buf p;
       (case e of
          Return r \<Rightarrow> Some (Returned r, buf', p')
        | Break rc \<Rightarrow>
            if rc > 0 \<or> \<not> rc < sz then Some (Returned (sint rc), buf', p')
            else pipe_read_loop ua block is_user sz envs False rc buf' p'
        | Sleep \<Rightarrow>
            (case envs of
               [] \<Rightarrow> Some (Waiting, buf', p')
             | env # rest \<Rightarrow> pipe_read_loop ua block is_user sz rest True read_count buf' (env p')))
     }"

definition pipe_read_impl ::
    "uaccess \<Rightarrow> (pipe \<Rightarrow> pipe) list \<Rightarrow> pipe_node ptr \<Rightarrow> pipe ptr \<Rightarrow> u32 \<Rightarrow> u8 list ptr \<Rightarrow> bool \<Rightarrow> bool \<Rightarrow>
     (pipe_result \<times> u8 list ptr \<times> pipe ptr) option" where
  "pipe_read_impl ua envs node private_data sz buffer block is_user =
     (case (node, buffer) of
        (Some nd, Some buf) \<Rightarrow>
          if sz = 0 then Some (Returned 0, buffer, private_data)
          else if \<not> block \<and> n_flags nd AND VFS_FLAG_PIPE_READ = 0
               then Some (Returned (-1), buffer, private_data)
          else (case private_data of
                  None \<Rightarrow> Some (Returned (-1), buffer, None)
                | Some p \<Rightarrow> do {
                    (r, buf', p') \<leftarrow> pipe_read_loop ua block is_user sz envs False 0 buf p;
                    Some (r, Some buf', Some p')
                  })
      | _ \<Rightarrow> Some (Returned 0, buffer, private_data))"

section \<open>Writing\<close>

definition pipe_write_copy ::
    "uaccess \<Rightarrow> bool \<Rightarrow> u32 \<Rightarrow> u8 list \<Rightarrow> pipe \<Rightarrow> u32 \<Rightarrow> u32 \<Rightarrow> u32 \<Rightarrow> (section_exit \<times> pipe) option" where
  "pipe_write_copy ua is_user written_count buf p wp tk n1 =
     (let n2 = tk - n1 in do {
        (ok1, b1) \<leftarrow> copy_in ua is_user (p_buffer p) (wp mod p_size p) buf written_count n1;
        if \<not> ok1 then
          (let p1 = p\<lparr>p_buffer := b1\<rparr>
           in Some (Return (if written_count = 0 then -1 else sint written_count),
                    call_if (p_size p1 - (wp - p_read_ptr p1) > 0) (SemSignalAll SemWrite) p1))
        else do {
          (ok2, b2) \<leftarrow>
            (if n2 > 0 then copy_in ua is_user b1 0 buf (written_count + n1) n2
             else Some (True, b1));
          if \<not> ok2 then
            (let p1 = p\<lparr>p_buffer := b2, p_write_ptr := wp + n1\<rparr>;
                 p2 = call (PollWake VFS_POLLIN) (call (SemSignalAll SemRead) p1);
                 p3 = call_if (p_size p2 - ((wp + n1) - p_read_ptr p2) > 0)
                        (SemSignalAll SemWrite) p2
             in Some (Return (-1), p3))
          else
            (let p1 = p\<lparr>p_buffer := b2, p_write_ptr := wp + tk\<rparr>;
                 p2 = call (PollWake VFS_POLLIN) (call (SemSignalAll SemRead) p1);
                 p3 = call_if (p_size p2 - ((wp + tk) - p_read_ptr p2) > 0)
                        (SemSignalAll SemWrite) p2
             in Some (Break (written_count + tk), p3))
        }
      })"

definition pipe_write_section ::
    "uaccess \<Rightarrow> bool \<Rightarrow> bool \<Rightarrow> bool \<Rightarrow> u32 \<Rightarrow> u32 \<Rightarrow> u32 \<Rightarrow> u8 list \<Rightarrow> pipe \<Rightarrow>
     (section_exit \<times> pipe) option" where
  "pipe_write_section ua block is_user waited require_space sz written_count buf p0 =
     (let p = call_if waited (SemDrain SemWrite) p0;
          rp = p_read_ptr p;
          wp = p_write_ptr p;
          space = p_size p - (wp - rp)
      in if p_readers p = 0 then
           Some (Return (if written_count = 0 then -1 else sint written_count), p)
         else if space \<ge> require_space then
           let want = sz - written_count;
               tk = (if \<not> block then want else if want < space then want else space);
               wp_mod = wp mod p_size p;
               contig = p_size p - wp_mod;
               n1 = (if tk < contig then tk else contig)
           in pipe_write_copy ua is_user written_count buf p wp tk n1
         else if \<not> block then Some (Return 0, p)
         else Some (Sleep, p))"

partial_function (option) pipe_write_loop ::
    "uaccess \<Rightarrow> bool \<Rightarrow> bool \<Rightarrow> u32 \<Rightarrow> u32 \<Rightarrow> (pipe \<Rightarrow> pipe) list \<Rightarrow> bool \<Rightarrow> u32 \<Rightarrow> u8 list \<Rightarrow> pipe \<Rightarrow>
     (pipe_result \<times> pipe) option" where
  "pipe_write_loop ua block is_user require_space sz envs waited written_count buf p =
     do {
       (e, p') \<leftarrow> pipe_write_section ua block is_user waited require_space sz written_count buf p;
       (case e of
          Return r \<Rightarrow> Some (Returned r, p')
        | Break wc \<Rightarrow>
            if \<not> block \<or> \<not> wc < sz then Some (Returned (sint wc), p')
            else pipe_write_loop ua block is_user require_space sz envs False wc buf p'
        | Sleep \<Rightarrow>
            (case envs of
               [] \<Rightarrow> Some (Waiting, p')
             | env # rest \<Rightarrow>
                 pipe_write_loop ua block is_user require_space sz rest True written_count buf (env p')))
     }"

definition pipe_write_impl ::
    "uaccess \<Rightarrow> (pipe \<Rightarrow> pipe) list \<Rightarrow> pipe_node ptr \<Rightarrow> pipe ptr \<Rightarrow> u32 \<Rightarrow> u8 list ptr \<Rightarrow> bool \<Rightarrow> bool \<Rightarrow>
     (pipe_result \<times> pipe ptr) option" where
  "pipe_write_impl ua envs node private_data sz buffer block is_user =
     (case (node, buffer) of
        (Some nd, Some buf) \<Rightarrow>
          if sz = 0 then Some (Returned 0, private_data)
          else (case private_data of
                  None \<Rightarrow> Some (Returned (-1), None)
                | Some p \<Rightarrow>
                    if \<not> block \<and> n_flags nd AND VFS_FLAG_PIPE_WRITE = 0
                      then Some (Returned (-1), private_data)
                    else if \<not> block \<and> sz > p_size p then Some (Returned 0, private_data)
                    else
                      let require_space = (if \<not> block \<or> sz \<le> p_size p then sz else 1)
                      in do {
                        (r, p') \<leftarrow> pipe_write_loop ua block is_user require_space sz envs False 0 buf p;
                        Some (r, Some p')
                      })
      | _ \<Rightarrow> Some (Returned 0, private_data))"

section \<open>Entry points\<close>

text \<open>The VFS entry points block and copy inside the kernel; the \<open>nonblock\<close> ones do neither.\<close>

definition pipe_read where
  "pipe_read envs node pd sz buffer = pipe_read_impl (\<lambda>_ n. n) envs node pd sz buffer True False"

definition pipe_read_nonblock where
  "pipe_read_nonblock ua node pd sz buffer = pipe_read_impl ua [] node pd sz buffer False True"

definition pipe_write where
  "pipe_write envs node pd sz buffer = pipe_write_impl (\<lambda>_ n. n) envs node pd sz buffer True False"

definition pipe_write_nonblock where
  "pipe_write_nonblock ua node pd sz buffer = pipe_write_impl ua [] node pd sz buffer False True"

section \<open>Poll\<close>

record poll_info =
  pi_available :: u32
  pi_space :: u32
  pi_readers :: int
  pi_writers :: int

text \<open>The four \<open>out_\<close> arguments are the fields of the result; they are 0 on the error returns.\<close>

definition pipe_poll_info :: "pipe_node ptr \<Rightarrow> pipe ptr \<Rightarrow> int \<times> poll_info" where
  "pipe_poll_info node private_data =
     (let zero = \<lparr>pi_available = 0, pi_space = 0, pi_readers = 0, pi_writers = 0\<rparr>
      in case node of
           None \<Rightarrow> (-1, zero)
         | Some nd \<Rightarrow>
             if n_flags nd AND (VFS_FLAG_PIPE_READ OR VFS_FLAG_PIPE_WRITE) = 0 then (-1, zero)
             else (case private_data of
                     None \<Rightarrow> (-1, zero)
                   | Some p \<Rightarrow>
                       let wp = p_write_ptr p;
                           rp = p_read_ptr p;
                           available = wp - rp;
                           space = p_size p - available
                       in (0, \<lparr>pi_available = available, pi_space = space,
                               pi_readers = p_readers p, pi_writers = p_writers p\<rparr>)))"

definition pipe_vfs_poll_status :: "pipe_node ptr \<Rightarrow> pipe ptr \<Rightarrow> u32 \<Rightarrow> u32" where
  "pipe_vfs_poll_status node private_data events =
     (case node of
        None \<Rightarrow> 0
      | Some nd \<Rightarrow>
          if n_flags nd AND (VFS_FLAG_PIPE_READ OR VFS_FLAG_PIPE_WRITE) = 0 then 0
          else (case private_data of
                  None \<Rightarrow> VFS_POLLHUP
                | Some p \<Rightarrow>
                    (case pipe_poll_info node private_data of (rc, i) \<Rightarrow>
                       if rc \<noteq> 0 then VFS_POLLERR
                       else
                         let rev1 =
                               (if n_flags nd AND VFS_FLAG_PIPE_READ \<noteq> 0 then
                                  (if events AND VFS_POLLIN \<noteq> 0 \<and> pi_available i > 0
                                   then VFS_POLLIN else 0)
                                  OR (if pi_writers i = 0 then VFS_POLLHUP else 0)
                                else 0)
                         in if n_flags nd AND VFS_FLAG_PIPE_WRITE \<noteq> 0 then
                              rev1
                              OR (if events AND VFS_POLLOUT \<noteq> 0 \<and> pi_readers i > 0 \<and> pi_space i > 0
                                  then VFS_POLLOUT else 0)
                              OR (if pi_readers i = 0 then VFS_POLLHUP else 0)
                            else rev1)))"

text \<open>\<open>reg\<close> is the result of \<open>poll_waitq_register\<close>; \<open>w\<close> and \<open>task\<close> say that the pointers are not NULL.\<close>

definition pipe_poll_waitq_register :: "int \<Rightarrow> pipe_node ptr \<Rightarrow> pipe ptr \<Rightarrow> bool \<Rightarrow> bool \<Rightarrow> int \<times> pipe ptr" where
  "pipe_poll_waitq_register reg node private_data w task =
     (case node of
        None \<Rightarrow> (-1, private_data)
      | Some nd \<Rightarrow>
          if \<not> w \<or> \<not> task then (-1, private_data)
          else if n_flags nd AND (VFS_FLAG_PIPE_READ OR VFS_FLAG_PIPE_WRITE) = 0 then (-1, private_data)
          else (case private_data of
                  None \<Rightarrow> (-1, None)
                | Some p \<Rightarrow> (reg, Some (call PollRegister p))))"

section \<open>Close, creation and reference counts\<close>

definition pipe_close :: "pipe_node \<Rightarrow> pipe ptr \<Rightarrow> int \<times> pipe ptr" where
  "pipe_close nd private_data =
     (case private_data of
        None \<Rightarrow> (0, None)
      | Some p \<Rightarrow>
          let (readers_left, writers_left, p1) =
                (if n_flags nd AND VFS_FLAG_PIPE_READ \<noteq> 0 then
                   (p_readers p - 1, 1,
                    call (SemSignalAll SemWrite) (p\<lparr>p_readers := p_readers p - 1\<rparr>))
                 else if n_flags nd AND VFS_FLAG_PIPE_WRITE \<noteq> 0 then
                   (1, p_writers p - 1,
                    call (SemSignalAll SemRead) (p\<lparr>p_writers := p_writers p - 1\<rparr>))
                 else (1, 1, p));
              p2 = call (PollWake (VFS_POLLHUP OR VFS_POLLIN OR VFS_POLLOUT)) p1;
              p3 = call_if (readers_left = 0 \<and> writers_left = 0) PollDetachAll p2
          in (0, Some p3))"

definition pipe_private_retain :: "pipe ptr \<Rightarrow> pipe ptr" where
  "pipe_private_retain private_data = map_option (\<lambda>p. p\<lparr>p_refs := p_refs p + 1\<rparr>) private_data"

definition pipe_private_release :: "pipe ptr \<Rightarrow> pipe ptr" where
  "pipe_private_release private_data =
     map_option (\<lambda>p. let p1 = p\<lparr>p_refs := p_refs p - 1\<rparr>
                     in if p_refs p1 \<noteq> 0 then p1 else call PollPut (call PollDetachAll p1))
       private_data"

text \<open>
  \<open>vfs_create_pipe\<close> makes four allocations; \<open>alloc i\<close> says whether the \<open>i\<close>-th succeeds
  and \<open>raw\<close> is what the new buffer holds. The result is the return code, the objects that
  are still allocated afterwards, and the two nodes with the pipe they share.
\<close>

datatype pipe_obj = PipeObj | BufferObj | ReadNodeObj | WriteNodeObj

text \<open>The objects freed when the last reference to the poll wait queue is dropped.\<close>

definition pipe_poll_waitq_finalize :: "pipe ptr \<Rightarrow> pipe_obj list" where
  "pipe_poll_waitq_finalize ctx = (case ctx of None \<Rightarrow> [] | Some p \<Rightarrow> [BufferObj, PipeObj])"

definition vfs_create_pipe ::
    "bool \<Rightarrow> bool \<Rightarrow> (nat \<Rightarrow> bool) \<Rightarrow> u8 list \<Rightarrow> int \<times> pipe_obj list \<times> (pipe_node \<times> pipe_node \<times> pipe) option" where
  "vfs_create_pipe read_node write_node alloc raw =
     (if \<not> read_node \<or> \<not> write_node then (-1, [], None)
      else if \<not> alloc 0 then (-1, [], None)
      else if \<not> alloc 1 then (-1, removeAll PipeObj [PipeObj], None)
      else
        let live = [PipeObj, BufferObj] @ (if alloc 2 then [ReadNodeObj] else [])
                     @ (if alloc 3 then [WriteNodeObj] else [])
        in if \<not> alloc 2 \<or> \<not> alloc 3 then
             (-1, removeAll PipeObj (removeAll BufferObj
                    (let l1 = (if alloc 2 then removeAll ReadNodeObj live else live)
                     in if alloc 3 then removeAll WriteNodeObj l1 else l1)), None)
           else
             (0, live,
              Some (\<lparr>n_flags = VFS_FLAG_PIPE_READ\<rparr>, \<lparr>n_flags = VFS_FLAG_PIPE_WRITE\<rparr>,
                    \<lparr>p_read_ptr = 0, p_readers = 1, p_write_ptr = 0, p_writers = 1,
                     p_buffer = raw, p_size = PIPE_SIZE, p_refs = 2, p_calls = []\<rparr>)))"

section \<open>The pipe as a list of bytes\<close>

definition pipe_used :: "pipe \<Rightarrow> nat" where
  "pipe_used p = unat (p_write_ptr p - p_read_ptr p)"

definition pipe_ok :: "pipe \<Rightarrow> bool" where
  "pipe_ok p \<longleftrightarrow> p_size p = PIPE_SIZE \<and> length (p_buffer p) = unat PIPE_SIZE \<and>
     pipe_used p \<le> unat PIPE_SIZE"

definition pipe_bytes :: "pipe \<Rightarrow> u8 list" where
  "pipe_bytes p = ring_bytes (p_buffer p) (unat (p_read_ptr p)) (pipe_used p)"

text \<open>The fields that reads and writes leave alone.\<close>

definition pipe_frame :: "pipe \<Rightarrow> pipe \<Rightarrow> bool" where
  "pipe_frame p p' \<longleftrightarrow> p_readers p' = p_readers p \<and> p_writers p' = p_writers p \<and>
     p_size p' = p_size p \<and> p_refs p' = p_refs p"

lemma call_fields [simp]:
  "p_read_ptr (call c p) = p_read_ptr p" "p_write_ptr (call c p) = p_write_ptr p"
  "p_readers (call c p) = p_readers p" "p_writers (call c p) = p_writers p"
  "p_buffer (call c p) = p_buffer p" "p_size (call c p) = p_size p" "p_refs (call c p) = p_refs p"
  by (simp_all add: call_def)

lemma call_if_fields [simp]:
  "p_read_ptr (call_if b c p) = p_read_ptr p" "p_write_ptr (call_if b c p) = p_write_ptr p"
  "p_readers (call_if b c p) = p_readers p" "p_writers (call_if b c p) = p_writers p"
  "p_buffer (call_if b c p) = p_buffer p" "p_size (call_if b c p) = p_size p"
  "p_refs (call_if b c p) = p_refs p"
  by (simp_all add: call_if_def)

lemma pipe_call [simp]:
  "pipe_used (call c p) = pipe_used p" "pipe_used (call_if b c p) = pipe_used p"
  "pipe_ok (call c p) = pipe_ok p" "pipe_ok (call_if b c p) = pipe_ok p"
  "pipe_bytes (call c p) = pipe_bytes p" "pipe_bytes (call_if b c p) = pipe_bytes p"
  "pipe_frame p0 (call c p) = pipe_frame p0 p" "pipe_frame p0 (call_if b c p) = pipe_frame p0 p"
  "pipe_frame (call_if b c p) p0 = pipe_frame p p0"
  by (simp_all add: pipe_used_def pipe_ok_def pipe_bytes_def pipe_frame_def)

lemma pipe_frame_refl [simp]: "pipe_frame p p"
  by (simp add: pipe_frame_def)

lemma pipe_frame_trans: "pipe_frame p q \<Longrightarrow> pipe_frame q r \<Longrightarrow> pipe_frame p r"
  by (simp add: pipe_frame_def)

lemma length_pipe_bytes [simp]: "length (pipe_bytes p) = pipe_used p"
  by (simp add: pipe_bytes_def)

text \<open>
  The counters run freely and wrap at \<open>2\<^sup>3\<^sup>2\<close>. The ring index survives the wrap because
  \<open>PIPE_SIZE\<close> divides \<open>2\<^sup>3\<^sup>2\<close>.
\<close>

lemma ptr_index: "unat (a + b :: u32) mod 32768 = (unat a + unat b) mod 32768"
  using mod_mod_cancel [of 32768 "4294967296 :: nat" "unat a + unat b"]
  by (simp add: unat_word_ariths)

lemma ring_bytes_ptr:
  "length buf = 32768 \<Longrightarrow> ring_bytes buf (unat (a + b :: u32)) n = ring_bytes buf (unat a + unat b) n"
  using ring_bytes_mod [of buf "unat (a + b)" n] ring_bytes_mod [of buf "unat a + unat b" n]
  by (simp add: ptr_index)

lemma write_index:
  "unat (p_write_ptr p mod PIPE_SIZE) = (unat (p_read_ptr p) + pipe_used p) mod 32768"
  using ptr_index [of "p_read_ptr p" "p_write_ptr p - p_read_ptr p"]
  by (simp add: unat_mod pipe_used_def)

text \<open>Effect of moving the read and the write counter.\<close>

lemma pipe_consume:
  assumes "pipe_ok p" "unat n \<le> pipe_used p"
  shows "pipe_ok (p\<lparr>p_read_ptr := p_read_ptr p + n\<rparr>)"
    "pipe_used (p\<lparr>p_read_ptr := p_read_ptr p + n\<rparr>) = pipe_used p - unat n"
    "pipe_bytes (p\<lparr>p_read_ptr := p_read_ptr p + n\<rparr>) = drop (unat n) (pipe_bytes p)"
proof -
  have d: "p_write_ptr p - (p_read_ptr p + n) = (p_write_ptr p - p_read_ptr p) - n" by simp
  show u: "pipe_used (p\<lparr>p_read_ptr := p_read_ptr p + n\<rparr>) = pipe_used p - unat n"
    using assms(2) by (simp add: pipe_used_def d unat_sub_no_underflow)
  show "pipe_ok (p\<lparr>p_read_ptr := p_read_ptr p + n\<rparr>)"
    using assms u by (auto simp: pipe_ok_def)
  show "pipe_bytes (p\<lparr>p_read_ptr := p_read_ptr p + n\<rparr>) = drop (unat n) (pipe_bytes p)"
    using assms u by (simp add: pipe_bytes_def ring_bytes_drop pipe_ok_def ring_bytes_ptr)
qed

lemma pipe_produce:
  assumes "pipe_ok p" "pipe_used p + length xs \<le> 32768" "length xs = unat n"
    and "ring_stored (p_buffer p) (unat (p_write_ptr p mod PIPE_SIZE)) xs b"
  shows "pipe_ok (p\<lparr>p_buffer := b, p_write_ptr := p_write_ptr p + n\<rparr>)"
    "pipe_used (p\<lparr>p_buffer := b, p_write_ptr := p_write_ptr p + n\<rparr>) = pipe_used p + length xs"
    "pipe_bytes (p\<lparr>p_buffer := b, p_write_ptr := p_write_ptr p + n\<rparr>) = pipe_bytes p @ xs"
proof -
  have d: "p_write_ptr p + n - p_read_ptr p = (p_write_ptr p - p_read_ptr p) + n" by simp
  show u: "pipe_used (p\<lparr>p_buffer := b, p_write_ptr := p_write_ptr p + n\<rparr>) = pipe_used p + length xs"
    using assms(2,3) by (simp add: pipe_used_def d unat_add_no_overflow)
  have lb: "length b = length (p_buffer p)" using assms(4) by (simp add: ring_stored_def)
  show "pipe_ok (p\<lparr>p_buffer := b, p_write_ptr := p_write_ptr p + n\<rparr>)"
    using assms(1,2) u lb by (simp add: pipe_ok_def)
  have "length (p_buffer p) = 32768" using assms(1) by (simp add: pipe_ok_def)
  then show "pipe_bytes (p\<lparr>p_buffer := b, p_write_ptr := p_write_ptr p + n\<rparr>) = pipe_bytes p @ xs"
    using assms(2,4) u ring_bytes_stored [of "p_buffer p" "unat (p_read_ptr p)" "pipe_used p" xs b]
    by (simp add: pipe_bytes_def write_index)
qed

lemma pipe_scribble:
  assumes "pipe_ok p" "blit (p_buffer p) (unat (p_write_ptr p mod PIPE_SIZE)) src off m = Some b"
    "pipe_used p + m \<le> 32768" 
  shows "pipe_ok (p\<lparr>p_buffer := b\<rparr>)" "pipe_bytes (p\<lparr>p_buffer := b\<rparr>) = pipe_bytes p"
proof -
  have l: "length b = length (p_buffer p)" "length (p_buffer p) = 32768"
    using blit_length [OF assms(2)] assms(1) by (simp_all add: pipe_ok_def)
  then show "pipe_ok (p\<lparr>p_buffer := b\<rparr>)" using assms(1) by (simp add: pipe_ok_def pipe_used_def)
  have "unat (p_write_ptr p mod PIPE_SIZE) + m \<le> length (p_buffer p)"
    using assms(2) by (auto simp: blit_def split: if_splits)
  then show "pipe_bytes (p\<lparr>p_buffer := b\<rparr>) = pipe_bytes p"
    using ring_bytes_blit_free [OF assms(2), of "unat (p_read_ptr p)" "pipe_used p"] assms(3) l
    by (simp add: pipe_bytes_def pipe_used_def write_index)
qed


lemma copied_le: "copied ua is_user off n \<le> unat n"
  by (simp add: copied_def)

text \<open>The whole user buffer is accessible.\<close>

definition ua_total :: "uaccess \<Rightarrow> bool" where
  "ua_total ua \<longleftrightarrow> (\<forall>off n. n \<le> ua off n)"

lemma ua_total_identity [simp]: "ua_total (\<lambda>_ n. n)"
  by (simp add: ua_total_def)

lemma copied_short: "copied ua is_user off n \<noteq> unat n \<Longrightarrow> is_user \<and> \<not> ua_total ua"
  by (auto simp: copied_def ua_total_def min_def split: if_splits)

lemma copied_kernel [simp]: "copied ua False off n = unat n"
  by (simp add: copied_def)

text \<open>
  Where a transfer of \<open>k\<close> bytes at index \<open>i\<close> of the ring faults in the user buffer at offset \<open>off\<close>: the transfer is made in one
  part, or in two when it passes the end of the ring. The result is the number of bytes in the parts that are complete.
\<close>

definition user_fault :: "uaccess \<Rightarrow> nat \<Rightarrow> nat \<Rightarrow> nat \<Rightarrow> nat option" where
  "user_fault ua off i k =
     (let n1 = min k (unat PIPE_SIZE - i) in
      if ua off n1 < n1 then Some 0
      else if n1 < k \<and> ua (off + n1) (k - n1) < k - n1 then Some n1
      else None)"

lemma user_fault_total:
  assumes "ua_total ua"
  shows "user_fault ua off i k = None"
proof -
  have "(ua o' n < n) = False" for o' n using assms by (simp add: ua_total_def not_less)
  then show ?thesis by (simp only: user_fault_def Let_def if_False simp_thms)
qed

lemma user_fault_first:
  "copied ua is_user off n1 \<noteq> unat n1 \<Longrightarrow> unat n1 = min k (32768 - i) \<Longrightarrow> user_fault ua (unat off) i k = Some 0"
  by (auto simp: copied_def user_fault_def Let_def min_def split: if_splits)

lemma user_fault_second:
  assumes "copied ua is_user off n1 = unat n1" "unat n1 = min k (32768 - i)" "unat n1 < k" "copied ua is_user (off + n1) n2 \<noteq> k - unat n1"
    "unat (off + n1) = unat off + unat n1" "unat n2 = k - unat n1"
  shows "user_fault ua (unat off) i k = Some (unat n1)"
proof -
  have u: "is_user" using assms(4,6) by (auto simp: copied_def split: if_splits)
  have "\<not> ua (unat off) (unat n1) < unat n1" "ua (unat off + unat n1) (k - unat n1) < k - unat n1"
    using assms(1,4-6) u by (auto simp: copied_def)
  then show ?thesis using assms(3) by (simp add: user_fault_def Let_def assms(2) [symmetric])
qed

lemma user_fault_none:
  assumes "is_user" "copied ua is_user off n1 = unat n1" "unat n1 = min k (32768 - i)" "unat n1 = k \<or> copied ua is_user (off + n1) n2 = k - unat n1"
    "unat (off + n1) = unat off + unat n1" "unat n2 = k - unat n1"
  shows "user_fault ua (unat off) i k = None"
proof -
  have "\<not> ua (unat off) (unat n1) < unat n1" "\<not> (unat n1 < k \<and> ua (unat off + unat n1) (k - unat n1) < k - unat n1)"
    using assms(1,2,4-6) by (auto simp: copied_def)
  then show ?thesis by (simp add: user_fault_def Let_def assms(3) [symmetric])
qed


text \<open>The split of a transfer of \<open>tk\<close> bytes at the end of the ring, as the code computes it.\<close>

lemma two_parts:
  fixes a tk :: u32
  defines "cg \<equiv> PIPE_SIZE - a mod PIPE_SIZE"
  defines "n1 \<equiv> (if tk < cg then tk else cg)"
  shows "unat (a mod PIPE_SIZE) < 32768"
    "unat n1 = min (unat tk) (32768 - unat (a mod PIPE_SIZE))"
    "unat (tk - n1) = unat tk - unat n1"
proof -
  show t: "unat (a mod PIPE_SIZE) < 32768" by (simp add: unat_mod)
  have "unat cg = 32768 - unat (a mod PIPE_SIZE)"
    unfolding cg_def using t by (simp add: unat_sub_no_underflow)
  then show n1: "unat n1 = min (unat tk) (32768 - unat (a mod PIPE_SIZE))"
    unfolding n1_def by (simp only: unat_u32_min)
  then show "unat (tk - n1) = unat tk - unat n1" by (simp add: unat_sub_no_underflow)
qed

text \<open>
  What a copying read section does: \<open>k\<close> bytes leave the pipe and land at offset \<open>rc\<close> of
  the caller's buffer, or a user copy faults and fewer leave.
\<close>

lemma read_copy_cases:
  fixes n1 :: u32
  assumes ok: "pipe_ok p" and k: "0 < unat tk" "unat tk \<le> pipe_used p"
    and buf: "unat rc + unat tk \<le> length buf" "unat rc + unat tk < 2 ^ 32"
    and n1: "unat n1 = min (unat tk) (32768 - unat (p_read_ptr p mod PIPE_SIZE))"
  obtains (copied) p' where
    "pipe_read_copy ua is_user rc buf p (p_read_ptr p) tk n1 =
       Some (Break (rc + tk), take (unat rc) buf @ take (unat tk) (pipe_bytes p) @
               drop (unat rc + unat tk) buf, p')"
    "pipe_ok p'" "pipe_frame p p'" "pipe_bytes p' = drop (unat tk) (pipe_bytes p)"
    "is_user \<longrightarrow> user_fault ua (unat rc) (unat (p_read_ptr p mod PIPE_SIZE)) (unat tk) = None"
  | (fault) r buf' p' c where
    "pipe_read_copy ua is_user rc buf p (p_read_ptr p) tk n1 = Some (Return r, buf', p')"
    "is_user" "length buf' = length buf" "\<not> ua_total ua"
    "pipe_ok p'" "pipe_frame p p'" "pipe_bytes p' = drop c (pipe_bytes p)" "c < unat tk"
    "r = (if rc = 0 \<or> c > 0 then -1 else sint rc)"
    "user_fault ua (unat rc) (unat (p_read_ptr p mod PIPE_SIZE)) (unat tk) = Some c"
proof -
  let ?b = "p_buffer p"
  let ?t = "unat (p_read_ptr p mod PIPE_SIZE)"
  let ?k = "unat tk"
  let ?m1 = "copied ua is_user rc n1"
  let ?m2 = "copied ua is_user (rc + n1) (tk - n1)"
  have sz: "p_size p = PIPE_SIZE" "length ?b = 32768" "?k \<le> 32768"
    using ok k(2) by (simp_all add: pipe_ok_def)
  have n2: "unat (tk - n1) = ?k - unat n1" using n1 by (simp add: unat_sub_no_underflow)
  have rcn1: "unat (rc + n1) = unat rc + unat n1" using n1 buf(2) by (simp add: unat_add_no_overflow)
  have lt: "unat n1 \<le> unat tk" "0 < unat n1" "?t < 32768" using n1 k(1) two_parts(1) by auto
  have nn: "unat n1 = min ?k (length ?b - ?t)" by (simp add: n1 sz(2))
  obtain d1 where d1: "blit buf (unat rc) ?b ?t (unat n1) = Some d1" "length d1 = length buf"
      "blit d1 (unat rc + unat n1) ?b 0 (?k - unat n1) =
         Some (take (unat rc) buf @ ring_bytes ?b ?t ?k @ drop (unat rc + ?k) buf)"
    by (rule ring_copy_out [of ?t ?b ?k "unat rc" buf, folded nn]) (use lt(3) sz buf(1) in auto)
  have bytes: "ring_bytes ?b ?t ?k = take ?k (pipe_bytes p)"
    using ring_bytes_mod [of ?b "unat (p_read_ptr p)" ?k] k(2) sz(2)
    by (simp add: pipe_bytes_def ring_bytes_take unat_mod)
  let ?D = "take (unat rc) buf @ take ?k (pipe_bytes p) @ drop (unat rc + ?k) buf"
  have c1: "copy_out ua is_user buf rc ?b (p_read_ptr p mod PIPE_SIZE) n1 = Some (True, d1)" if "?m1 = unat n1"
    using that d1(1) by (simp add: copy_out_def)
  consider (f1) "?m1 \<noteq> unat n1" | (good) "?m1 = unat n1" "n1 = tk \<or> ?m2 = ?k - unat n1"
    | (f2) "?m1 = unat n1" "n1 \<noteq> tk" "?m2 \<noteq> ?k - unat n1" by blast
  then show thesis
  proof cases
    case f1
    obtain d' where d': "blit buf (unat rc) ?b ?t ?m1 = Some d'" "length d' = length buf"
      using blit_shorter [OF d1(1) copied_le] by blast
    then have "copy_out ua is_user buf rc ?b (p_read_ptr p mod PIPE_SIZE) n1 = Some (False, d')"
      using f1 by (simp add: copy_out_def)
    then have "pipe_read_copy ua is_user rc buf p (p_read_ptr p) tk n1 =
        Some (Return (if rc = 0 then -1 else sint rc), d',
              call_if (p_write_ptr p > p_read_ptr p) (SemSignalAll SemRead) p)"
      by (simp add: pipe_read_copy_def Let_def sz(1))
    from fault [OF this, of 0] copied_short [OF f1] d'(2) ok k(1) user_fault_first [OF f1 n1] show thesis by simp
  next
    case good
    have "(if tk - n1 > 0 then copy_out ua is_user d1 (rc + n1) ?b 0 (tk - n1) else Some (True, d1)) =
        Some (True, ?D)"
    proof (cases "n1 = tk")
      case True
      then show ?thesis using d1(3) bytes by (auto dest: blit_0D)
    next
      case False
      then show ?thesis using good(2) d1(3) lt(1) by (simp add: copy_out_def n2 rcn1 bytes word_nat word_eq_nat_iff)
    qed
    then have "pipe_read_copy ua is_user rc buf p (p_read_ptr p) tk n1 =
        Some (Break (rc + tk), ?D,
              call_if (p_write_ptr p > p_read_ptr p + tk) (SemSignalAll SemRead)
                (call (PollWake VFS_POLLOUT) (call (SemSignalAll SemWrite)
                  (p\<lparr>p_read_ptr := p_read_ptr p + tk\<rparr>))))"
      using c1 [OF good(1)] by (simp add: pipe_read_copy_def Let_def sz(1))
    moreover have "is_user \<longrightarrow> user_fault ua (unat rc) ?t ?k = None"
      using user_fault_none [OF _ good(1) n1 _ rcn1 n2] good(2) by auto
    ultimately show thesis using copied pipe_consume [OF ok k(2)] by (simp add: pipe_frame_def)
  next
    case f2
    have n1k: "unat n1 < ?k" using f2(2) lt(1) by (simp add: word_eq_nat_iff)
    have "?m2 \<le> ?k - unat n1" using copied_le [of ua is_user "rc + n1" "tk - n1"] n2 by simp
    from blit_shorter [OF d1(3) this] obtain d' where
      d': "blit d1 (unat rc + unat n1) ?b 0 ?m2 = Some d'" "length d' = length d1" by blast
    have "copy_out ua is_user d1 (rc + n1) ?b 0 (tk - n1) = Some (False, d')" "tk - n1 > 0"
      using f2(3) d'(1) n1k by (simp_all add: copy_out_def n2 rcn1 word_less_nat_alt)
    then have "pipe_read_copy ua is_user rc buf p (p_read_ptr p) tk n1 =
        Some (Return (-1), d',
              call_if (p_write_ptr p > p_read_ptr p + n1) (SemSignalAll SemRead)
                (call (PollWake VFS_POLLOUT) (call (SemSignalAll SemWrite)
                  (p\<lparr>p_read_ptr := p_read_ptr p + n1\<rparr>))))"
      using c1 [OF f2(1)] by (simp add: pipe_read_copy_def Let_def sz(1))
    note sec = this
    have "is_user" "\<not> ua_total ua"
      using copied_short [of ua is_user "rc + n1" "tk - n1"] f2(3) n2 by auto
    moreover have "unat n1 \<le> pipe_used p" using k(2) n1k by simp
    ultimately show thesis
      using pipe_consume [OF ok, of n1] n1k lt(2) d'(2) d1(2) user_fault_second [OF f2(1) n1 n1k f2(3) rcn1 n2]
      by (intro fault [OF sec, of "unat n1"]) (simp_all add: pipe_frame_def)
  qed
qed

text \<open>State of the pipe when the first part of a write is stored and the second part faults.\<close>

lemma pipe_first_part:
  assumes ok: "pipe_ok p"
    and b1: "blit (p_buffer p) (unat (p_write_ptr p mod PIPE_SIZE)) buf off (unat n1) = Some b1"
    and n1: "unat n1 = 32768 - unat (p_write_ptr p mod PIPE_SIZE)"
    and b': "blit b1 0 buf off' m = Some b'" and k: "pipe_used p + unat n1 + m \<le> 32768"
  defines "p' \<equiv> p\<lparr>p_buffer := b', p_write_ptr := p_write_ptr p + n1\<rparr>"
  shows "pipe_ok p'" "pipe_bytes p' = pipe_bytes p @ take (unat n1) (drop off buf)"
proof -
  let ?b = "p_buffer p"
  let ?h = "unat (p_write_ptr p mod PIPE_SIZE)"
  let ?p1 = "p\<lparr>p_buffer := b1, p_write_ptr := p_write_ptr p + n1\<rparr>"
  let ?xs = "take (unat n1) (drop off buf)"
  have "b1 = take ?h ?b @ ?xs @ drop (?h + unat n1) ?b" "?h + unat n1 \<le> length ?b"
      and l: "off + unat n1 \<le> length buf"
    using b1 by (auto simp: blit_def split: if_splits)
  then have "ring_stored ?b ?h ?xs b1"
    using ring_stored_one_part [of ?h "unat n1" ?b "drop off buf"] n1 two_parts(1) ok
    by (simp add: pipe_ok_def)
  from pipe_produce [OF ok _ _ this, of n1] l k
  have p1: "pipe_ok ?p1" "pipe_used ?p1 = pipe_used p + unat n1" "pipe_bytes ?p1 = pipe_bytes p @ ?xs"
    by simp_all
  have "unat (p_write_ptr p) mod 32768 + unat n1 = 32768"
    using n1 two_parts(1) [of "p_write_ptr p"] by (simp add: unat_mod)
  then have "unat (p_write_ptr ?p1 mod PIPE_SIZE) = 0"
    using ptr_index [of "p_write_ptr p" n1] mod_add_left_eq [of "unat (p_write_ptr p)" 32768 "unat n1"]
    by (simp add: unat_mod)
  moreover have "p' = ?p1\<lparr>p_buffer := b'\<rparr>" by (cases p) (simp add: p'_def)
  ultimately show "pipe_ok p'" "pipe_bytes p' = pipe_bytes p @ take (unat n1) (drop off buf)"
    using pipe_scribble [of ?p1 buf off' m b'] p1 b' k by simp_all
qed

lemma write_copy_cases:
  fixes n1 :: u32
  assumes ok: "pipe_ok p" and k: "pipe_used p + unat tk \<le> 32768"
    and buf: "unat wc + unat tk \<le> length buf" "unat wc + unat tk < 2 ^ 32"
    and n1: "unat n1 = min (unat tk) (32768 - unat (p_write_ptr p mod PIPE_SIZE))"
  obtains (copied) p' where
    "pipe_write_copy ua is_user wc buf p (p_write_ptr p) tk n1 = Some (Break (wc + tk), p')"
    "pipe_ok p'" "pipe_frame p p'" "pipe_bytes p' = pipe_bytes p @ take (unat tk) (drop (unat wc) buf)"
    "is_user \<longrightarrow> user_fault ua (unat wc) (unat (p_write_ptr p mod PIPE_SIZE)) (unat tk) = None"
  | (fault) r p' c where
    "pipe_write_copy ua is_user wc buf p (p_write_ptr p) tk n1 = Some (Return r, p')"
    "is_user" "\<not> ua_total ua"
    "pipe_ok p'" "pipe_frame p p'" "c < unat tk"
    "pipe_bytes p' = pipe_bytes p @ take c (drop (unat wc) buf)"
    "r = (if wc = 0 \<or> c > 0 then -1 else sint wc)"
    "user_fault ua (unat wc) (unat (p_write_ptr p mod PIPE_SIZE)) (unat tk) = Some c"
proof -
  let ?b = "p_buffer p"
  let ?h = "unat (p_write_ptr p mod PIPE_SIZE)"
  let ?k = "unat tk"
  let ?m1 = "copied ua is_user wc n1"
  let ?m2 = "copied ua is_user (wc + n1) (tk - n1)"
  have sz: "p_size p = PIPE_SIZE" "length ?b = 32768" "?k \<le> 32768"
    using ok k by (simp_all add: pipe_ok_def)
  have n2: "unat (tk - n1) = ?k - unat n1" using n1 by (simp add: unat_sub_no_underflow)
  have wcn1: "unat (wc + n1) = unat wc + unat n1" using n1 buf(2) by (simp add: unat_add_no_overflow)
  have lt: "unat n1 \<le> unat tk" "?h < 32768" using n1 two_parts(1) by auto
  have nn: "unat n1 = min ?k (length ?b - ?h)" by (simp add: n1 sz(2))
  obtain b1 b2 where b: "blit ?b ?h buf (unat wc) (unat n1) = Some b1" "length b1 = length ?b"
      "blit b1 0 buf (unat wc + unat n1) (?k - unat n1) = Some b2"
      "ring_stored ?b ?h (take ?k (drop (unat wc) buf)) b2"
    by (rule ring_copy_in [of ?h ?b ?k "unat wc" buf, folded nn]) (use lt(2) sz buf(1) in auto)
  note defs = pipe_write_copy_def copy_in_def Let_def sz(1) wcn1 n2
  consider (f1) "?m1 \<noteq> unat n1" | (good) "?m1 = unat n1" "unat n1 = ?k \<or> ?m2 = ?k - unat n1"
    | (f2) "?m1 = unat n1" "unat n1 < ?k" "?m2 \<noteq> ?k - unat n1" using lt(1) by linarith
  then show thesis
  proof cases
    case f1
    obtain b' where b': "blit ?b ?h buf (unat wc) ?m1 = Some b'"
      using blit_shorter [OF b(1) copied_le] by blast
    have "pipe_write_copy ua is_user wc buf p (p_write_ptr p) tk n1 =
        Some (Return (if wc = 0 then -1 else sint wc),
              call_if (p_size p - (p_write_ptr p - p_read_ptr p) > 0) (SemSignalAll SemWrite)
                (p\<lparr>p_buffer := b'\<rparr>))"
      using f1 b' by (simp add: defs)
    moreover have "?m1 < unat n1" using f1 copied_le [of ua is_user wc n1] by simp
    ultimately show thesis
      using fault [of _ _ 0] pipe_scribble [OF ok b'] copied_short [OF f1] k lt(1) user_fault_first [OF f1 n1]
      by (simp add: pipe_frame_def)
  next
    case good
    have "pipe_write_copy ua is_user wc buf p (p_write_ptr p) tk n1 =
        Some (Break (wc + tk),
              call_if (p_size p - ((p_write_ptr p + tk) - p_read_ptr p) > 0) (SemSignalAll SemWrite)
                (call (PollWake VFS_POLLIN) (call (SemSignalAll SemRead)
                  (p\<lparr>p_buffer := b2, p_write_ptr := p_write_ptr p + tk\<rparr>))))"
      using good b lt by (auto simp: defs word_less_nat_alt dest: blit_0D)
    moreover have "is_user \<longrightarrow> user_fault ua (unat wc) ?h ?k = None"
      using user_fault_none [OF _ good(1) n1 good(2) wcn1 n2] by blast
    ultimately show thesis using copied pipe_produce [OF ok _ _ b(4), of tk] k buf(1)
      by (simp add: pipe_frame_def)
  next
    case f2
    obtain b' where b': "blit b1 0 buf (unat wc + unat n1) ?m2 = Some b'"
      using blit_shorter [OF b(3)] copied_le [of ua is_user "wc + n1" "tk - n1"] n2 by fastforce
    have m2: "pipe_used p + unat n1 + ?m2 \<le> 32768"
      using copied_le [of ua is_user "wc + n1" "tk - n1"] n2 lt(1) k by simp
    have n1': "unat n1 = 32768 - ?h" using n1 f2(2) by simp
    have "pipe_write_copy ua is_user wc buf p (p_write_ptr p) tk n1 =
        Some (Return (-1),
              call_if (p_size p - ((p_write_ptr p + n1) - p_read_ptr p) > 0) (SemSignalAll SemWrite)
                (call (PollWake VFS_POLLIN) (call (SemSignalAll SemRead)
                  (p\<lparr>p_buffer := b', p_write_ptr := p_write_ptr p + n1\<rparr>))))"
      using f2 b b' lt by (simp add: defs word_less_nat_alt)
    from fault [OF this, of "unat n1"] pipe_first_part [OF ok b(1) n1' b' m2] f2 n2 lt n1' user_fault_second [OF f2(1) n1 f2(2,3) wcn1 n2]
      copied_short [of ua is_user "wc + n1" "tk - n1"]
    show thesis by (simp add: pipe_frame_def)
  qed
qed

section \<open>One critical section\<close>

lemma read_section_cases:
  assumes ok: "pipe_ok p" and rc: "rc < sz" and buf: "unat sz \<le> length buf"
  defines "k \<equiv> min (unat sz - unat rc) (pipe_used p)"
  obtains (copied) p' where "0 < pipe_used p"
    "pipe_read_section ua block is_user waited sz rc buf p =
       Some (Break (rc + word_of_nat k),
             take (unat rc) buf @ take k (pipe_bytes p) @ drop (unat rc + k) buf, p')"
    "unat (rc + word_of_nat k) = unat rc + k"
    "pipe_ok p'" "pipe_frame p p'" "pipe_bytes p' = drop k (pipe_bytes p)"
    "is_user \<longrightarrow> user_fault ua (unat rc) (unat (p_read_ptr p mod PIPE_SIZE)) k = None"
  | (fault) r buf' p' c where "0 < pipe_used p"
    "pipe_read_section ua block is_user waited sz rc buf p = Some (Return r, buf', p')"
    "is_user" "length buf' = length buf" "\<not> ua_total ua"
    "pipe_ok p'" "pipe_frame p p'" "pipe_bytes p' = drop c (pipe_bytes p)" "c < k"
    "r = (if rc = 0 \<or> c > 0 then -1 else sint rc)"
    "user_fault ua (unat rc) (unat (p_read_ptr p mod PIPE_SIZE)) k = Some c"
  | (empty) "pipe_used p = 0"
    "pipe_read_section ua block is_user waited sz rc buf p =
       Some (if p_writers p = 0 then Return (if \<not> block \<and> rc = 0 then -1 else sint rc)
             else if block then Sleep else Return 0, buf, call_if waited (SemDrain SemRead) p)"
proof (cases "pipe_used p = 0")
  case True
  then have "p_write_ptr p - p_read_ptr p = 0" unfolding pipe_used_def by (metis unat_eq_zero)
  then show thesis using True
    by (intro empty) (simp_all add: pipe_read_section_def Let_def del: right_minus_eq)
next
  case False
  let ?q = "call_if waited (SemDrain SemRead) p"
  let ?rp = "p_read_ptr p"
  define tk where "tk = (if sz - rc < p_write_ptr p - ?rp then sz - rc else p_write_ptr p - ?rp)"
  define n1 where "n1 = (if tk < PIPE_SIZE - ?rp mod PIPE_SIZE then tk else PIPE_SIZE - ?rp mod PIPE_SIZE)"
  have lt: "unat rc < unat sz" using rc by (simp add: word_less_nat_alt)
  then have "unat tk = k"
    unfolding tk_def k_def by (simp only: unat_u32_min pipe_used_def unat_sub_no_underflow less_imp_le)
  then have tk: "unat tk = k" "tk = word_of_nat k" by auto
  have k: "0 < k" "k \<le> pipe_used p" "unat rc + k \<le> unat sz" using False lt by (auto simp: k_def)
  have rck: "unat (rc + tk) = unat rc + k" using k(3) tk(1) by (metis unat_add_bounded)
  have av: "p_write_ptr p - ?rp > 0" using False by (simp add: pipe_used_def word_less_nat_alt)
  have sz: "p_size p = PIPE_SIZE" using ok by (simp add: pipe_ok_def)
  have sec: "pipe_read_section ua block is_user waited sz rc buf p =
      pipe_read_copy ua is_user rc buf ?q (p_read_ptr ?q) tk n1"
    using av by (simp only: pipe_read_section_def Let_def call_if_fields sz tk_def [symmetric]
      n1_def [symmetric] if_True)
  have "pipe_ok ?q" "0 < unat tk" "unat tk \<le> pipe_used ?q"
      "unat rc + unat tk \<le> length buf" "unat rc + unat tk < 2 ^ 32"
      "unat n1 = min (unat tk) (32768 - unat (p_read_ptr ?q mod PIPE_SIZE))"
    using ok k tk buf unat_u32_less [of sz] two_parts(2) [of tk ?rp, folded n1_def] by simp_all
  then show thesis
  proof (cases rule: read_copy_cases [where ua = ua and is_user = is_user])
    case c: (copied p')
    then show thesis using copied [of p'] False sec tk rck by simp
  next
    case c: (fault r buf' p' c)
    then show thesis using False sec tk by (intro fault [of r buf' p' c]) simp_all
  qed
qed

lemma write_section_cases:
  assumes ok: "pipe_ok p" and wc: "wc < sz" and buf: "unat sz \<le> length buf"
    and rs: "if block then require_space > 0 else sz - wc \<le> require_space"
  defines "k \<equiv> min (unat sz - unat wc) (32768 - pipe_used p)"
  obtains (copied) p' where "p_readers p \<noteq> 0" "unat require_space \<le> 32768 - pipe_used p"
    "pipe_write_section ua block is_user waited require_space sz wc buf p = Some (Break (wc + word_of_nat k), p')"
    "unat (wc + word_of_nat k) = unat wc + k"
    "pipe_ok p'" "pipe_frame p p'" "pipe_bytes p' = pipe_bytes p @ take k (drop (unat wc) buf)"
    "is_user \<longrightarrow> user_fault ua (unat wc) (unat (p_write_ptr p mod PIPE_SIZE)) k = None"
  | (fault) r p' c where "p_readers p \<noteq> 0" "unat require_space \<le> 32768 - pipe_used p"
    "pipe_write_section ua block is_user waited require_space sz wc buf p = Some (Return r, p')"
    "is_user" "\<not> ua_total ua"
    "pipe_ok p'" "pipe_frame p p'" "c < k"
    "pipe_bytes p' = pipe_bytes p @ take c (drop (unat wc) buf)"
    "r = (if wc = 0 \<or> c > 0 then -1 else sint wc)"
    "user_fault ua (unat wc) (unat (p_write_ptr p mod PIPE_SIZE)) k = Some c"
  | (full) "p_readers p = 0 \<or> 32768 - pipe_used p < unat require_space"
    "pipe_write_section ua block is_user waited require_space sz wc buf p =
       Some (if p_readers p = 0 then Return (if wc = 0 then -1 else sint wc)
             else if block then Sleep else Return 0, call_if waited (SemDrain SemWrite) p)"
proof -
  let ?q = "call_if waited (SemDrain SemWrite) p"
  let ?wp = "p_write_ptr p"
  let ?sp = "PIPE_SIZE - (?wp - p_read_ptr p)"
  have sz: "p_size p = PIPE_SIZE" "pipe_used p \<le> 32768" using ok by (simp_all add: pipe_ok_def)
  have sp: "unat ?sp = 32768 - pipe_used p"
    using sz(2) by (simp add: pipe_used_def unat_sub_no_underflow)
  show thesis
  proof (cases "p_readers p = 0 \<or> 32768 - pipe_used p < unat require_space")
    case True
    then show thesis
      using sp by (intro full) (auto simp: pipe_write_section_def Let_def sz(1) word_le_nat_alt)
  next
    case False
    define tk where "tk = (if \<not> block then sz - wc else if sz - wc < ?sp then sz - wc else ?sp)"
    define n1 where "n1 = (if tk < PIPE_SIZE - ?wp mod PIPE_SIZE then tk else PIPE_SIZE - ?wp mod PIPE_SIZE)"
    have lt: "unat wc < unat sz" using wc by (simp add: word_less_nat_alt)
    have szwc: "unat (sz - wc) = unat sz - unat wc" using lt by (simp add: unat_sub_no_underflow)
    have "unat tk = k"
    proof (cases block)
      case True
      then have "tk = (if sz - wc < ?sp then sz - wc else ?sp)" by (simp add: tk_def)
      then show ?thesis by (simp only: unat_u32_min szwc sp k_def)
    next
      case b: False
      then show ?thesis using rs False szwc by (simp add: tk_def k_def word_le_nat_alt)
    qed
    then have tk: "unat tk = k" "tk = word_of_nat k" by auto
    have k: "pipe_used p + k \<le> 32768" "unat wc + k \<le> unat sz" using lt sz(2) by (auto simp: k_def)
    have wck: "unat (wc + tk) = unat wc + k" using k(2) tk(1) by (metis unat_add_bounded)
    have sec: "pipe_write_section ua block is_user waited require_space sz wc buf p =
        pipe_write_copy ua is_user wc buf ?q (p_write_ptr ?q) tk n1"
      using False sp by (simp only: pipe_write_section_def Let_def call_if_fields sz tk_def [symmetric]
        n1_def [symmetric] if_False word_le_nat_alt not_less de_Morgan_disj simp_thms if_True)
    have "pipe_ok ?q" "pipe_used ?q + unat tk \<le> 32768"
        "unat wc + unat tk \<le> length buf" "unat wc + unat tk < 2 ^ 32"
        "unat n1 = min (unat tk) (32768 - unat (p_write_ptr ?q mod PIPE_SIZE))"
      using ok k tk buf unat_u32_less [of sz] two_parts(2) [of tk ?wp, folded n1_def] by simp_all
    then show thesis
    proof (cases rule: write_copy_cases [where ua = ua and is_user = is_user])
      case c: (copied p')
      then show thesis using copied [of p'] False sec tk wck by simp
    next
      case c: (fault r p' c)
      then show thesis using False sec tk by (intro fault [of r p' c]) simp_all
    qed
  qed
qed

section \<open>Whole calls\<close>

text \<open>The pipe a task finds after sleeping through the waits \<open>es\<close>.\<close>

fun slept :: "pipe_sem \<Rightarrow> bool \<Rightarrow> (pipe \<Rightarrow> pipe) list \<Rightarrow> pipe \<Rightarrow> pipe" where
  "slept s waited [] p = p"
| "slept s waited (env # es) p = slept s True es (env (call_if waited (SemDrain s) p))"

definition keeps_ok :: "(pipe \<Rightarrow> pipe) \<Rightarrow> bool" where
  "keeps_ok env \<longleftrightarrow> (\<forall>p. pipe_ok p \<longrightarrow> pipe_ok (env p))"

lemma keeps_okD: "keeps_ok env \<Longrightarrow> pipe_ok p \<Longrightarrow> pipe_ok (env p)"
  by (simp add: keeps_ok_def)

text \<open>What a blocking read gives when the pipe it finds at the end is \<open>q\<close>.\<close>

definition read_outcome :: "u32 \<Rightarrow> u8 list \<Rightarrow> pipe \<Rightarrow> pipe_result \<Rightarrow> u8 list \<Rightarrow> pipe \<Rightarrow> bool" where
  "read_outcome sz buf q res buf' p' \<longleftrightarrow> pipe_ok p' \<and> pipe_frame q p' \<and>
     (if pipe_bytes q \<noteq> [] then
        (let k = min (unat sz) (pipe_used q) in
           res = Returned (int k) \<and> buf' = take k (pipe_bytes q) @ drop k buf \<and>
           pipe_bytes p' = drop k (pipe_bytes q))
      else pipe_bytes p' = [] \<and> buf' = buf \<and>
           res = (if p_writers q = 0 then Returned 0 else Waiting))"

lemma pipe_bytes_Nil: "pipe_bytes p = [] \<longleftrightarrow> pipe_used p = 0"
  by (metis length_0_conv length_pipe_bytes)

lemma read_pass:
  assumes ok: "pipe_ok p" and sz: "0 < sz" "unat sz \<le> length buf"
  obtains (ends) res buf' p' where
      "\<And>envs. pipe_read_loop ua True False sz envs waited 0 buf p = Some (res, buf', p')"
      "read_outcome sz buf p res buf' p'" "res \<noteq> Waiting"
  | (sleeps) "pipe_used p = 0" "p_writers p \<noteq> 0"
      "pipe_read_section ua True False waited sz 0 buf p = Some (Sleep, buf, call_if waited (SemDrain SemRead) p)"
  using ok sz
proof (cases rule: read_section_cases [where ua = ua and block = True and is_user = False and waited = waited])
  case (copied p')
  let ?k = "min (unat sz) (pipe_used p)"
  have k: "0 < ?k" "?k \<le> 32768" using copied(1) sz(1) ok by (auto simp: word_less_nat_alt pipe_ok_def)
  have w: "unat (word_of_nat ?k :: u32) = ?k" using copied(3) by simp
  then have "(word_of_nat ?k :: u32) > 0" "sint (word_of_nat ?k :: u32) = int ?k"
    using k sint_small [of "word_of_nat ?k"] by (simp_all only: word_less_nat_alt unat_0) simp
  then have "pipe_read_loop ua True False sz envs waited 0 buf p =
      Some (Returned (int ?k), take ?k (pipe_bytes p) @ drop ?k buf, p')" for envs
    using copied(2) by (subst pipe_read_loop.simps) simp
  moreover have "read_outcome sz buf p (Returned (int ?k)) (take ?k (pipe_bytes p) @ drop ?k buf) p'"
    using copied by (simp add: read_outcome_def pipe_bytes_Nil Let_def)
  ultimately show thesis using ends by blast
next
  case empty
  show thesis
  proof (cases "p_writers p = 0")
    case True
    then have "pipe_read_loop ua True False sz envs waited 0 buf p =
        Some (Returned 0, buf, call_if waited (SemDrain SemRead) p)" for envs
      using empty(2) by (subst pipe_read_loop.simps) simp
    then show thesis using ends True empty(1) ok by (simp add: read_outcome_def pipe_bytes_Nil)
  qed (use empty sleeps in simp)
qed simp

lemma pipe_read_loop_blocking:
  assumes sz: "0 < sz" "unat sz \<le> length buf" and "pipe_ok p" "list_all keeps_ok envs"
  shows "\<exists>es rest res buf' p'. envs = es @ rest \<and>
    pipe_read_loop ua True False sz envs waited 0 buf p = Some (res, buf', p') \<and>
    read_outcome sz buf (slept SemRead waited es p) res buf' p' \<and> (res = Waiting \<longrightarrow> rest = [])"
  using assms(3,4)
proof (induction envs arbitrary: p waited)
  case Nil
  from Nil(1) sz show ?case
  proof (cases rule: read_pass [where ua = ua and waited = waited])
    case sleeps
    then have "pipe_read_loop ua True False sz [] waited 0 buf p =
        Some (Waiting, buf, call_if waited (SemDrain SemRead) p)"
      by (subst pipe_read_loop.simps) simp
    then show ?thesis using sleeps Nil(1) by (simp add: read_outcome_def pipe_bytes_Nil)
  qed simp
next
  case (Cons env envs)
  let ?q = "env (call_if waited (SemDrain SemRead) p)"
  from Cons.prems(1) sz show ?case
  proof (cases rule: read_pass [where ua = ua and waited = waited])
    case (ends res buf' p')
    then show ?thesis by (intro exI [of _ "[]"] exI [of _ "env # envs"]) simp
  next
    case sleeps
    then have "pipe_read_loop ua True False sz (env # envs) waited 0 buf p =
        pipe_read_loop ua True False sz envs True 0 buf ?q"
      by (subst pipe_read_loop.simps) simp
    moreover have "pipe_ok ?q" "list_all keeps_ok envs" using Cons.prems by (simp_all add: keeps_okD)
    from Cons.IH [OF this, of True] obtain es rest res buf' p' where "envs = es @ rest"
      "pipe_read_loop ua True False sz envs True 0 buf ?q = Some (res, buf', p')"
      "read_outcome sz buf (slept SemRead True es ?q) res buf' p'" "res = Waiting \<longrightarrow> rest = []" by blast
    ultimately show ?thesis by (intro exI [of _ "env # es"] exI [of _ rest]) simp
  qed
qed


text \<open>What a blocking write of at most \<open>PIPE_SIZE\<close> bytes does to the pipe \<open>q\<close> it finds.\<close>

definition write_outcome :: "u32 \<Rightarrow> u8 list \<Rightarrow> pipe \<Rightarrow> pipe_result \<Rightarrow> pipe \<Rightarrow> bool" where
  "write_outcome sz buf q res p' \<longleftrightarrow> pipe_ok p' \<and> pipe_frame q p' \<and>
     (if p_readers q = 0 then res = Returned (-1) \<and> pipe_bytes p' = pipe_bytes q
      else if pipe_used q + unat sz \<le> unat PIPE_SIZE then
        res = Returned (int (unat sz)) \<and> pipe_bytes p' = pipe_bytes q @ take (unat sz) buf
      else res = Waiting \<and> pipe_bytes p' = pipe_bytes q)"

lemma write_pass:
  assumes ok: "pipe_ok p" and sz: "0 < sz" "unat sz \<le> length buf" "sz \<le> PIPE_SIZE"
  obtains (ends) res p' where
      "\<And>envs. pipe_write_loop ua True False sz sz envs waited 0 buf p = Some (res, p')"
      "write_outcome sz buf p res p'" "res \<noteq> Waiting"
  | (sleeps) "p_readers p \<noteq> 0" "\<not> pipe_used p + unat sz \<le> 32768"
      "pipe_write_section ua True False waited sz sz 0 buf p = Some (Sleep, call_if waited (SemDrain SemWrite) p)"
proof -
  have u: "pipe_used p \<le> 32768" "unat sz \<le> 32768" "0 < unat sz"
    using ok sz by (auto simp: pipe_ok_def word_nat)
  have "if True then sz > 0 else sz - 0 \<le> sz" using sz by simp
  from ok sz(1,2) this show thesis
  proof (cases rule: write_section_cases [where ua = ua and is_user = False and waited = waited])
    case (copied p')
    have k: "min (unat sz - unat 0) (32768 - pipe_used p) = unat sz" using copied(2) by simp
    have "pipe_write_loop ua True False sz sz envs waited 0 buf p = Some (Returned (int (unat sz)), p')" for envs
      using copied(3) sint_small [of sz] u(2) unfolding k by (subst pipe_write_loop.simps) simp
    moreover have "write_outcome sz buf p (Returned (int (unat sz))) p'"
      using copied u unfolding k by (simp add: write_outcome_def)
    ultimately show thesis using ends by blast
  next
    case full
    show thesis
    proof (cases "p_readers p = 0")
      case True
      then have "pipe_write_loop ua True False sz sz envs waited 0 buf p =
          Some (Returned (-1), call_if waited (SemDrain SemWrite) p)" for envs
        using full(2) by (subst pipe_write_loop.simps) simp
      then show thesis using ends True ok by (simp add: write_outcome_def)
    next
      case False
      then show thesis using full u by (intro sleeps) auto
    qed
  qed simp
qed

lemma pipe_write_loop_blocking:
  assumes sz: "0 < sz" "unat sz \<le> length buf" "sz \<le> PIPE_SIZE" and "pipe_ok p" "list_all keeps_ok envs"
  shows "\<exists>es rest res p'. envs = es @ rest \<and>
    pipe_write_loop ua True False sz sz envs waited 0 buf p = Some (res, p') \<and>
    write_outcome sz buf (slept SemWrite waited es p) res p' \<and> (res = Waiting \<longrightarrow> rest = [])"
  using assms(4,5)
proof (induction envs arbitrary: p waited)
  case Nil
  from Nil(1) sz show ?case
  proof (cases rule: write_pass [where ua = ua and waited = waited])
    case sleeps
    then have "pipe_write_loop ua True False sz sz [] waited 0 buf p =
        Some (Waiting, call_if waited (SemDrain SemWrite) p)"
      by (subst pipe_write_loop.simps) simp
    then show ?thesis using sleeps Nil(1) by (simp add: write_outcome_def)
  qed simp
next
  case (Cons env envs)
  let ?q = "env (call_if waited (SemDrain SemWrite) p)"
  from Cons.prems(1) sz show ?case
  proof (cases rule: write_pass [where ua = ua and waited = waited])
    case (ends res p')
    then show ?thesis by (intro exI [of _ "[]"] exI [of _ "env # envs"]) simp
  next
    case sleeps
    then have "pipe_write_loop ua True False sz sz (env # envs) waited 0 buf p =
        pipe_write_loop ua True False sz sz envs True 0 buf ?q"
      by (subst pipe_write_loop.simps) simp
    moreover have "pipe_ok ?q" "list_all keeps_ok envs" using Cons.prems by (simp_all add: keeps_okD)
    from Cons.IH [OF this, of True] obtain es rest res p' where "envs = es @ rest"
      "pipe_write_loop ua True False sz sz envs True 0 buf ?q = Some (res, p')"
      "write_outcome sz buf (slept SemWrite True es ?q) res p'" "res = Waiting \<longrightarrow> rest = []" by blast
    ultimately show ?thesis by (intro exI [of _ "env # es"] exI [of _ rest]) simp
  qed
qed

text \<open>
  A blocking write of any length against tasks that only read: every reader step keeps the
  pipe well formed and open and removes a prefix of its contents.
\<close>

definition consumer :: "(pipe \<Rightarrow> pipe) \<Rightarrow> bool" where
  "consumer env \<longleftrightarrow> (\<forall>p. pipe_ok p \<longrightarrow>
     pipe_ok (env p) \<and> pipe_frame p (env p) \<and> (\<exists>c. pipe_bytes (env p) = drop c (pipe_bytes p)))"

definition drains :: "(pipe \<Rightarrow> pipe) \<Rightarrow> bool" where
  "drains env \<longleftrightarrow> (\<forall>p. pipe_ok p \<longrightarrow> pipe_bytes (env p) = [])"

lemma consumerD:
  "consumer env \<Longrightarrow> pipe_ok p \<Longrightarrow>
     pipe_ok (env p) \<and> pipe_frame p (env p) \<and> (\<exists>c. pipe_bytes (env p) = drop c (pipe_bytes p))"
  by (simp add: consumer_def)

definition stream_outcome ::
    "u32 \<Rightarrow> u8 list \<Rightarrow> (pipe \<Rightarrow> pipe) list \<Rightarrow> u32 \<Rightarrow> pipe \<Rightarrow> pipe_result \<Rightarrow> pipe \<Rightarrow> bool" where
  "stream_outcome sz buf envs wc p res p' \<longleftrightarrow> pipe_ok p' \<and> pipe_frame p p' \<and>
     (\<exists>c n. unat wc + n \<le> unat sz \<and> pipe_bytes p' = drop c (pipe_bytes p @ take n (drop (unat wc) buf)) \<and>
        (if unat wc + n = unat sz then res = Returned (sint sz) else res = Waiting)) \<and>
     (list_all drains envs \<and> unat sz - unat wc \<le> (32768 - pipe_used p) + 32768 * length envs \<longrightarrow>
        res \<noteq> Waiting)"

lemma stream_copied:
  assumes "stream_outcome sz buf envs wc' p1 res p'" and "unat wc' = unat wc + k"
    and "pipe_frame p p1" and "pipe_bytes p1 = pipe_bytes p @ take k (drop (unat wc) buf)"
    and "k \<le> 32768 - pipe_used p"
  shows "stream_outcome sz buf envs wc p res p'"
proof -
  obtain c n where cn: "unat wc' + n \<le> unat sz"
      "pipe_bytes p' = drop c (pipe_bytes p1 @ take n (drop (unat wc') buf))"
      "if unat wc' + n = unat sz then res = Returned (sint sz) else res = Waiting"
    using assms(1) by (auto simp: stream_outcome_def)
  have "pipe_bytes p' = drop c (pipe_bytes p @ take (k + n) (drop (unat wc) buf))"
    by (simp add: cn(2) assms(2,4) take_add ac_simps)
  moreover have "unat wc + (k + n) = unat wc' + n" using assms(2) by simp
  moreover have "pipe_used p1 \<le> pipe_used p + k"
    using length_pipe_bytes [of p1] unfolding assms(4) by simp
  then have "32768 - pipe_used p1 \<ge> (32768 - pipe_used p) - k" by linarith
  then have "unat sz - unat wc' \<le> 32768 - pipe_used p1 + 32768 * length envs"
    if "unat sz - unat wc \<le> 32768 - pipe_used p + 32768 * length envs"
    using that assms(2,5) by linarith
  moreover have "pipe_ok p'" "pipe_frame p p'"
    using assms(1,3) pipe_frame_trans unfolding stream_outcome_def by blast+
  ultimately show ?thesis
    using assms(1) cn(1,3) unfolding stream_outcome_def by metis
qed

lemma stream_slept:
  assumes "stream_outcome sz buf envs wc q res p'" and "pipe_frame p q"
    and "pipe_bytes q = drop c0 (pipe_bytes p)" "drains env \<Longrightarrow> pipe_bytes q = []"
    and full: "pipe_used p = 32768"
  shows "stream_outcome sz buf (env # envs) wc p res p'"
proof -
  obtain c n where cn: "unat wc + n \<le> unat sz"
      "pipe_bytes p' = drop c (pipe_bytes q @ take n (drop (unat wc) buf))"
      "if unat wc + n = unat sz then res = Returned (sint sz) else res = Waiting"
    using assms(1) by (auto simp: stream_outcome_def)
  obtain c' where "pipe_bytes q @ take n (drop (unat wc) buf) = drop c' (pipe_bytes p @ take n (drop (unat wc) buf))"
    using drop_append_prefix [of c0 "pipe_bytes p" "take n (drop (unat wc) buf)"] assms(3) by metis
  then have "pipe_bytes p' = drop (c + c') (pipe_bytes p @ take n (drop (unat wc) buf))"
    by (simp only: cn(2) drop_drop)
  moreover have "pipe_ok p'" "pipe_frame p p'"
    using assms(1,2) pipe_frame_trans unfolding stream_outcome_def by blast+
  moreover have "res \<noteq> Waiting"
    if "list_all drains (env # envs)"
      "unat sz - unat wc \<le> 32768 - pipe_used p + 32768 * length (env # envs)"
  proof -
    have "pipe_used q = 0" using that(1) assms(4) by (simp add: pipe_bytes_Nil)
    then show ?thesis using assms(1) that full by (simp add: stream_outcome_def)
  qed
  ultimately show ?thesis using cn(1,3) unfolding stream_outcome_def by metis
qed

lemma pipe_write_loop_stream:
  assumes "pipe_ok p" "p_readers p \<noteq> 0" "wc < sz" "unat sz \<le> length buf" "list_all consumer envs"
  shows "\<exists>res p'. pipe_write_loop ua True False 1 sz envs waited wc buf p = Some (res, p') \<and>
           stream_outcome sz buf envs wc p res p'"
  using assms
proof (induction "length envs + (unat sz - unat wc)" arbitrary: envs waited wc p rule: less_induct)
  case less
  let ?k = "min (unat sz - unat wc) (32768 - pipe_used p)"
  have "if True then (1 :: u32) > 0 else sz - wc \<le> 1" by simp
  from less.prems(1,3,4) this show ?case
  proof (cases rule: write_section_cases [where ua = ua and is_user = False and waited = waited])
    case (copied p1)
    let ?wc = "wc + word_of_nat ?k"
    have k: "0 < ?k" using copied(2) less.prems(3) by (auto simp: word_less_nat_alt)
    show ?thesis
    proof (cases "?wc < sz")
      case True
      have "length envs + (unat sz - unat ?wc) < length envs + (unat sz - unat wc)"
        using k less.prems(3) unfolding copied(4) word_less_nat_alt by linarith
      from less.hyps [OF this copied(5) _ True less.prems(4,5), of False] copied(6) less.prems(2)
      obtain res p' where r: "pipe_write_loop ua True False 1 sz envs False ?wc buf p1 = Some (res, p')"
          "stream_outcome sz buf envs ?wc p1 res p'"
        by (auto simp: pipe_frame_def)
      have "pipe_write_loop ua True False 1 sz envs waited wc buf p = Some (res, p')"
        using copied(3) True r(1) by (subst pipe_write_loop.simps) simp
      moreover have "stream_outcome sz buf envs wc p res p'"
        by (rule stream_copied [OF r(2) copied(4,6,7)]) simp
      ultimately show ?thesis by blast
    next
      case False
      then have e: "?wc = sz" "unat wc + ?k = unat sz" using copied(4) less.prems(3)
        by (auto simp: word_nat word_eq_nat_iff)
      have "pipe_write_loop ua True False 1 sz envs waited wc buf p = Some (Returned (sint sz), p1)"
        using copied(3) False e(1) by (subst pipe_write_loop.simps) simp
      moreover have "stream_outcome sz buf envs wc p (Returned (sint sz)) p1"
        using copied e(2) unfolding stream_outcome_def by (intro conjI exI [of _ 0] exI [of _ ?k]) auto
      ultimately show ?thesis by blast
    qed
  next
    case full
    let ?q = "call_if waited (SemDrain SemWrite) p"
    have used: "pipe_used p = 32768" and sec: "pipe_write_section ua True False waited 1 sz wc buf p = Some (Sleep, ?q)"
      using full less.prems(1,2) by (auto simp: pipe_ok_def)
    show ?thesis
    proof (cases envs)
      case Nil
      have "pipe_write_loop ua True False 1 sz envs waited wc buf p = Some (Waiting, ?q)"
        using sec Nil by (subst pipe_write_loop.simps) simp
      moreover have "stream_outcome sz buf envs wc p Waiting ?q"
        using less.prems(1,3) used Nil unfolding stream_outcome_def
        by (auto intro!: exI [of _ 0] simp: word_less_nat_alt)
      ultimately show ?thesis by blast
    next
      case (Cons env es)
      have e: "pipe_ok (env ?q)" "pipe_frame ?q (env ?q)" "\<exists>c. pipe_bytes (env ?q) = drop c (pipe_bytes p)"
        using less.prems(1,5) Cons consumerD [of env ?q] by auto
      have "length es + (unat sz - unat wc) < length envs + (unat sz - unat wc)" using Cons by simp
      from less.hyps [OF this e(1) _ less.prems(3,4), of True] e(2) less.prems(2,5) Cons
      obtain res p' where r: "pipe_write_loop ua True False 1 sz es True wc buf (env ?q) = Some (res, p')"
          "stream_outcome sz buf es wc (env ?q) res p'"
        by (auto simp: pipe_frame_def)
      have "pipe_write_loop ua True False 1 sz envs waited wc buf p = Some (res, p')"
        using sec r(1) Cons by (subst pipe_write_loop.simps) simp
      moreover have "drains env \<Longrightarrow> pipe_bytes (env ?q) = []"
        using less.prems(1) unfolding drains_def by simp
      then have "stream_outcome sz buf envs wc p res p'"
        using e(2,3) stream_slept [OF r(2)] Cons used by auto
      ultimately show ?thesis by blast
    qed
  qed simp
qed

section \<open>Non-blocking calls\<close>

text \<open>
  What a non-blocking call does, exactly. A fault in the user buffer gives -1; the parts of the transfer that were complete have
  left the pipe or entered it nevertheless.
\<close>

abbreviation read_fault :: "uaccess \<Rightarrow> u32 \<Rightarrow> pipe \<Rightarrow> nat option" where
  "read_fault ua sz p \<equiv> user_fault ua 0 (unat (p_read_ptr p mod PIPE_SIZE)) (min (unat sz) (pipe_used p))"

abbreviation write_fault :: "uaccess \<Rightarrow> u32 \<Rightarrow> pipe \<Rightarrow> nat option" where
  "write_fault ua sz p \<equiv> user_fault ua 0 (unat (p_write_ptr p mod PIPE_SIZE)) (unat sz)"

definition read_nonblock_outcome :: "uaccess \<Rightarrow> u32 \<Rightarrow> u8 list \<Rightarrow> pipe \<Rightarrow> int \<Rightarrow> u8 list \<Rightarrow> pipe \<Rightarrow> bool" where
  "read_nonblock_outcome ua sz buf p r buf' p' \<longleftrightarrow> pipe_ok p' \<and> pipe_frame p p' \<and> length buf' = length buf \<and>
     (if pipe_bytes p = [] then
        r = (if p_writers p = 0 then -1 else 0) \<and> buf' = buf \<and> pipe_bytes p' = []
      else case read_fault ua sz p of
        None \<Rightarrow> let k = min (unat sz) (pipe_used p) in
          r = int k \<and> buf' = take k (pipe_bytes p) @ drop k buf \<and> pipe_bytes p' = drop k (pipe_bytes p)
      | Some c \<Rightarrow> r = -1 \<and> pipe_bytes p' = drop c (pipe_bytes p))"

lemma pipe_read_nonblock_ok:
  assumes ok: "pipe_ok p" and fl: "n_flags nd AND VFS_FLAG_PIPE_READ \<noteq> 0"
    and sz: "0 < sz" "unat sz \<le> length buf"
  shows "\<exists>r buf' p'. pipe_read_nonblock ua (Some nd) (Some p) sz (Some buf) =
      Some (Returned r, Some buf', Some p') \<and> read_nonblock_outcome ua sz buf p r buf' p'"
proof -
  have call: "pipe_read_nonblock ua (Some nd) (Some p) sz (Some buf) =
      do { (r, buf', p') \<leftarrow> pipe_read_loop ua False True sz [] False 0 buf p; Some (r, Some buf', Some p') }"
    using fl sz(1) by (auto simp: pipe_read_nonblock_def pipe_read_impl_def)
  from ok sz show ?thesis
  proof (cases rule: read_section_cases [where ua = ua and block = False and is_user = True and waited = False])
    case (copied p')
    let ?k = "min (unat sz) (pipe_used p)"
    have k: "0 < ?k" "?k \<le> 32768" using copied(1) sz(1) ok by (auto simp: word_less_nat_alt pipe_ok_def)
    have w: "unat (word_of_nat ?k :: u32) = ?k" using copied(3) by simp
    then have "(word_of_nat ?k :: u32) > 0" "sint (word_of_nat ?k :: u32) = int ?k"
      using k sint_small [of "word_of_nat ?k"] by (simp_all only: word_less_nat_alt unat_0) simp
    then have "pipe_read_loop ua False True sz [] False 0 buf p =
        Some (Returned (int ?k), take ?k (pipe_bytes p) @ drop ?k buf, p')"
      using copied(2) by (subst pipe_read_loop.simps) simp
    moreover have "read_nonblock_outcome ua sz buf p (int ?k) (take ?k (pipe_bytes p) @ drop ?k buf) p'"
      using copied sz(2) by (simp add: read_nonblock_outcome_def pipe_bytes_Nil Let_def min_def)
    ultimately show ?thesis using call by auto
  next
    case (fault r buf' p' c)
    then have "pipe_read_loop ua False True sz [] False 0 buf p = Some (Returned (-1), buf', p')"
      by (subst pipe_read_loop.simps) simp
    moreover have "read_nonblock_outcome ua sz buf p (-1) buf' p'"
      using fault by (auto simp: read_nonblock_outcome_def pipe_bytes_Nil Let_def)
    ultimately show ?thesis using call by auto
  next
    case empty
    then have "pipe_read_loop ua False True sz [] False 0 buf p =
        Some (Returned (if p_writers p = 0 then -1 else 0), buf, p)"
      by (subst pipe_read_loop.simps) (simp add: call_if_def)
    then show ?thesis using call empty ok by (auto simp: read_nonblock_outcome_def pipe_bytes_Nil)
  qed
qed

definition write_nonblock_outcome :: "uaccess \<Rightarrow> u32 \<Rightarrow> u8 list \<Rightarrow> pipe \<Rightarrow> int \<Rightarrow> pipe \<Rightarrow> bool" where
  "write_nonblock_outcome ua sz buf p r p' \<longleftrightarrow> pipe_ok p' \<and> pipe_frame p p' \<and>
     (if sz > PIPE_SIZE then r = 0 \<and> p' = p
      else if p_readers p = 0 then r = -1 \<and> pipe_bytes p' = pipe_bytes p
      else if pipe_used p + unat sz > unat PIPE_SIZE then r = 0 \<and> pipe_bytes p' = pipe_bytes p
      else case write_fault ua sz p of
        None \<Rightarrow> r = int (unat sz) \<and> pipe_bytes p' = pipe_bytes p @ take (unat sz) buf
      | Some c \<Rightarrow> r = -1 \<and> pipe_bytes p' = pipe_bytes p @ take c buf)"

lemma pipe_write_nonblock_ok:
  assumes ok: "pipe_ok p" and fl: "n_flags nd AND VFS_FLAG_PIPE_WRITE \<noteq> 0"
    and sz: "0 < sz" "unat sz \<le> length buf"
  shows "\<exists>r p'. pipe_write_nonblock ua (Some nd) (Some p) sz (Some buf) = Some (Returned r, Some p') \<and>
      write_nonblock_outcome ua sz buf p r p'"
proof (cases "sz > PIPE_SIZE")
  case True
  then show ?thesis
    using ok fl sz(1)
    by (auto simp: pipe_write_nonblock_def pipe_write_impl_def write_nonblock_outcome_def pipe_ok_def)
next
  case False
  have size: "p_size p = PIPE_SIZE" "pipe_used p \<le> 32768" using ok by (simp_all add: pipe_ok_def)
  have call: "pipe_write_nonblock ua (Some nd) (Some p) sz (Some buf) =
      do { (r, p') \<leftarrow> pipe_write_loop ua False True sz sz [] False 0 buf p; Some (r, Some p') }"
    using fl sz(1) False size by (auto simp: pipe_write_nonblock_def pipe_write_impl_def)
  have u: "unat sz \<le> 32768" using False by (simp add: word_nat)
  have "if False then sz > 0 else sz - 0 \<le> sz" by simp
  from ok sz this show ?thesis
  proof (cases rule: write_section_cases [where ua = ua and is_user = True and waited = False])
    case (copied p')
    have k: "min (unat sz - unat 0) (32768 - pipe_used p) = unat sz" using copied(2) by simp
    have "pipe_write_loop ua False True sz sz [] False 0 buf p = Some (Returned (int (unat sz)), p')"
      using copied(3) sint_small [of sz] u unfolding k by (subst pipe_write_loop.simps) simp
    moreover have "write_nonblock_outcome ua sz buf p (int (unat sz)) p'"
      using copied False size u unfolding k by (auto simp: write_nonblock_outcome_def)
    ultimately show ?thesis using call by auto
  next
    case (fault r p' c)
    then have "pipe_write_loop ua False True sz sz [] False 0 buf p = Some (Returned (-1), p')"
      by (subst pipe_write_loop.simps) simp
    moreover have "write_nonblock_outcome ua sz buf p (-1) p'"
      using fault False size u by (auto simp: write_nonblock_outcome_def)
    ultimately show ?thesis using call by auto
  next
    case full
    then have "pipe_write_loop ua False True sz sz [] False 0 buf p =
        Some (Returned (if p_readers p = 0 then -1 else 0), p)"
      by (subst pipe_write_loop.simps) (simp add: call_if_def)
    then show ?thesis using call full ok False u by (auto simp: write_nonblock_outcome_def)
  qed
qed

text \<open>
  The non-blocking calls on the two nodes of a pipe, in the form the channel interface expects: the
  result of a write is the number it returns, a call that fails transfers nothing as far as its caller
  can tell.
\<close>

definition pipe_put :: "uaccess \<Rightarrow> pipe \<Rightarrow> u8 list \<Rightarrow> (nat \<times> pipe) option" where
  "pipe_put ua p d = do {
     (r, pd) \<leftarrow> pipe_write_nonblock ua (Some \<lparr>n_flags = VFS_FLAG_PIPE_WRITE\<rparr>) (Some p)
                  (word_of_nat (length d)) (Some d);
     (case (r, pd) of (Returned n, Some p') \<Rightarrow> Some (nat n, p') | _ \<Rightarrow> None)
   }"

definition pipe_get :: "uaccess \<Rightarrow> pipe \<Rightarrow> nat \<Rightarrow> (u8 list \<times> pipe) option" where
  "pipe_get ua p k = do {
     (r, b, pd) \<leftarrow> pipe_read_nonblock ua (Some \<lparr>n_flags = VFS_FLAG_PIPE_READ\<rparr>) (Some p)
                     (word_of_nat k) (Some (replicate k 0));
     (case (r, b, pd) of (Returned n, Some out, Some p') \<Rightarrow> Some (take (nat n) out, p') | _ \<Rightarrow> None)
   }"

lemma pipe_put_ok:
  assumes "pipe_ok p" "ua_total ua"
  shows "\<exists>n p'. pipe_put ua p d = Some (n, p') \<and> pipe_ok p' \<and> pipe_bytes p' = pipe_bytes p @ take n d"
proof (cases "(word_of_nat (length d) :: u32) = 0")
  case True
  then show ?thesis using assms by (simp add: pipe_put_def pipe_write_nonblock_def pipe_write_impl_def)
next
  case False
  then have "0 < (word_of_nat (length d) :: u32)" by (simp add: word_gt_0)
  from pipe_write_nonblock_ok [OF assms(1) _ this unat_word_of_nat_le, of "\<lparr>n_flags = VFS_FLAG_PIPE_WRITE\<rparr>" ua]
  obtain r p' where "pipe_write_nonblock ua (Some \<lparr>n_flags = VFS_FLAG_PIPE_WRITE\<rparr>) (Some p)
        (word_of_nat (length d)) (Some d) = Some (Returned r, Some p')"
      "write_nonblock_outcome ua (word_of_nat (length d)) d p r p'"
    by auto
  then show ?thesis using assms(2) by (auto simp: pipe_put_def write_nonblock_outcome_def user_fault_total split: if_splits)
qed

lemma pipe_get_ok:
  assumes "pipe_ok p" "ua_total ua"
  shows "\<exists>out p'. pipe_get ua p k = Some (out, p') \<and> pipe_ok p' \<and> pipe_bytes p = out @ pipe_bytes p'"
proof (cases "(word_of_nat k :: u32) = 0")
  case True
  then show ?thesis using assms by (simp add: pipe_get_def pipe_read_nonblock_def pipe_read_impl_def)
next
  case False
  then have "0 < (word_of_nat k :: u32)" by (simp add: word_gt_0)
  moreover have "unat (word_of_nat k :: u32) \<le> length (replicate k (0 :: u8))"
    by (simp add: unat_word_of_nat_le)
  moreover have "n_flags \<lparr>n_flags = VFS_FLAG_PIPE_READ\<rparr> AND VFS_FLAG_PIPE_READ \<noteq> 0" by simp
  ultimately obtain r b p' where
      "pipe_read_nonblock ua (Some \<lparr>n_flags = VFS_FLAG_PIPE_READ\<rparr>) (Some p)
        (word_of_nat k) (Some (replicate k 0)) = Some (Returned r, Some b, Some p')"
      "read_nonblock_outcome ua (word_of_nat k) (replicate k 0) p r b p'"
    using pipe_read_nonblock_ok [OF assms(1)] by blast
  then show ?thesis
    using assms(2) by (auto simp: pipe_get_def read_nonblock_outcome_def user_fault_total Let_def split: if_splits)
qed

lemma pipe_channel:
  assumes "ua_total ua"
  shows "byte_channel pipe_ok pipe_bytes (\<lambda>_. unat PIPE_SIZE) (pipe_put ua) (pipe_get ua)"
proof
  show "length (pipe_bytes s) \<le> unat PIPE_SIZE" if "pipe_ok s" for s
    using that by (simp add: pipe_ok_def)
qed (use pipe_put_ok pipe_get_ok assms in simp_all)

interpretation pq: byte_channel pipe_ok pipe_bytes "\<lambda>_. unat PIPE_SIZE" "pipe_put (\<lambda>_ n. n)" "pipe_get (\<lambda>_ n. n)"
  by (rule pipe_channel) simp

section \<open>One reader and one writer at the same time\<close>

text \<open>
  \<open>read_lock\<close> admits one reader and \<open>write_lock\<close> one writer; nothing keeps the two apart.
  A section is refined into its accesses to the shared pipe: the reader loads \<open>write_ptr\<close>, copies byte
  after byte, and stores \<open>read_ptr\<close>; the writer loads \<open>read_ptr\<close>, copies byte after byte, and
  stores \<open>write_ptr\<close>. The accesses of the two interleave freely. \<open>sp_sent\<close> and \<open>sp_rcvd\<close> record
  the bytes published and taken.
\<close>

datatype rd_phase = RIdle | RCopy u32 "u8 list"
datatype wr_phase = WIdle | WCopy "u8 list" nat

record spsc =
  sp_pipe :: pipe
  sp_rd :: rd_phase
  sp_wr :: wr_phase
  sp_sent :: "u8 list"
  sp_rcvd :: "u8 list"

inductive spsc_step :: "spsc \<Rightarrow> spsc \<Rightarrow> bool" where
  rd_load: "sp_rd s = RIdle \<Longrightarrow> available = p_write_ptr (sp_pipe s) - p_read_ptr (sp_pipe s) \<Longrightarrow>
    available > 0 \<Longrightarrow> want > 0 \<Longrightarrow> tk = (if want < available then want else available) \<Longrightarrow>
    spsc_step s (s\<lparr>sp_rd := RCopy tk []\<rparr>)"
| rd_byte: "sp_rd s = RCopy tk out \<Longrightarrow> length out < unat tk \<Longrightarrow> p = sp_pipe s \<Longrightarrow>
    get_at (p_buffer p) ((unat (p_read_ptr p mod p_size p) + length out) mod unat (p_size p)) = Some b \<Longrightarrow>
    spsc_step s (s\<lparr>sp_rd := RCopy tk (out @ [b])\<rparr>)"
| rd_store: "sp_rd s = RCopy tk out \<Longrightarrow> length out = unat tk \<Longrightarrow> p = sp_pipe s \<Longrightarrow>
    spsc_step s (s\<lparr>sp_pipe := p\<lparr>p_read_ptr := p_read_ptr p + tk\<rparr>, sp_rd := RIdle,
                   sp_rcvd := sp_rcvd s @ out\<rparr>)"
| wr_load: "sp_wr s = WIdle \<Longrightarrow> p = sp_pipe s \<Longrightarrow>
    space = p_size p - (p_write_ptr p - p_read_ptr p) \<Longrightarrow> data \<noteq> [] \<Longrightarrow> length data \<le> unat space \<Longrightarrow>
    spsc_step s (s\<lparr>sp_wr := WCopy data 0\<rparr>)"
| wr_byte: "sp_wr s = WCopy data i \<Longrightarrow> i < length data \<Longrightarrow> p = sp_pipe s \<Longrightarrow>
    set_at (p_buffer p) ((unat (p_write_ptr p mod p_size p) + i) mod unat (p_size p)) (data ! i) = Some b \<Longrightarrow>
    spsc_step s (s\<lparr>sp_pipe := p\<lparr>p_buffer := b\<rparr>, sp_wr := WCopy data (Suc i)\<rparr>)"
| wr_store: "sp_wr s = WCopy data (length data) \<Longrightarrow> p = sp_pipe s \<Longrightarrow>
    spsc_step s (s\<lparr>sp_pipe := p\<lparr>p_write_ptr := p_write_ptr p + word_of_nat (length data)\<rparr>,
                   sp_wr := WIdle, sp_sent := sp_sent s @ data\<rparr>)"

definition spsc_init :: "pipe \<Rightarrow> spsc" where
  "spsc_init p = \<lparr>sp_pipe = p, sp_rd = RIdle, sp_wr = WIdle, sp_sent = pipe_bytes p, sp_rcvd = []\<rparr>"

definition rd_ok :: "pipe \<Rightarrow> rd_phase \<Rightarrow> bool" where
  "rd_ok p r = (case r of RIdle \<Rightarrow> True
     | RCopy tk out \<Rightarrow> unat tk \<le> pipe_used p \<and> length out \<le> unat tk \<and> out = take (length out) (pipe_bytes p))"

definition wr_ok :: "pipe \<Rightarrow> wr_phase \<Rightarrow> bool" where
  "wr_ok p w = (case w of WIdle \<Rightarrow> True
     | WCopy data i \<Rightarrow> pipe_used p + length data \<le> 32768 \<and> i \<le> length data \<and>
         (\<forall>j < i. p_buffer p ! ((unat (p_read_ptr p) + pipe_used p + j) mod 32768) = data ! j))"

definition spsc_inv :: "spsc \<Rightarrow> bool" where
  "spsc_inv s \<longleftrightarrow> pipe_ok (sp_pipe s) \<and> sp_sent s = sp_rcvd s @ pipe_bytes (sp_pipe s) \<and>
     rd_ok (sp_pipe s) (sp_rd s) \<and> wr_ok (sp_pipe s) (sp_wr s)"

lemma rd_byte_value:
  assumes "pipe_ok p" "i < pipe_used p"
  shows "get_at (p_buffer p) ((unat (p_read_ptr p mod p_size p) + i) mod unat (p_size p)) = Some (pipe_bytes p ! i)"
  using assms mod_add_left_eq [of "unat (p_read_ptr p)" 32768 i]
  by (simp add: pipe_ok_def pipe_bytes_def unat_mod)

lemma wr_byte_index:
  assumes "pipe_ok p"
  shows "(unat (p_write_ptr p mod p_size p) + i) mod unat (p_size p) =
     (unat (p_read_ptr p) + pipe_used p + i) mod 32768"
  using assms write_index [of p] mod_add_left_eq [of "unat (p_read_ptr p) + pipe_used p" 32768 i]
  by (simp add: pipe_ok_def)

lemma wr_byte_effect:
  assumes ok: "pipe_ok p" and w: "wr_ok p (WCopy data i)" and i: "i < length data"
    and b: "set_at (p_buffer p) ((unat (p_write_ptr p mod p_size p) + i) mod unat (p_size p)) (data ! i) = Some b"
  defines "p' \<equiv> p\<lparr>p_buffer := b\<rparr>"
  shows "pipe_ok p'" "pipe_bytes p' = pipe_bytes p" "wr_ok p' (WCopy data (Suc i))"
proof -
  have l: "length (p_buffer p) = 32768" using ok by (simp add: pipe_ok_def)
  have u: "pipe_used p' = pipe_used p" by (simp add: p'_def pipe_used_def)
  let ?x = "(unat (p_read_ptr p) + (pipe_used p + i)) mod 32768"
  have b': "b = (p_buffer p)[?x := data ! i]"
    using b unfolding wr_byte_index [OF ok] by (simp add: set_at_eq_Some ac_simps)
  show "pipe_ok p'" using ok by (simp add: p'_def pipe_ok_def b' pipe_used_def)
  have fit: "pipe_used p + i < 32768" using w i by (simp add: wr_ok_def)
  then show "pipe_bytes p' = pipe_bytes p"
    using ring_bytes_update_free [of "pipe_used p" "pipe_used p + i" "p_buffer p" "unat (p_read_ptr p)" "data ! i"] l
    by (simp add: pipe_bytes_def u b') (simp add: p'_def b')
  have "b ! ((unat (p_read_ptr p) + pipe_used p + j) mod 32768) = data ! j" if "j < Suc i" for j
    using w i that fit l ring_index_inj [of "unat (p_read_ptr p)" "pipe_used p + i" 32768 "pipe_used p + j"]
    by (cases "j = i") (auto simp: wr_ok_def b' nth_list_update ac_simps)
  then show "wr_ok p' (WCopy data (Suc i))"
    using w i u by (simp add: wr_ok_def p'_def)
qed

lemma wr_store_effect:
  assumes ok: "pipe_ok p" and w: "wr_ok p (WCopy data (length data))"
  defines "p' \<equiv> p\<lparr>p_write_ptr := p_write_ptr p + word_of_nat (length data)\<rparr>"
  shows "pipe_ok p'" "pipe_bytes p' = pipe_bytes p @ data" "rd_ok p r \<Longrightarrow> rd_ok p' r"
proof -
  have l: "length (p_buffer p) = 32768" "length data \<le> 32768" using ok w by (auto simp: pipe_ok_def wr_ok_def)
  have n: "unat (word_of_nat (length data) :: u32) = length data"
    using l(2) by (simp add: unat_of_nat)
  have d: "p_write_ptr p + x - p_read_ptr p = (p_write_ptr p - p_read_ptr p) + x" for x by simp
  have u: "pipe_used p' = pipe_used p + length data"
    using w n unfolding pipe_used_def p'_def wr_ok_def by (simp add: d unat_add_no_overflow)
  show "pipe_ok p'" using ok w u by (simp add: pipe_ok_def wr_ok_def) (simp add: p'_def)
  show bs: "pipe_bytes p' = pipe_bytes p @ data"
    using ring_bytes_extend [of data "p_buffer p" "unat (p_read_ptr p)" "pipe_used p"] w l
    by (simp add: pipe_bytes_def u wr_ok_def) (simp add: p'_def)
  show "rd_ok p' r" if "rd_ok p r"
    using that u by (auto simp: rd_ok_def bs split: rd_phase.splits)
qed

lemma rd_store_effect:
  assumes ok: "pipe_ok p" and r: "unat tk \<le> pipe_used p"
  shows "wr_ok p w \<Longrightarrow> wr_ok (p\<lparr>p_read_ptr := p_read_ptr p + tk\<rparr>) w"
proof -
  have "(unat (p_read_ptr p + tk) + (pipe_used p - unat tk) + j) mod 32768 = (unat (p_read_ptr p) + pipe_used p + j) mod 32768" for j
    using ptr_index [of "p_read_ptr p" tk] r
      mod_add_left_eq [of "unat (p_read_ptr p + tk)" 32768 "(pipe_used p - unat tk) + j"]
      mod_add_left_eq [of "unat (p_read_ptr p) + unat tk" 32768 "(pipe_used p - unat tk) + j"]
    by (simp add: add.assoc)
  then show "wr_ok p w \<Longrightarrow> wr_ok (p\<lparr>p_read_ptr := p_read_ptr p + tk\<rparr>) w"
    using pipe_consume [OF ok r] by (auto simp: wr_ok_def split: wr_phase.splits)
qed

lemma spsc_inv_step: "spsc_step s s' \<Longrightarrow> spsc_inv s \<Longrightarrow> spsc_inv s'"
proof (induction rule: spsc_step.induct)
  case (rd_load s available want tk)
  have "unat tk \<le> pipe_used (sp_pipe s)"
    unfolding rd_load.hyps(5) rd_load.hyps(2) pipe_used_def by (simp only: unat_u32_min)
  then show ?case using rd_load.prems by (simp add: spsc_inv_def rd_ok_def)
next
  case (rd_byte s tk out p b)
  then have *: "pipe_ok p" "unat tk \<le> pipe_used p" "length out < pipe_used p" "out = take (length out) (pipe_bytes p)"
    by (auto simp: spsc_inv_def rd_ok_def)
  have "b = pipe_bytes p ! length out" using rd_byte_value [OF *(1,3)] rd_byte.hyps(4) by simp
  then have "out @ [b] = take (length (out @ [b])) (pipe_bytes p)"
    using *(3,4) by (simp add: take_Suc_conv_app_nth)
  then show ?case using rd_byte * by (simp add: spsc_inv_def rd_ok_def)
next
  case (rd_store s tk out p)
  then have *: "pipe_ok p" "unat tk \<le> pipe_used p" "out = take (unat tk) (pipe_bytes p)"
    by (auto simp: spsc_inv_def rd_ok_def)
  then show ?case
    using rd_store pipe_consume [OF *(1,2)] rd_store_effect [OF *(1,2), of "sp_wr s"]
    by (simp add: spsc_inv_def rd_ok_def)
next
  case (wr_load s p space data)
  then have ok: "pipe_ok p" by (simp add: spsc_inv_def)
  then have "unat space = 32768 - pipe_used p" 
    unfolding wr_load.hyps(3) by (simp add: pipe_ok_def pipe_used_def unat_sub_no_underflow)
  then show ?case using wr_load ok by (auto simp: spsc_inv_def wr_ok_def pipe_ok_def)
next
  case (wr_byte s data i p b)
  then have *: "pipe_ok p" "wr_ok p (WCopy data i)" by (auto simp: spsc_inv_def)
  note e = wr_byte_effect [OF * wr_byte.hyps(2,4)]
  have "rd_ok (p\<lparr>p_buffer := b\<rparr>) (sp_rd s)"
    using wr_byte e(2) by (auto simp: spsc_inv_def rd_ok_def pipe_used_def split: rd_phase.splits)
  then show ?case using wr_byte e by (simp add: spsc_inv_def)
next
  case (wr_store s data p)
  then have *: "pipe_ok p" "wr_ok p (WCopy data (length data))" by (auto simp: spsc_inv_def)
  show ?case using wr_store wr_store_effect [OF *] by (simp add: spsc_inv_def wr_ok_def)
qed

lemma spsc_inv_reachable:
  assumes "spsc_step\<^sup>*\<^sup>* (spsc_init p) s" "pipe_ok p"
  shows "spsc_inv s"
  using assms(1)
proof (induction rule: rtranclp_induct)
  case base
  then show ?case using assms(2) by (simp add: spsc_inv_def spsc_init_def rd_ok_def wr_ok_def)
qed (rule spsc_inv_step)

section \<open>Properties\<close>

text \<open>The pipe \<open>vfs_create_pipe\<close> makes.\<close>

definition fresh_pipe :: "u8 list \<Rightarrow> pipe" where
  "fresh_pipe raw = \<lparr>p_read_ptr = 0, p_readers = 1, p_write_ptr = 0, p_writers = 1,
     p_buffer = raw, p_size = PIPE_SIZE, p_refs = 2, p_calls = []\<rparr>"

lemma fresh_pipe_ok [simp]: "length raw = 32768 \<Longrightarrow> pipe_ok (fresh_pipe raw)"
  by (simp add: fresh_pipe_def pipe_ok_def pipe_used_def)

lemma fresh_pipe_bytes [simp]: "pipe_bytes (fresh_pipe raw) = []"
  by (simp add: fresh_pipe_def pipe_bytes_def pipe_used_def)

text \<open>
  C3: As long as the user buffers are accessible, any sequence of non-blocking reads and writes on a
  well-formed pipe runs without an access outside the ring, and the bytes accepted come out exactly
  once and in order: what was stored followed by what was accepted equals what was delivered
  followed by what is still stored. This includes the wrap-around of the 32-bit counters.
\<close>

theorem pipe_fifo:
  assumes "pipe_ok p" "ua_total ua"
  shows "\<exists>acc del p'. chan_run (pipe_put ua) (pipe_get ua) p ops = Some (acc, del, p') \<and> pipe_ok p' \<and>
     pipe_bytes p @ acc = del @ pipe_bytes p' \<and> length (pipe_bytes p') \<le> unat PIPE_SIZE"
  using byte_channel.run_fifo [OF pipe_channel [OF assms(2)] assms(1), of ops] pq.bounded by blast

theorem pipe_fifo_witness:
  "pipe_ok (fresh_pipe (replicate 32768 0)) \<and> ua_total (\<lambda>_ n. n) \<and>
   (\<exists>acc del p'. chan_run (pipe_put (\<lambda>_ n. n)) (pipe_get (\<lambda>_ n. n)) (fresh_pipe (replicate 32768 0))
        [Put [1, 2, 3], Get 2, Put [4], Get 5] = Some (acc, del, p') \<and> acc = del @ pipe_bytes p')"
  using pipe_fifo [of "fresh_pipe (replicate 32768 0)" "\<lambda>_ n. n" "[Put [1, 2, 3], Get 2, Put [4], Get 5]"] by auto

text \<open>A copy in progress always has a next step: no access of it leaves the ring.\<close>

lemma spsc_progress:
  assumes inv: "spsc_inv s"
  shows "sp_rd s \<noteq> RIdle \<Longrightarrow> \<exists>s'. spsc_step s s' \<and> sp_wr s' = sp_wr s \<and> sp_rd s' \<noteq> sp_rd s"
    and "sp_wr s \<noteq> WIdle \<Longrightarrow> \<exists>s'. spsc_step s s' \<and> sp_rd s' = sp_rd s \<and> sp_wr s' \<noteq> sp_wr s"
proof -
  have ok: "pipe_ok (sp_pipe s)" using inv by (simp add: spsc_inv_def)
  show "\<exists>s'. spsc_step s s' \<and> sp_wr s' = sp_wr s \<and> sp_rd s' \<noteq> sp_rd s" if busy: "sp_rd s \<noteq> RIdle"
  proof -
    obtain tk out where r: "sp_rd s = RCopy tk out" using busy by (cases "sp_rd s") auto
    then have l: "unat tk \<le> pipe_used (sp_pipe s)" "length out \<le> unat tk"
      using inv by (auto simp: spsc_inv_def rd_ok_def)
    show ?thesis
    proof (cases "length out < unat tk")
      case True
      then have u: "length out < pipe_used (sp_pipe s)" using l by simp
      show ?thesis
        by (rule exI, rule conjI, rule rd_byte [OF r True refl rd_byte_value [OF ok u]]) (simp add: r)
    next
      case False
      then have "length out = unat tk" using l by simp
      then show ?thesis by - (rule exI, rule conjI, rule rd_store [OF r _ refl], simp_all add: r)
    qed
  qed
  show "\<exists>s'. spsc_step s s' \<and> sp_rd s' = sp_rd s \<and> sp_wr s' \<noteq> sp_wr s" if busy: "sp_wr s \<noteq> WIdle"
  proof -
    obtain data i where w: "sp_wr s = WCopy data i" using busy by (cases "sp_wr s") auto
    then have l: "i \<le> length data" using inv by (auto simp: spsc_inv_def wr_ok_def)
    show ?thesis
    proof (cases "i < length data")
      case True
      have "(unat (p_write_ptr (sp_pipe s) mod p_size (sp_pipe s)) + i) mod unat (p_size (sp_pipe s)) <
          length (p_buffer (sp_pipe s))" using ok by (simp add: pipe_ok_def)
      then show ?thesis
        by - (rule exI, rule conjI, rule wr_byte [OF w True refl set_at_Some], simp_all add: w)
    next
      case False
      then have w': "sp_wr s = WCopy data (length data)" using w l by simp
      show ?thesis by (rule exI, rule conjI, rule wr_store [OF w' refl]) (simp add: w)
    qed
  qed
qed

text \<open>
  C4: A reader and a writer that run their critical sections at the same time, with all
  interleavings of their loads, byte copies and stores, never lose, duplicate or reorder a
  byte: in every reachable state the bytes published are the bytes received followed by the
  contents of the ring, the ring never overflows, a copy in progress holds
  the right bytes, and it can always make its next access.
\<close>

theorem pipe_spsc_stream:
  assumes "spsc_step\<^sup>*\<^sup>* (spsc_init p) s" "pipe_ok p"
  shows "sp_sent s = sp_rcvd s @ pipe_bytes (sp_pipe s) \<and>
    length (pipe_bytes (sp_pipe s)) \<le> unat PIPE_SIZE \<and>
    (\<forall>tk out. sp_rd s = RCopy tk out \<longrightarrow> out = take (length out) (pipe_bytes (sp_pipe s))) \<and>
    (sp_rd s \<noteq> RIdle \<longrightarrow> (\<exists>s'. spsc_step s s' \<and> sp_wr s' = sp_wr s \<and> sp_rd s' \<noteq> sp_rd s)) \<and>
    (sp_wr s \<noteq> WIdle \<longrightarrow> (\<exists>s'. spsc_step s s' \<and> sp_rd s' = sp_rd s \<and> sp_wr s' \<noteq> sp_wr s))"
proof -
  have inv: "spsc_inv s" by (rule spsc_inv_reachable [OF assms])
  then have "sp_sent s = sp_rcvd s @ pipe_bytes (sp_pipe s)" "pipe_ok (sp_pipe s)"
      "\<forall>tk out. sp_rd s = RCopy tk out \<longrightarrow> out = take (length out) (pipe_bytes (sp_pipe s))"
    by (auto simp: spsc_inv_def rd_ok_def)
  then show ?thesis using spsc_progress [OF inv] pq.bounded by blast
qed

lemma spsc_demo_trace:
  defines "s0 \<equiv> spsc_init (fresh_pipe (replicate 32768 0))"
  shows "spsc_step\<^sup>*\<^sup>* s0 (s0\<lparr>sp_wr := WCopy [7] 0\<rparr>)"
proof -
  have "spsc_step s0 (s0\<lparr>sp_wr := WCopy [7] 0\<rparr>)"
    by (rule wr_load [OF _ refl refl]) (simp_all add: s0_def spsc_init_def fresh_pipe_def)
  then show ?thesis by blast
qed

theorem pipe_spsc_stream_witness:
  "\<exists>s'. spsc_step ((spsc_init (fresh_pipe (replicate 32768 0)))\<lparr>sp_wr := WCopy [7] 0\<rparr>) s' \<and> sp_rd s' = RIdle"
  using pipe_spsc_stream [OF spsc_demo_trace] by (auto simp: spsc_init_def)

text \<open>
  C5: A blocking write of at most \<open>PIPE_SIZE\<close> bytes is atomic whatever the other tasks do
  while it sleeps: when it returns, all of its bytes were appended in one piece to the pipe
  it found, or the last reader was gone, it wrote nothing and returned -1; it stays
  asleep only when every wake-up found too little space.
\<close>

theorem pipe_write_atomic:
  assumes "pipe_ok p" "0 < sz" "unat sz \<le> length buf" "sz \<le> PIPE_SIZE" "list_all keeps_ok envs"
  shows "\<exists>es rest res p'. envs = es @ rest \<and>
    pipe_write envs (Some nd) (Some p) sz (Some buf) = Some (res, Some p') \<and>
    write_outcome sz buf (slept SemWrite False es p) res p' \<and> (res = Waiting \<longrightarrow> rest = [])"
proof -
  have "p_size p = PIPE_SIZE" "sz \<noteq> 0" using assms(1,2) by (auto simp: pipe_ok_def)
  then have "pipe_write envs (Some nd) (Some p) sz (Some buf) = do {
      (r, p') \<leftarrow> pipe_write_loop (\<lambda>_ n. n) True False sz sz envs False 0 buf p; Some (r, Some p') }"
    using assms(4) by (simp add: pipe_write_def pipe_write_impl_def)
  moreover obtain es rest res p' where r: "envs = es @ rest" "res = Waiting \<longrightarrow> rest = []"
      "pipe_write_loop (\<lambda>_ n. n) True False sz sz envs False 0 buf p = Some (res, p')"
      "write_outcome sz buf (slept SemWrite False es p) res p'"
    using pipe_write_loop_blocking [OF assms(2-4,1,5), of "\<lambda>_ n. n" False] by blast
  ultimately have "pipe_write envs (Some nd) (Some p) sz (Some buf) = Some (res, Some p')" by simp
  then show ?thesis using r by blast
qed

theorem pipe_write_atomic_witness:
  "\<exists>es rest res p'. [id, id] = es @ rest \<and>
    pipe_write [id, id] (Some \<lparr>n_flags = VFS_FLAG_PIPE_WRITE\<rparr>) (Some (fresh_pipe (replicate 32768 0))) 2 (Some [5, 6]) =
      Some (res, Some p') \<and>
    write_outcome 2 [5, 6] (slept SemWrite False es (fresh_pipe (replicate 32768 0))) res p' \<and>
    (res = Waiting \<longrightarrow> rest = [])"
  by (rule pipe_write_atomic) (simp_all add: keeps_ok_def)

text \<open>
  C6: A blocking write longer than the pipe, against tasks that only read, publishes its bytes
  in order and without loss: the contents at the end are a suffix of the old contents followed
  by the bytes written so far, and the call returns exactly when all of them were written. It
  does return when the readers empty the pipe at each wake-up and are woken often enough.
\<close>

theorem pipe_write_stream:
  assumes "pipe_ok p" "p_readers p \<noteq> 0" "PIPE_SIZE < sz" "unat sz \<le> length buf" "list_all consumer envs"
  shows "\<exists>res p'. pipe_write envs (Some nd) (Some p) sz (Some buf) = Some (res, Some p') \<and>
    stream_outcome sz buf envs 0 p res p'"
proof -
  have sz: "0 < sz" using assms(3) by (simp add: word_nat)
  then have "sz \<noteq> 0" "p_size p = PIPE_SIZE" using assms(1) by (auto simp: pipe_ok_def)
  then have "pipe_write envs (Some nd) (Some p) sz (Some buf) = do {
      (r, p') \<leftarrow> pipe_write_loop (\<lambda>_ n. n) True False 1 sz envs False 0 buf p; Some (r, Some p') }"
    using assms(3) by (auto simp: pipe_write_def pipe_write_impl_def dest: leD)
  moreover obtain res p' where r: "stream_outcome sz buf envs 0 p res p'"
      "pipe_write_loop (\<lambda>_ n. n) True False 1 sz envs False 0 buf p = Some (res, p')"
    using pipe_write_loop_stream [OF assms(1,2) sz assms(4,5), of "\<lambda>_ n. n" False] by blast
  ultimately have "pipe_write envs (Some nd) (Some p) sz (Some buf) = Some (res, Some p')" by simp
  then show ?thesis using r(1) by blast
qed

lemma drain_all:
  "consumer (\<lambda>p. p\<lparr>p_read_ptr := p_write_ptr p\<rparr>)" "drains (\<lambda>p. p\<lparr>p_read_ptr := p_write_ptr p\<rparr>)"
proof -
  have e: "pipe_used (p\<lparr>p_read_ptr := p_write_ptr p\<rparr>) = 0" for p by (simp add: pipe_used_def)
  then have b: "pipe_bytes (p\<lparr>p_read_ptr := p_write_ptr p\<rparr>) = []" for p by (simp add: pipe_bytes_Nil)
  then show "drains (\<lambda>p. p\<lparr>p_read_ptr := p_write_ptr p\<rparr>)" by (simp add: drains_def)
  show "consumer (\<lambda>p. p\<lparr>p_read_ptr := p_write_ptr p\<rparr>)"
    unfolding consumer_def using e b
    by (auto simp: pipe_ok_def pipe_frame_def intro!: exI [of _ 32768])
qed

theorem pipe_write_stream_witness:
  "\<exists>res p'. pipe_write [\<lambda>p. p\<lparr>p_read_ptr := p_write_ptr p\<rparr>] (Some \<lparr>n_flags = VFS_FLAG_PIPE_WRITE\<rparr>)
      (Some (fresh_pipe (replicate 32768 0))) 40000 (Some (replicate 40000 1)) = Some (res, Some p') \<and>
    res = Returned 40000"
proof -
  let ?env = "\<lambda>p. p\<lparr>p_read_ptr := p_write_ptr p\<rparr>"
  let ?p = "fresh_pipe (replicate 32768 0)"
  have "pipe_ok ?p" "p_readers ?p \<noteq> 0" "PIPE_SIZE < 40000"
      "unat (40000 :: u32) \<le> length (replicate 40000 (1 :: u8))" "list_all consumer [?env]"
    using drain_all(1) by (simp_all add: fresh_pipe_def pipe_ok_def pipe_used_def)
  from pipe_write_stream [OF this, of "\<lparr>n_flags = VFS_FLAG_PIPE_WRITE\<rparr>"] obtain res p' where
    r: "pipe_write [?env] (Some \<lparr>n_flags = VFS_FLAG_PIPE_WRITE\<rparr>) (Some ?p) 40000 (Some (replicate 40000 1)) =
      Some (res, Some p')" "stream_outcome 40000 (replicate 40000 1) [?env] 0 ?p res p'" by blast
  have "pipe_used ?p = 0" "sint (40000 :: u32) = 40000" by (simp_all add: fresh_pipe_def pipe_used_def)
  moreover have "res = Returned (sint (40000 :: u32)) \<or> res = Waiting" "res \<noteq> Waiting"
    using r(2) drain_all(2) calculation(1) unfolding stream_outcome_def by (meson, simp)
  ultimately show ?thesis using r(1) by metis
qed

text \<open>
  C7: A blocking read sleeps exactly while the pipe is empty and has a writer. Otherwise it
  takes what is there, up to the size asked for, from the front and in order, or returns 0
  at end of file.
\<close>

theorem pipe_read_blocking:
  assumes "pipe_ok p" "0 < sz" "unat sz \<le> length buf" "list_all keeps_ok envs"
  shows "\<exists>es rest res buf' p'. envs = es @ rest \<and>
    pipe_read envs (Some nd) (Some p) sz (Some buf) = Some (res, Some buf', Some p') \<and>
    read_outcome sz buf (slept SemRead False es p) res buf' p' \<and> (res = Waiting \<longrightarrow> rest = [])"
proof -
  have "pipe_read envs (Some nd) (Some p) sz (Some buf) = do {
      (r, buf', p') \<leftarrow> pipe_read_loop (\<lambda>_ n. n) True False sz envs False 0 buf p;
      Some (r, Some buf', Some p') }"
    using assms(2) by (auto simp: pipe_read_def pipe_read_impl_def)
  moreover obtain es rest res buf' p' where r: "envs = es @ rest" "res = Waiting \<longrightarrow> rest = []"
      "pipe_read_loop (\<lambda>_ n. n) True False sz envs False 0 buf p = Some (res, buf', p')"
      "read_outcome sz buf (slept SemRead False es p) res buf' p'"
    using pipe_read_loop_blocking [OF assms(2,3,1,4), of "\<lambda>_ n. n" False] by blast
  ultimately have "pipe_read envs (Some nd) (Some p) sz (Some buf) = Some (res, Some buf', Some p')" by simp
  then show ?thesis using r by blast
qed

theorem pipe_read_blocking_witness:
  "\<exists>es rest res buf' p'. [\<lambda>p. p\<lparr>p_writers := 0\<rparr>] = es @ rest \<and>
    pipe_read [\<lambda>p. p\<lparr>p_writers := 0\<rparr>] (Some \<lparr>n_flags = VFS_FLAG_PIPE_READ\<rparr>)
      (Some (fresh_pipe (replicate 32768 0))) 2 (Some [0, 0]) = Some (res, Some buf', Some p') \<and>
    read_outcome 2 [0, 0] (slept SemRead False es (fresh_pipe (replicate 32768 0))) res buf' p' \<and>
    (res = Waiting \<longrightarrow> rest = [])"
  by (rule pipe_read_blocking) (simp_all add: keeps_ok_def pipe_ok_def pipe_used_def fresh_pipe_def)

text \<open>
  C8: The exact result of a non-blocking write. It returns 0 and stores nothing when the data is larger
  than the pipe or does not fit now, and -1 when no reader is left; otherwise it appends all bytes and
  returns their number, unless the user buffer faults. After a fault it returns -1, and the
  bytes up to the end of the ring have been published nevertheless when the fault is in the part behind it.
\<close>

theorem pipe_write_nonblock_result:
  assumes "pipe_ok p" "n_flags nd AND VFS_FLAG_PIPE_WRITE \<noteq> 0" "0 < sz" "unat sz \<le> length buf"
  shows "\<exists>r p'. pipe_write_nonblock ua (Some nd) (Some p) sz (Some buf) = Some (Returned r, Some p') \<and>
      write_nonblock_outcome ua sz buf p r p'"
  by (rule pipe_write_nonblock_ok [OF assms])

text \<open>A write of two bytes at the last index of the ring, whose second byte is not accessible.\<close>

definition late_pipe :: pipe where
  "late_pipe = \<lparr>p_read_ptr = 32767, p_readers = 1, p_write_ptr = 32767, p_writers = 1,
     p_buffer = replicate 32768 0, p_size = PIPE_SIZE, p_refs = 2, p_calls = []\<rparr>"

theorem pipe_write_nonblock_result_witness:
  "\<exists>p'. pipe_write_nonblock (\<lambda>off n. if off = 0 then n else 0) (Some \<lparr>n_flags = VFS_FLAG_PIPE_WRITE\<rparr>)
       (Some late_pipe) 2 (Some [5, 6]) = Some (Returned (-1), Some p') \<and> pipe_bytes p' = [5]"
proof -
  have "pipe_ok late_pipe" by (simp add: late_pipe_def pipe_ok_def pipe_used_def)
  moreover have "user_fault (\<lambda>off n. if off = 0 then n else 0) 0 32767 2 = Some 1" by (simp add: user_fault_def)
  ultimately show ?thesis
    using pipe_write_nonblock_result [of late_pipe "\<lparr>n_flags = VFS_FLAG_PIPE_WRITE\<rparr>" 2 "[5, 6]" "\<lambda>off n. if off = 0 then n else 0"]
    by (auto simp: write_nonblock_outcome_def late_pipe_def pipe_used_def pipe_bytes_def)
qed

text \<open>
  C9: Poll and the non-blocking read agree on the read end. \<open>POLLIN\<close> is reported exactly when the read
  delivers bytes or finds bytes but faults in the user buffer, \<open>POLLHUP\<close> alone exactly when it fails
  without such a fault, which is when the pipe is empty and closed, and nothing exactly when it would block.
\<close>

theorem pipe_poll_read_agree:
  fixes ua :: uaccess and p :: pipe and sz :: u32
  assumes "pipe_ok p" "0 < sz" "unat sz \<le> length buf"
  defines "node \<equiv> Some \<lparr>n_flags = VFS_FLAG_PIPE_READ\<rparr>"
  defines "rv \<equiv> pipe_vfs_poll_status node (Some p) VFS_POLLIN"
  defines "faults \<equiv> pipe_bytes p \<noteq> [] \<and> read_fault ua sz p \<noteq> None"
  shows "\<exists>r buf' p'. pipe_read_nonblock ua node (Some p) sz (Some buf) =
      Some (Returned r, Some buf', Some p') \<and>
      (rv AND VFS_POLLIN \<noteq> 0 \<longleftrightarrow> r > 0 \<or> faults) \<and> (rv = VFS_POLLHUP \<longleftrightarrow> r = -1 \<and> \<not> faults) \<and> (rv = 0 \<longleftrightarrow> r = 0)"
proof -
  have "n_flags \<lparr>n_flags = VFS_FLAG_PIPE_READ\<rparr> AND VFS_FLAG_PIPE_READ \<noteq> 0" by simp
  from pipe_read_nonblock_ok [OF assms(1) this assms(2,3)]
  obtain r buf' p' where r: "pipe_read_nonblock ua node (Some p) sz (Some buf) =
      Some (Returned r, Some buf', Some p')"
      "read_nonblock_outcome ua sz buf p r buf' p'" unfolding node_def by blast
  have av: "p_write_ptr p - p_read_ptr p > 0 \<longleftrightarrow> pipe_used p > 0"
    by (simp add: pipe_used_def word_less_nat_alt)
  have rv: "rv = (if pipe_used p > 0 then VFS_POLLIN else 0) OR (if p_writers p = 0 then VFS_POLLHUP else 0)"
    by (simp add: rv_def node_def pipe_vfs_poll_status_def pipe_poll_info_def Let_def av)
  have r': "r = (if pipe_used p > 0 then if faults then -1 else int (min (unat sz) (pipe_used p)) else if p_writers p = 0 then -1 else 0)"
    using r(2) by (auto simp: read_nonblock_outcome_def faults_def Let_def pipe_bytes_Nil split: if_splits option.splits)
  have "0 < unat sz" "pipe_used p = 0 \<Longrightarrow> \<not> faults" using assms(2) by (simp_all add: word_less_nat_alt faults_def pipe_bytes_Nil)
  then have "(rv AND VFS_POLLIN \<noteq> 0 \<longleftrightarrow> r > 0 \<or> faults) \<and> (rv = VFS_POLLHUP \<longleftrightarrow> r = -1 \<and> \<not> faults) \<and> (rv = 0 \<longleftrightarrow> r = 0)"
    by (cases "pipe_used p > 0"; cases "p_writers p = 0"; cases faults) (simp_all add: rv r')
  then show ?thesis using r(1) by blast
qed

theorem pipe_poll_read_agree_witness:
  "\<exists>r buf' p'. pipe_read_nonblock (\<lambda>_ _. 0) (Some \<lparr>n_flags = VFS_FLAG_PIPE_READ\<rparr>)
      (Some (fresh_pipe (replicate 32768 0))) 2 (Some [0, 0]) = Some (Returned r, Some buf', Some p') \<and> r = 0"
  using pipe_poll_read_agree [of "fresh_pipe (replicate 32768 0)" 2 "[0, 0]" "\<lambda>_ _. 0"]
  by (auto simp: pipe_vfs_poll_status_def pipe_poll_info_def Let_def fresh_pipe_def pipe_ok_def pipe_used_def)

section \<open>Creation, close and wake-ups\<close>

lemma vfs_create_pipe_cases:
  "vfs_create_pipe rn wn alloc raw =
     (if rn \<and> wn \<and> alloc 0 \<and> alloc 1 \<and> alloc 2 \<and> alloc 3
      then (0, [PipeObj, BufferObj, ReadNodeObj, WriteNodeObj],
            Some (\<lparr>n_flags = VFS_FLAG_PIPE_READ\<rparr>, \<lparr>n_flags = VFS_FLAG_PIPE_WRITE\<rparr>, fresh_pipe raw))
      else (-1, [], None))"
  by (auto simp: vfs_create_pipe_def Let_def fresh_pipe_def)

text \<open>
  The test at the end of \<open>pipe_close\<close> never holds: only one of the two counters is read
  from the pipe, the other keeps its initial value 1.
\<close>

lemma pipe_close_never_detaches:
  "pipe_close nd (Some p) = (0, Some p') \<Longrightarrow> \<exists>cs. p_calls p' = p_calls p @ cs \<and> PollDetachAll \<notin> set cs"
  by (auto simp: pipe_close_def call_if_def call_def Let_def split: if_splits)

text \<open>
  The test \<open>write_ptr > rp + take\<close> that decides whether other readers are woken compares the free-running
  counters as plain numbers. When \<open>write_ptr\<close> has wrapped and \<open>read_ptr\<close> has not, bytes
  remain but the readers are not woken.
\<close>

lemma pipe_read_no_wake_at_wrap:
  defines "p \<equiv> (fresh_pipe (replicate 32768 0))\<lparr>p_read_ptr := - 3, p_write_ptr := 1\<rparr>"
  shows "\<exists>buf' p'. pipe_read_section (\<lambda>_ n. n) True False False 1 0 [0] p = Some (Break 1, buf', p') \<and>
     pipe_bytes p' \<noteq> [] \<and> SemSignalAll SemRead \<notin> set (p_calls p')"
  by (simp add: p_def fresh_pipe_def pipe_read_section_def pipe_read_copy_def copy_out_def copied_def
      call_if_def call_def Let_def pipe_bytes_Nil pipe_used_def)

end
