(* ===== verification/Ldisc.thy ===== *)
theory Ldisc
  imports Ringbuf
begin

text \<open>
  The terminal line discipline of \<open>src/src/kernel/tty/ldisc.c\<close>: input processing (CR/NL mapping,
  signals, line editing), the queue of completed lines in front of the byte ring, canonical
  and raw reads with \<open>VMIN\<close>/\<open>VTIME\<close>, deferred echo, and output processing.

  The two rings are those of \<open>Ringbuf\<close>. The callbacks and wake-ups are recorded in order in
  \<open>ld_calls\<close>. A reader that has to wait gives up the lock; what happens until it runs again
  is an element \<open>(step, ticks, pending)\<close> of the list \<open>wakes\<close>: the change made to the line discipline,
  the value of \<open>timer_ticks\<close> and whether a signal is pending when it wakes up. A
  read that is still waiting when the list is used up has the result \<open>Asleep\<close>.
\<close>

section \<open>State\<close>

record ldisc_config =
  c_canonical :: bool
  c_echo :: bool
  c_onlcr :: bool
  c_igncr :: bool
  c_icrnl :: bool
  c_inlcr :: bool
  c_opost :: bool
  c_vmin :: u8
  c_vtime :: u8
  c_isig :: bool
  c_vintr :: u8
  c_vquit :: u8
  c_vsusp :: u8
  c_veof :: u8

datatype ldisc_call =
    QueueEchoWork
  | SigEmit int
  | EchoEmit "u8 list"
  | WakeReaders
  | SignalWriteSem
  | FlushEchoWork

text \<open>
  \<open>ld_echo_emit\<close> and \<open>ld_sig_emit\<close> say whether the callbacks are installed; \<open>ld_wq\<close> is the
  global \<open>g_ldisc_wq\<close>.
\<close>

record ldisc =
  ld_cfg :: ldisc_config
  ld_echo_emit :: bool
  ld_sig_emit :: bool
  ld_rx_ring :: ringbuf
  ld_line_buf :: "u8 list"
  ld_line_len :: u32
  ld_canon_lens :: "u32 list"
  ld_canon_head :: u32
  ld_canon_tail :: u32
  ld_canon_count :: u32
  ld_echo_ring :: ringbuf
  ld_wq :: bool
  ld_calls :: "ldisc_call list"

abbreviation LDISC_RX_CAP :: u32 where "LDISC_RX_CAP \<equiv> 4096"
abbreviation LDISC_ECHO_CAP :: u32 where "LDISC_ECHO_CAP \<equiv> 4096"
abbreviation LDISC_LINE_CAP :: u32 where "LDISC_LINE_CAP \<equiv> 1024"
abbreviation LDISC_MAX_LINES :: u32 where "LDISC_MAX_LINES \<equiv> 128"
abbreviation KERNEL_TIMER_HZ :: u32 where "KERNEL_TIMER_HZ \<equiv> 1000"
abbreviation NO_DEADLINE :: u32 where "NO_DEADLINE \<equiv> 0xFFFFFFFF"
abbreviation CR :: u8 where "CR \<equiv> 13"
abbreviation NL :: u8 where "NL \<equiv> 10"

definition ld_call :: "ldisc_call \<Rightarrow> ldisc \<Rightarrow> ldisc" where
  "ld_call c ld = ld\<lparr>ld_calls := ld_calls ld @ [c]\<rparr>"

text \<open>Store back the ring that an operation of \<open>Ringbuf\<close> returned.\<close>

definition put_rx :: "ringbuf ptr \<Rightarrow> ldisc \<Rightarrow> ldisc" where
  "put_rx r ld = (case r of None \<Rightarrow> ld | Some rb \<Rightarrow> ld\<lparr>ld_rx_ring := rb\<rparr>)"

definition put_echo :: "ringbuf ptr \<Rightarrow> ldisc \<Rightarrow> ldisc" where
  "put_echo r ld = (case r of None \<Rightarrow> ld | Some rb \<Rightarrow> ld\<lparr>ld_echo_ring := rb\<rparr>)"

section \<open>Echo\<close>

text \<open>The work item that empties the echo ring; \<open>buf\<close> is its local 128-byte buffer.\<close>

partial_function (option) echo_worker_task :: "ldisc \<Rightarrow> u8 list \<Rightarrow> ldisc option" where
  "echo_worker_task ld buf = do {
     (to_emit, buf', e) \<leftarrow> ringbuf_read (Some (ld_echo_ring ld)) (Some buf) 128;
     (case buf' of
        None \<Rightarrow> None
      | Some b \<Rightarrow>
          let ld1 = put_echo e ld
          in if to_emit = 0 then Some ld1
             else echo_worker_task
                    (if ld_echo_emit ld then ld_call (EchoEmit (take (unat to_emit) b)) ld1 else ld1) b)
   }"

definition queue_echo_bytes_locked :: "ldisc \<Rightarrow> u8 list \<Rightarrow> u32 \<Rightarrow> ldisc option" where
  "queue_echo_bytes_locked ld data len =
     (if \<not> c_echo (ld_cfg ld) \<or> \<not> ld_echo_emit ld \<or> len = 0 then Some ld
      else do {
        (_, e) \<leftarrow> ringbuf_write (Some (ld_echo_ring ld)) (Some data) len;
        let ld1 = put_echo e ld;
        Some (if ld_wq ld then ld_call QueueEchoWork ld1 else ld1)
      })"

definition queue_echo_char_locked :: "ldisc \<Rightarrow> u8 \<Rightarrow> ldisc option" where
  "queue_echo_char_locked ld c = queue_echo_bytes_locked ld [c] 1"

definition queue_echo_erase_locked :: "ldisc \<Rightarrow> ldisc option" where
  "queue_echo_erase_locked ld = queue_echo_bytes_locked ld [8, 32, 8] 3"

definition queue_echo_signal_locked :: "ldisc \<Rightarrow> int \<Rightarrow> ldisc option" where
  "queue_echo_signal_locked ld sig =
     queue_echo_bytes_locked ld
       [94, (if sig = 2 then 67 else if sig = 3 then 92 else if sig = 20 then 90 else 63), NL] 3"

section \<open>Input\<close>

definition try_isig_locked :: "ldisc \<Rightarrow> u8 \<Rightarrow> (bool \<times> ldisc) option" where
  "try_isig_locked ld b =
     (if \<not> c_isig (ld_cfg ld) \<or> \<not> ld_sig_emit ld then Some (False, ld)
      else
        let sig = (if b = c_vintr (ld_cfg ld) then 2
                   else if b = c_vquit (ld_cfg ld) then 3
                   else if b = c_vsusp (ld_cfg ld) then 20 else 0 :: int)
        in if sig = 0 then Some (False, ld)
           else do {
             ld1 \<leftarrow> queue_echo_signal_locked ld sig;
             let ld2 = put_rx (ringbuf_clear (Some (ld_rx_ring ld1))) ld1;
             let ld3 = ld2\<lparr>ld_line_len := 0, ld_canon_head := 0, ld_canon_tail := 0, ld_canon_count := 0\<rparr>;
             Some (True, ld_call (SigEmit sig) ld3)
           })"

text \<open>The branch of \<open>receive_byte_locked\<close> that completes a line.\<close>

definition commit_line :: "ldisc \<Rightarrow> u8 \<Rightarrow> (bool \<times> ldisc) option" where
  "commit_line ld b =
     (let needed = (if b = NL then ld_line_len ld + 1 else ld_line_len ld)
      in if ringbuf_free_space (Some (ld_rx_ring ld)) < needed then Some (False, ld)
         else if ld_canon_count ld \<ge> LDISC_MAX_LINES then Some (False, ld)
         else do {
           ld1 \<leftarrow> (if b = NL then do {
                     l \<leftarrow> set_at (ld_line_buf ld) (unat (ld_line_len ld)) b;
                     Some (ld\<lparr>ld_line_buf := l, ld_line_len := ld_line_len ld + 1\<rparr>)
                   } else Some ld);
           (_, r) \<leftarrow> ringbuf_write (Some (ld_rx_ring ld1)) (Some (ld_line_buf ld1)) (ld_line_len ld1);
           let ld2 = put_rx r ld1;
           lens \<leftarrow> set_at (ld_canon_lens ld2) (unat (ld_canon_head ld2)) (ld_line_len ld2);
           Some (True, ld2\<lparr>ld_canon_lens := lens,
                           ld_canon_head := (ld_canon_head ld2 + 1) mod LDISC_MAX_LINES,
                           ld_canon_count := ld_canon_count ld2 + 1,
                           ld_line_len := 0\<rparr>)
         })"

text \<open>Its branches for an erase character, an ordinary character and a character in raw mode.\<close>

definition erase_char :: "ldisc \<Rightarrow> (bool \<times> ldisc) option" where
  "erase_char ld =
     (if ld_line_len ld > 0 then do {
        ld1 \<leftarrow> queue_echo_erase_locked (ld\<lparr>ld_line_len := ld_line_len ld - 1\<rparr>);
        Some (True, ld1)
      } else Some (True, ld))"

definition insert_char :: "ldisc \<Rightarrow> u8 \<Rightarrow> (bool \<times> ldisc) option" where
  "insert_char ld b =
     (if ld_line_len ld \<ge> LDISC_LINE_CAP then Some (False, ld)
      else do {
        l \<leftarrow> set_at (ld_line_buf ld) (unat (ld_line_len ld)) b;
        ld1 \<leftarrow> queue_echo_char_locked (ld\<lparr>ld_line_buf := l, ld_line_len := ld_line_len ld + 1\<rparr>) b;
        Some (True, ld1)
      })"

definition raw_char :: "ldisc \<Rightarrow> u8 \<Rightarrow> (bool \<times> ldisc) option" where
  "raw_char ld b =
     (if ringbuf_free_space (Some (ld_rx_ring ld)) = 0 then Some (False, ld)
      else do {
        (_, r) \<leftarrow> ringbuf_push (Some (ld_rx_ring ld)) b;
        ld1 \<leftarrow> queue_echo_char_locked (put_rx r ld) b;
        Some (True, ld1)
      })"

definition receive_byte_locked :: "ldisc \<Rightarrow> u8 \<Rightarrow> (bool \<times> ldisc) option" where
  "receive_byte_locked ld b0 =
     (if c_igncr (ld_cfg ld) \<and> b0 = CR then Some (True, ld)
      else
        let b = (if c_icrnl (ld_cfg ld) \<and> b0 = CR then NL
                 else if c_inlcr (ld_cfg ld) \<and> b0 = NL then CR else b0)
        in do {
          (handled, ld1) \<leftarrow> try_isig_locked ld b;
          if handled then Some (True, ld1)
          else if \<not> c_canonical (ld_cfg ld1) then raw_char ld1 b
          else if b = 0x08 \<or> b = 0x7F then erase_char ld1
          else if b = c_veof (ld_cfg ld1) \<or> b = NL then commit_line ld1 b
          else insert_char ld1 b
        })"

text \<open>The loop of \<open>ldisc_receive\<close>; \<open>data\<close> holds exactly the \<open>size\<close> bytes of the caller.\<close>

fun receive_loop :: "ldisc \<Rightarrow> u8 list \<Rightarrow> u32 \<Rightarrow> (u32 \<times> ldisc) option" where
  "receive_loop ld [] written = Some (written, ld)"
| "receive_loop ld (b # bs) written = do {
     (ok, ld1) \<leftarrow> receive_byte_locked ld b;
     if \<not> ok then Some (written, ld1) else receive_loop ld1 bs (written + 1)
   }"

definition ldisc_receive :: "ldisc ptr \<Rightarrow> u8 list ptr \<Rightarrow> (u32 \<times> ldisc ptr) option" where
  "ldisc_receive ldp data =
     (case (ldp, data) of
        (Some ld, Some bs) \<Rightarrow>
          if bs = [] then Some (0, ldp)
          else do {
            (written, ld1) \<leftarrow> receive_loop ld bs 0;
            Some (written, Some (ld_call WakeReaders ld1))
          }
      | _ \<Rightarrow> Some (0, ldp))"

section \<open>Creation and configuration\<close>

text \<open>\<open>alloc\<close> says whether \<open>kmalloc\<close> succeeds and \<open>wq\<close> is the work queue global.\<close>

definition zero_ring :: ringbuf where
  "zero_ring = \<lparr>rb_buffer = [], rb_capacity = 0, rb_count = 0, rb_head = 0, rb_tail = 0\<rparr>"

definition ldisc_create :: "bool \<Rightarrow> bool \<Rightarrow> ldisc ptr option" where
  "ldisc_create alloc wq =
     (if \<not> alloc then Some None
      else
        let cfg = \<lparr>c_canonical = True, c_echo = True, c_onlcr = True, c_igncr = False, c_icrnl = True,
                   c_inlcr = False, c_opost = True, c_vmin = 1, c_vtime = 0, c_isig = False,
                   c_vintr = 0x03, c_vquit = 0x1C, c_vsusp = 0x1A, c_veof = 0x04\<rparr>;
            ld = \<lparr>ld_cfg = cfg, ld_echo_emit = False, ld_sig_emit = False, ld_rx_ring = zero_ring,
                  ld_line_buf = replicate 1024 0, ld_line_len = 0, ld_canon_lens = replicate 128 0,
                  ld_canon_head = 0, ld_canon_tail = 0, ld_canon_count = 0,
                  ld_echo_ring = zero_ring, ld_wq = wq, ld_calls = []\<rparr>
        in do {
          r \<leftarrow> ringbuf_init (Some (ld_rx_ring ld)) (Some (replicate 4096 0)) LDISC_RX_CAP;
          e \<leftarrow> ringbuf_init (Some (ld_echo_ring ld)) (Some (replicate 4096 0)) LDISC_ECHO_CAP;
          Some (Some (put_echo e (put_rx r ld)))
        })"

text \<open>Readers are woken and the echo work is flushed; the object is freed afterwards.\<close>

definition ldisc_destroy :: "ldisc ptr \<Rightarrow> ldisc ptr" where
  "ldisc_destroy ldp = map_option (\<lambda>ld. ld_call FlushEchoWork (ld_call WakeReaders ld)) ldp"

text \<open>\<open>g\<close> is the global before the call, \<open>created\<close> the result of \<open>create_workqueue\<close>.\<close>

definition ldisc_bootinit_wq :: "bool \<Rightarrow> bool \<Rightarrow> bool" where
  "ldisc_bootinit_wq g created = (if \<not> g then created else g)"

definition ldisc_set_config :: "ldisc ptr \<Rightarrow> ldisc_config ptr \<Rightarrow> ldisc ptr" where
  "ldisc_set_config ldp cfg =
     (case (ldp, cfg) of (Some ld, Some c) \<Rightarrow> Some (ld\<lparr>ld_cfg := c\<rparr>) | _ \<Rightarrow> ldp)"

definition ldisc_get_config :: "ldisc ptr \<Rightarrow> ldisc_config ptr \<Rightarrow> ldisc_config ptr" where
  "ldisc_get_config ldp out_cfg =
     (case (ldp, out_cfg) of (Some ld, Some c) \<Rightarrow> Some (ld_cfg ld) | _ \<Rightarrow> out_cfg)"

definition ldisc_set_callbacks :: "ldisc ptr \<Rightarrow> bool \<Rightarrow> bool \<Rightarrow> ldisc ptr" where
  "ldisc_set_callbacks ldp echo_emit sig_emit =
     map_option (\<lambda>ld. ld\<lparr>ld_echo_emit := echo_emit, ld_sig_emit := sig_emit\<rparr>) ldp"

section \<open>Reading\<close>

type_synonym wake = "(ldisc \<Rightarrow> ldisc) \<times> u32 \<times> bool"

text \<open>What the reader sees of its surroundings: \<open>timer_ticks\<close>, a pending signal, the wake-ups to come.\<close>

record reader =
  r_ticks :: u32
  r_pending :: bool
  r_wakes :: "wake list"

datatype wait_result = WReady | WFailed | WAsleep

text \<open>
  \<open>wait_for_data_locked\<close> for a reader that is a task (\<open>curr\<close> is not NULL). The Boolean in the
  result is \<open>*interrupted\<close>.
\<close>

fun wait_for_data_locked ::
    "u32 \<Rightarrow> u32 \<Rightarrow> u32 \<Rightarrow> bool \<Rightarrow> wake list \<Rightarrow> ldisc \<Rightarrow> wait_result \<times> bool \<times> reader \<times> ldisc" where
  "wait_for_data_locked deadline target_count ticks pending [] ld =
     (let ready = (if c_canonical (ld_cfg ld) then ld_canon_count ld > 0
                   else ringbuf_size (Some (ld_rx_ring ld)) \<ge> target_count);
          rd = \<lparr>r_ticks = ticks, r_pending = pending, r_wakes = []\<rparr>
      in if ready then (WReady, False, rd, ld)
         else if pending then (WFailed, True, rd, ld)
         else if deadline \<noteq> NO_DEADLINE \<and> ticks \<ge> deadline then (WFailed, False, rd, ld)
         else (WAsleep, False, rd, ld))"
| "wait_for_data_locked deadline target_count ticks pending ((step, ticks', pending') # ws) ld =
     (let ready = (if c_canonical (ld_cfg ld) then ld_canon_count ld > 0
                   else ringbuf_size (Some (ld_rx_ring ld)) \<ge> target_count);
          rd = \<lparr>r_ticks = ticks, r_pending = pending, r_wakes = (step, ticks', pending') # ws\<rparr>
      in if ready then (WReady, False, rd, ld)
         else if pending then (WFailed, True, rd, ld)
         else if deadline \<noteq> NO_DEADLINE \<and> ticks \<ge> deadline then (WFailed, False, rd, ld)
         else wait_for_data_locked deadline target_count ticks' pending' ws (step ld))"

abbreviation wait_for where
  "wait_for deadline target rd ld \<equiv>
     wait_for_data_locked deadline target (r_ticks rd) (r_pending rd) (r_wakes rd) ld"

datatype read_result = Got u32 | Asleep

abbreviation EINTR_RESULT :: u32 where "EINTR_RESULT \<equiv> - 2"

text \<open>The part of a canonical read after the wait.\<close>

definition read_canonical :: "bool \<Rightarrow> ldisc \<Rightarrow> u8 list \<Rightarrow> u32 \<Rightarrow> (read_result \<times> u8 list \<times> ldisc) option" where
  "read_canonical intr ld out sz =
     (if intr \<and> ld_canon_count ld = 0 then Some (Got EINTR_RESULT, out, ld)
      else if ld_canon_count ld > 0 then do {
        line_len \<leftarrow> get_at (ld_canon_lens ld) (unat (ld_canon_tail ld));
        let to_copy = (if sz < line_len then sz else line_len);
        (_, o', r) \<leftarrow> ringbuf_read (Some (ld_rx_ring ld)) (Some out) to_copy;
        let ld1 = ld_call SignalWriteSem (put_rx r ld);
        ld2 \<leftarrow> (if to_copy < line_len then do {
                  lens \<leftarrow> set_at (ld_canon_lens ld1) (unat (ld_canon_tail ld1)) (line_len - to_copy);
                  Some (ld1\<lparr>ld_canon_lens := lens\<rparr>)
                } else Some (ld1\<lparr>ld_canon_tail := (ld_canon_tail ld1 + 1) mod LDISC_MAX_LINES,
                                  ld_canon_count := ld_canon_count ld1 - 1\<rparr>));
        (case o' of None \<Rightarrow> None | Some out' \<Rightarrow> Some (Got to_copy, out', ld2))
      }
      else Some (Got 0, out, ld))"

text \<open>The part of a raw read after the waits.\<close>

definition read_raw :: "bool \<Rightarrow> ldisc \<Rightarrow> u8 list \<Rightarrow> u32 \<Rightarrow> (read_result \<times> u8 list \<times> ldisc) option" where
  "read_raw intr ld out sz =
     (if intr \<and> ringbuf_is_empty (Some (ld_rx_ring ld)) then Some (Got EINTR_RESULT, out, ld)
      else
        let rx_count = ringbuf_size (Some (ld_rx_ring ld));
            to_copy = (if sz < rx_count then sz else rx_count)
        in do {
          (_, o', r) \<leftarrow> ringbuf_read (Some (ld_rx_ring ld)) (Some out) to_copy;
          (case o' of
             None \<Rightarrow> None
           | Some out' \<Rightarrow> Some (Got to_copy, out', ld_call SignalWriteSem (put_rx r ld)))
        })"

text \<open>
  The loop of a raw read with \<open>VMIN > 0\<close> and \<open>VTIME > 0\<close> that waits for further bytes; its
  result is the state in which the loop is left, or \<open>None\<close> for a loop that does not end.
\<close>

partial_function (option) vmin_loop ::
    "u32 \<Rightarrow> u32 \<Rightarrow> bool \<Rightarrow> reader \<Rightarrow> ldisc \<Rightarrow> (wait_result \<times> bool \<times> reader \<times> ldisc) option" where
  "vmin_loop vmin vtime intr rd ld =
     (if ringbuf_size (Some (ld_rx_ring ld)) < vmin then
        let rx_size = ringbuf_size (Some (ld_rx_ring ld));
            deadline = r_ticks rd + (vtime * KERNEL_TIMER_HZ) div 10
        in (case wait_for deadline (rx_size + 1) rd ld of (w, i, rd1, ld1) \<Rightarrow>
              if w = WReady then vmin_loop vmin vtime (intr \<or> i) rd1 ld1
              else Some (w, intr \<or> i, rd1, ld1))
      else Some (WReady, intr, rd, ld))"

definition ldisc_read :: "ldisc ptr \<Rightarrow> u8 list ptr \<Rightarrow> u32 \<Rightarrow> reader \<Rightarrow> (read_result \<times> u8 list ptr \<times> ldisc ptr) option" where
  "ldisc_read ldp outp sz rd =
     (case (ldp, outp) of
        (Some ld, Some out) \<Rightarrow>
          if sz = 0 then Some (Got 0, outp, ldp)
          else if c_canonical (ld_cfg ld) then
            (case wait_for NO_DEADLINE 1 rd ld of (w, intr, rd1, ld1) \<Rightarrow>
               if w = WAsleep then Some (Asleep, outp, Some ld1)
               else do {
                 (n, out', ld2) \<leftarrow> read_canonical intr ld1 out sz;
                 Some (n, Some out', Some ld2)
               })
          else
            let vmin = c_vmin (ld_cfg ld);
                vtime = c_vtime (ld_cfg ld)
            in do {
              (w, intr, rd1, ld1) \<leftarrow>
                (if vmin = 0 \<and> vtime = 0 then Some (WReady, False, rd, ld)
                 else if vmin > 0 \<and> vtime = 0 then Some (wait_for NO_DEADLINE (ucast vmin) rd ld)
                 else if vmin = 0 then
                   Some (wait_for (r_ticks rd + (ucast vtime * KERNEL_TIMER_HZ) div 10) 1 rd ld)
                 else
                   (case wait_for NO_DEADLINE 1 rd ld of (w, intr, rd1, ld1) \<Rightarrow>
                      if w \<noteq> WAsleep \<and> \<not> intr \<and> ringbuf_size (Some (ld_rx_ring ld1)) > 0
                      then vmin_loop (ucast vmin) (ucast vtime) intr rd1 ld1
                      else Some (w, intr, rd1, ld1)));
              if w = WAsleep then Some (Asleep, outp, Some ld1)
              else do {
                (n, out', ld2) \<leftarrow> read_raw intr ld1 out sz;
                Some (n, Some out', Some ld2)
              }
            }
      | _ \<Rightarrow> Some (Got 0, outp, ldp))"

definition ldisc_has_readable :: "ldisc ptr \<Rightarrow> bool" where
  "ldisc_has_readable ldp =
     (case ldp of
        None \<Rightarrow> False
      | Some ld \<Rightarrow>
          if c_canonical (ld_cfg ld) then ld_canon_count ld > 0
          else \<not> ringbuf_is_empty (Some (ld_rx_ring ld)))"

section \<open>Output\<close>

text \<open>
  \<open>emit\<close> is the callback: from the state behind \<open>ctx\<close> and the bytes, the number of bytes it
  took and the new state. \<open>src\<close> holds exactly the \<open>size\<close> bytes of the caller.
\<close>

type_synonym 'c emit = "'c \<Rightarrow> u8 list \<Rightarrow> u32 \<times> 'c"

fun transform_loop :: "'c emit \<Rightarrow> u8 list \<Rightarrow> nat \<Rightarrow> nat \<Rightarrow> u8 list \<Rightarrow> u32 \<Rightarrow> 'c \<Rightarrow> u32 \<times> 'c" where
  "transform_loop emit src i start [] produced c =
     (if length src > start then
        (case emit c (drop start src) of (w, c1) \<Rightarrow> (produced + w, c1))
      else (produced, c))"
| "transform_loop emit src i start (b # bs) produced c =
     (if b = NL then
        (case (if i > start
               then (case emit c (take (i - start) (drop start src)) of (w, c1) \<Rightarrow> (produced + w, c1))
               else (produced, c)) of (produced1, c1) \<Rightarrow>
           (case emit c1 [CR, NL] of (w, c2) \<Rightarrow>
              if w \<noteq> 2 then (produced1 + w, c2)
              else transform_loop emit src (Suc i) (Suc i) bs (produced1 + w) c2))
      else transform_loop emit src (Suc i) start bs produced c)"

definition ldisc_write_transform :: "ldisc ptr \<Rightarrow> u8 list ptr \<Rightarrow> 'c emit option \<Rightarrow> 'c \<Rightarrow> u32 \<times> 'c" where
  "ldisc_write_transform ldp inp emitp c =
     (case (ldp, inp, emitp) of
        (Some ld, Some src, Some emit) \<Rightarrow>
          if src = [] then (0, c)
          else if \<not> c_opost (ld_cfg ld) \<or> \<not> c_onlcr (ld_cfg ld) then emit c src
          else transform_loop emit src 0 0 src 0 c
      | _ \<Rightarrow> (0, c))"

section \<open>Invariant and abstraction\<close>

definition ld_ok :: "ldisc \<Rightarrow> bool" where
  "ld_ok ld \<longleftrightarrow> rb_ok (ld_rx_ring ld) \<and> rb_capacity (ld_rx_ring ld) = LDISC_RX_CAP \<and>
     rb_ok (ld_echo_ring ld) \<and> rb_capacity (ld_echo_ring ld) = LDISC_ECHO_CAP \<and>
     length (ld_line_buf ld) = 1024 \<and> unat (ld_line_len ld) \<le> 1024 \<and>
     length (ld_canon_lens ld) = 128 \<and> unat (ld_canon_count ld) \<le> 128 \<and> unat (ld_canon_tail ld) < 128 \<and>
     unat (ld_canon_head ld) = (unat (ld_canon_tail ld) + unat (ld_canon_count ld)) mod 128"

text \<open>The lengths of the completed lines, oldest first, and the bytes cut accordingly.\<close>

definition ld_lens :: "ldisc \<Rightarrow> nat list" where
  "ld_lens ld = map unat (ring_bytes (ld_canon_lens ld) (unat (ld_canon_tail ld)) (unat (ld_canon_count ld)))"

fun chop :: "nat list \<Rightarrow> 'a list \<Rightarrow> 'a list list" where
  "chop [] bs = []"
| "chop (n # ns) bs = take n bs # chop ns (drop n bs)"

definition ld_edit :: "ldisc \<Rightarrow> u8 list" where
  "ld_edit ld = take (unat (ld_line_len ld)) (ld_line_buf ld)"

definition ld_lines :: "ldisc \<Rightarrow> u8 list list" where
  "ld_lines ld = chop (ld_lens ld) (rb_bytes (ld_rx_ring ld))"

text \<open>In canonical mode the recorded lengths account for every byte of the ring.\<close>

definition ld_canon_ok :: "ldisc \<Rightarrow> bool" where
  "ld_canon_ok ld \<longleftrightarrow> c_canonical (ld_cfg ld) \<and>
     sum_list (ld_lens ld) = length (rb_bytes (ld_rx_ring ld))"

lemma length_chop [simp]: "length (chop ns bs) = length ns"
  by (induction ns bs rule: chop.induct) auto

lemma concat_chop: "sum_list ns = length bs \<Longrightarrow> concat (chop ns bs) = bs"
  by (induction ns bs rule: chop.induct) auto

lemma chop_snoc:
  "sum_list ns = length bs \<Longrightarrow> chop (ns @ [length l]) (bs @ l) = chop ns bs @ [l]"
  by (induction ns bs rule: chop.induct) auto

lemma ld_lines_concat: "ld_canon_ok ld \<Longrightarrow> concat (ld_lines ld) = rb_bytes (ld_rx_ring ld)"
  by (simp add: ld_canon_ok_def ld_lines_def concat_chop)

lemma length_ld_lines [simp]: "length (ld_lines ld) = unat (ld_canon_count ld)"
  by (simp add: ld_lines_def ld_lens_def)

text \<open>Echo touches the echo ring and the call log only.\<close>

definition same_mode :: "ldisc \<Rightarrow> ldisc \<Rightarrow> bool" where
  "same_mode ld ld' \<longleftrightarrow> ld_cfg ld' = ld_cfg ld \<and> ld_sig_emit ld' = ld_sig_emit ld"

lemma queue_echo_bytes_ok:
  assumes "ld_ok ld" "unat len \<le> length data"
  obtains e cs where
    "queue_echo_bytes_locked ld data len = Some (ld\<lparr>ld_echo_ring := e, ld_calls := ld_calls ld @ cs\<rparr>)"
    "rb_ok e" "rb_capacity e = LDISC_ECHO_CAP" "set cs \<subseteq> {QueueEchoWork}"
proof (cases "\<not> c_echo (ld_cfg ld) \<or> \<not> ld_echo_emit ld \<or> len = 0")
  case True
  then show thesis
    using that [where e = "ld_echo_ring ld" and cs = "[]"] assms(1) by (simp add: queue_echo_bytes_locked_def ld_ok_def)
next
  case False
  have e: "rb_ok (ld_echo_ring ld)" "rb_capacity (ld_echo_ring ld) = LDISC_ECHO_CAP"
    using assms(1) by (simp_all add: ld_ok_def)
  obtain e' n where w: "ringbuf_write (Some (ld_echo_ring ld)) (Some data) len = Some (n, Some e')"
      "rb_ok e'" "rb_capacity e' = LDISC_ECHO_CAP"
    using ringbuf_write_spec [OF e(1) assms(2)] e(2) by metis
  show thesis
  proof (cases "ld_wq ld")
    case True
    then show thesis using that [where e = e' and cs = "[QueueEchoWork]"] False w
      by (simp add: queue_echo_bytes_locked_def put_echo_def ld_call_def)
  next
    case f: False
    then show thesis using that [where e = e' and cs = "[]"] False w
      by (simp add: queue_echo_bytes_locked_def put_echo_def)
  qed
qed

text \<open>The abstraction and the invariant do not depend on the echo ring and the calls.\<close>

lemma ld_abs_echo [simp]:
  "ld_edit (ld\<lparr>ld_echo_ring := e, ld_calls := cs\<rparr>) = ld_edit ld"
  "ld_lines (ld\<lparr>ld_echo_ring := e, ld_calls := cs\<rparr>) = ld_lines ld"
  "ld_canon_ok (ld\<lparr>ld_echo_ring := e, ld_calls := cs\<rparr>) = ld_canon_ok ld"
  by (simp_all add: ld_edit_def ld_lines_def ld_lens_def ld_canon_ok_def)

lemma ld_ok_echo_keep:
  "ld_ok ld \<Longrightarrow> rb_ok e \<Longrightarrow> rb_capacity e = LDISC_ECHO_CAP \<Longrightarrow>
     ld_ok (ld\<lparr>ld_echo_ring := e, ld_calls := cs\<rparr>)"
  by (simp add: ld_ok_def)

lemma rx_free_space:
  "ld_ok ld \<Longrightarrow> unat (ringbuf_free_space (Some (ld_rx_ring ld))) = 4096 - length (rb_bytes (ld_rx_ring ld))"
  using rb_free_space [of "ld_rx_ring ld"] by (simp add: ld_ok_def)

text \<open>The ring of line lengths: appending at the head.\<close>

lemma lens_push:
  assumes "ld_ok ld" "unat (ld_canon_count ld) < 128"
  shows "set_at (ld_canon_lens ld) (unat (ld_canon_head ld)) n = Some ((ld_canon_lens ld)[unat (ld_canon_head ld) := n])"
    "unat (ld_canon_count ld + 1) = Suc (unat (ld_canon_count ld))"
    "unat ((ld_canon_head ld + 1) mod LDISC_MAX_LINES) = (unat (ld_canon_tail ld) + Suc (unat (ld_canon_count ld))) mod 128"
    "ring_bytes ((ld_canon_lens ld)[unat (ld_canon_head ld) := n]) (unat (ld_canon_tail ld)) (Suc (unat (ld_canon_count ld))) =
       ring_bytes (ld_canon_lens ld) (unat (ld_canon_tail ld)) (unat (ld_canon_count ld)) @ [n]"
proof -
  let ?t = "unat (ld_canon_tail ld)" and ?n = "unat (ld_canon_count ld)" and ?h = "unat (ld_canon_head ld)"
  have h: "?h = (?t + ?n) mod 128" "length (ld_canon_lens ld) = 128" using assms by (simp_all add: ld_ok_def)
  then have lt: "?h < 128" by simp
  show "set_at (ld_canon_lens ld) ?h n = Some ((ld_canon_lens ld)[?h := n])" using h lt by simp
  show "unat (ld_canon_count ld + 1) = Suc ?n" using unat_plus_one [of "ld_canon_count ld" 128] assms(2) by simp
  have "unat (ld_canon_head ld + 1) = Suc ?h" using unat_plus_one [of "ld_canon_head ld" 128] lt by simp
  then show "unat ((ld_canon_head ld + 1) mod LDISC_MAX_LINES) = (?t + Suc ?n) mod 128"
    by (simp add: unat_mod h(1) mod_Suc_eq)
  have "ring_stored (ld_canon_lens ld) ((?t + ?n) mod length (ld_canon_lens ld)) [n] ((ld_canon_lens ld)[?h := n])"
    using ring_stored_one_part [of ?h 1 "ld_canon_lens ld" "[n]"] lt h by (simp add: upd_conv_take_nth_drop)
  from ring_bytes_stored [OF this] assms(2) h(2)
  show "ring_bytes ((ld_canon_lens ld)[?h := n]) ?t (Suc ?n) = ring_bytes (ld_canon_lens ld) ?t ?n @ [n]" by simp
qed

text \<open>Completing a line.\<close>

lemma commit_line_ok:
  assumes ok: "ld_ok ld" and can: "ld_canon_ok ld" and room: "b = NL \<Longrightarrow> unat (ld_line_len ld) < 1024"
  defines "line \<equiv> ld_edit ld @ (if b = NL then [NL] else [])"
  shows "\<exists>r ld'. commit_line ld b = Some (r, ld') \<and> ld_ok ld' \<and> ld_canon_ok ld' \<and> same_mode ld ld' \<and>
    (if length (concat (ld_lines ld)) + length line \<le> 4096 \<and> length (ld_lines ld) < 128
     then r \<and> ld_edit ld' = [] \<and> ld_lines ld' = ld_lines ld @ [line]
     else \<not> r \<and> ld' = ld)"
proof -
  let ?rx = "ld_rx_ring ld"
  let ?len = "if b = NL then ld_line_len ld + 1 else ld_line_len ld"
  let ?buf = "if b = NL then (ld_line_buf ld)[unat (ld_line_len ld) := b] else ld_line_buf ld"
  have len: "unat ?len = length line" "unat ?len \<le> 1024"
    using ok room unat_plus_one [of "ld_line_len ld" 1024] by (auto simp: ld_ok_def line_def ld_edit_def)
  have buf: "take (unat ?len) ?buf = line" "length ?buf = 1024"
    using ok room unat_plus_one [of "ld_line_len ld" 1024]
    by (auto simp: ld_ok_def line_def ld_edit_def take_Suc_conv_app_nth)
  have sp: "unat (ringbuf_free_space (Some ?rx)) = 4096 - length (rb_bytes ?rx)" by (rule rx_free_space [OF ok])
  have nb: "length (concat (ld_lines ld)) = length (rb_bytes ?rx)" by (simp add: ld_lines_concat [OF can])
  have bound: "length (rb_bytes ?rx) \<le> 4096" using rb.bounded [of ?rx] ok by (simp add: ld_ok_def)
  show ?thesis
  proof (cases "length (concat (ld_lines ld)) + length line \<le> 4096 \<and> length (ld_lines ld) < 128")
    case False
    then have "ringbuf_free_space (Some ?rx) < ?len \<or> LDISC_MAX_LINES \<le> ld_canon_count ld"
      using sp len(1) nb bound by (auto simp: word_less_nat_alt word_le_nat_alt)
    then have "commit_line ld b = Some (False, ld)" by (auto simp: commit_line_def Let_def)
    then show ?thesis using False ok can by (auto simp: same_mode_def)
  next
    case True
    let ?ld1 = "ld\<lparr>ld_line_buf := ?buf, ld_line_len := ?len\<rparr>"
    have cnt: "unat (ld_canon_count ld) < 128" using True by simp
    have "rb_ok ?rx" "unat ?len \<le> length ?buf" using ok len(2) buf(2) by (simp_all add: ld_ok_def)
    from ringbuf_write_spec [OF this] obtain r' n where w:
      "ringbuf_write (Some ?rx) (Some ?buf) ?len = Some (n, Some r')" "rb_ok r'"
      "rb_capacity r' = rb_capacity ?rx" "rb_bytes r' = rb_bytes ?rx @ take (min (unat ?len) (rb_space ?rx)) ?buf"
      by blast
    have "min (unat ?len) (rb_space ?rx) = unat ?len"
      using True len(1) nb ok by (auto simp: ld_ok_def)
    then have bytes: "rb_bytes r' = rb_bytes ?rx @ line" using w(4) buf(1) by simp
    let ?ld' = "ld\<lparr>ld_line_buf := ?buf, ld_rx_ring := r', ld_canon_lens := (ld_canon_lens ld)[unat (ld_canon_head ld) := ?len],
      ld_canon_head := (ld_canon_head ld + 1) mod LDISC_MAX_LINES, ld_canon_count := ld_canon_count ld + 1, ld_line_len := 0\<rparr>"
    note lp = lens_push(1,4) [OF ok cnt, of ?len] lens_push(2,3) [OF ok cnt]
    have lens: "ld_lens ?ld' = ld_lens ld @ [length line]"
      using lp(2,3) len(1) by (simp add: ld_lens_def)
    have "\<not> ringbuf_free_space (Some ?rx) < ?len" "\<not> LDISC_MAX_LINES \<le> ld_canon_count ld"
      using True sp len(1) nb by (auto simp: word_less_nat_alt word_le_nat_alt)
    moreover have "(if b = NL then do { l \<leftarrow> set_at (ld_line_buf ld) (unat (ld_line_len ld)) b;
        Some (ld\<lparr>ld_line_buf := l, ld_line_len := ld_line_len ld + 1\<rparr>) } else Some ld) = Some ?ld1"
      using ok room by (auto simp: ld_ok_def)
    ultimately have "commit_line ld b = Some (True, ?ld')"
      using w(1) lp(1) by (simp add: commit_line_def Let_def put_rx_def)
    moreover have "ld_ok ?ld'"
      using ok w(2,3) lp(3,4) buf(2) cnt by (simp add: ld_ok_def)
    moreover have "ld_canon_ok ?ld'" using can lens bytes by (simp add: ld_canon_ok_def)
    moreover have "ld_lines ?ld' = ld_lines ld @ [line]"
      using can lens bytes by (simp add: ld_lines_def ld_canon_ok_def chop_snoc)
    moreover have "ld_edit ?ld' = []" "same_mode ld ?ld'" by (simp_all add: ld_edit_def same_mode_def)
    ultimately show ?thesis using True by auto
  qed
qed


section \<open>Canonical input\<close>

text \<open>The byte after CR/NL mapping.\<close>

definition input_map :: "ldisc_config \<Rightarrow> u8 \<Rightarrow> u8" where
  "input_map cfg b = (if c_icrnl cfg \<and> b = CR then NL else if c_inlcr cfg \<and> b = NL then CR else b)"

text \<open>
  What a terminal does with a typed byte: the line being edited and the completed lines before
  and after, and whether the byte was taken.
\<close>

definition canon_spec ::
    "ldisc_config \<Rightarrow> bool \<Rightarrow> u8 \<Rightarrow> u8 list \<Rightarrow> u8 list list \<Rightarrow> bool \<times> u8 list \<times> u8 list list" where
  "canon_spec cfg sig b0 edit lines =
     (let b = input_map cfg b0 in
      if c_igncr cfg \<and> b0 = CR then (True, edit, lines)
      else if c_isig cfg \<and> sig \<and> b \<in> {c_vintr cfg, c_vquit cfg, c_vsusp cfg} then (True, [], [])
      else if b = 0x08 \<or> b = 0x7F then (True, butlast edit, lines)
      else if b = c_veof cfg \<or> b = NL then
        (let line = edit @ (if b = NL then [NL] else [])
         in if length (concat lines) + length line \<le> 4096 \<and> length lines < 128
            then (True, [], lines @ [line]) else (False, edit, lines))
      else if length edit < 1024 then (True, edit @ [b], lines)
      else (False, edit, lines))"

lemma try_isig_ok:
  fixes b :: u8
  assumes ok: "ld_ok ld" and can: "ld_canon_ok ld"
  defines "hit \<equiv> c_isig (ld_cfg ld) \<and> ld_sig_emit ld \<and>
    b \<in> {c_vintr (ld_cfg ld), c_vquit (ld_cfg ld), c_vsusp (ld_cfg ld)}"
  shows "if hit
    then \<exists>ld'. try_isig_locked ld b = Some (True, ld') \<and> ld_ok ld' \<and> ld_canon_ok ld' \<and> ld_edit ld' = [] \<and>
           ld_lines ld' = [] \<and> same_mode ld ld' \<and> (\<exists>sig. SigEmit sig \<in> set (ld_calls ld'))
    else try_isig_locked ld b = Some (False, ld)"
proof (cases hit)
  case False
  then show ?thesis by (auto simp: hit_def try_isig_locked_def)
next
  case True
  let ?cfg = "ld_cfg ld"
  define sig where "sig = (if b = c_vintr ?cfg then 2 else if b = c_vquit ?cfg then 3
                           else if b = c_vsusp ?cfg then 20 else 0 :: int)"
  have s: "sig \<noteq> 0" using True by (auto simp: sig_def hit_def)
  let ?d = "[94, (if sig = 2 then 67 else if sig = 3 then 92 else if sig = 20 then 90 else 63), NL] :: u8 list"
  have "unat (3 :: u32) \<le> length ?d" by simp
  from queue_echo_bytes_ok [OF ok this] obtain e cs where q:
    "queue_echo_signal_locked ld sig = Some (ld\<lparr>ld_echo_ring := e, ld_calls := ld_calls ld @ cs\<rparr>)"
    "rb_ok e" "rb_capacity e = LDISC_ECHO_CAP" unfolding queue_echo_signal_locked_def by metis
  let ?rx = "(ld_rx_ring ld)\<lparr>rb_count := 0, rb_head := 0, rb_tail := 0\<rparr>"
  let ?ld' = "ld\<lparr>ld_echo_ring := e, ld_rx_ring := ?rx, ld_line_len := 0, ld_canon_head := 0, ld_canon_tail := 0,
    ld_canon_count := 0, ld_calls := ld_calls ld @ cs @ [SigEmit sig]\<rparr>"
  have "try_isig_locked ld b = Some (True, ?ld')"
    using True s q(1) unfolding try_isig_locked_def sig_def [symmetric] Let_def hit_def
    by (simp add: put_rx_def ringbuf_clear_def ld_call_def)
  moreover have "ld_ok ?ld'" using ok q(2,3) by (simp add: ld_ok_def rb_ok_def)
  moreover have "ld_canon_ok ?ld'" "ld_edit ?ld' = []" "ld_lines ?ld' = []" "same_mode ld ?ld'"
    using can by (simp_all add: ld_canon_ok_def ld_lens_def ld_edit_def ld_lines_def same_mode_def)
  ultimately show ?thesis using True by auto
qed


lemma echo_keeps:
  assumes "ld_ok ld" "unat len \<le> length data"
  obtains ld' where "queue_echo_bytes_locked ld data len = Some ld'" "ld_ok ld'"
    "same_mode ld ld'" "ld_edit ld' = ld_edit ld" "ld_lines ld' = ld_lines ld"
    "ld_canon_ok ld' = ld_canon_ok ld" "rb_bytes (ld_rx_ring ld') = rb_bytes (ld_rx_ring ld)"
  using assms
proof (cases rule: queue_echo_bytes_ok)
  case (1 e cs)
  then show thesis using that ld_ok_echo_keep [OF assms(1)] by (simp add: same_mode_def)
qed

lemma erase_char_ok:
  assumes ok: "ld_ok ld" and can: "ld_canon_ok ld"
  shows "\<exists>ld'. erase_char ld = Some (True, ld') \<and> ld_ok ld' \<and> ld_canon_ok ld' \<and> same_mode ld ld' \<and>
    ld_edit ld' = butlast (ld_edit ld) \<and> ld_lines ld' = ld_lines ld"
proof (cases "ld_line_len ld > 0")
  case False
  then have "ld_line_len ld = 0" by (simp add: word_gt_0)
  then show ?thesis using ok can by (simp add: erase_char_def ld_edit_def same_mode_def)
next
  case True
  let ?ld1 = "ld\<lparr>ld_line_len := ld_line_len ld - 1\<rparr>"
  have n: "unat (ld_line_len ld - 1) = unat (ld_line_len ld) - 1"
    using True by (intro unat_minus_one) (simp add: word_gt_0)
  have ok1: "ld_ok ?ld1" "ld_canon_ok ?ld1" "ld_lines ?ld1 = ld_lines ld"
    using ok can n by (auto simp: ld_ok_def ld_canon_ok_def ld_lens_def ld_lines_def)
  have e1: "ld_edit ?ld1 = butlast (ld_edit ld)"
    using ok by (simp add: ld_ok_def ld_edit_def n butlast_take)
  have "unat (3 :: u32) \<le> length [8, 32, 8 :: u8]" by simp
  with ok1(1) show ?thesis
  proof (cases rule: echo_keeps)
    case (1 ld')
    then show ?thesis using True ok1 e1 by (simp add: erase_char_def queue_echo_erase_locked_def same_mode_def)
  qed
qed

lemma insert_char_ok:
  assumes ok: "ld_ok ld" and can: "ld_canon_ok ld"
  shows "\<exists>r ld'. insert_char ld b = Some (r, ld') \<and> ld_ok ld' \<and> ld_canon_ok ld' \<and> same_mode ld ld' \<and>
    r = (length (ld_edit ld) < 1024) \<and>
    ld_edit ld' = (if r then ld_edit ld @ [b] else ld_edit ld) \<and> ld_lines ld' = ld_lines ld"
proof -
  let ?len = "ld_line_len ld"
  have l: "length (ld_line_buf ld) = 1024" "unat ?len \<le> 1024" using ok by (simp_all add: ld_ok_def)
  have edit: "length (ld_edit ld) = unat ?len" using l by (simp add: ld_edit_def)
  show ?thesis
  proof (cases "unat ?len < 1024")
    case False
    then show ?thesis using ok can l edit by (auto simp: insert_char_def word_le_nat_alt same_mode_def)
  next
    case True
    let ?ld1 = "ld\<lparr>ld_line_buf := (ld_line_buf ld)[unat ?len := b], ld_line_len := ?len + 1\<rparr>"
    have n: "unat (?len + 1) = Suc (unat ?len)" using unat_plus_one [of ?len 1024] True by simp
    have ok1: "ld_ok ?ld1" "ld_canon_ok ?ld1" "ld_lines ?ld1 = ld_lines ld"
      using ok can n True by (auto simp: ld_ok_def ld_canon_ok_def ld_lens_def ld_lines_def)
    have e1: "ld_edit ?ld1 = ld_edit ld @ [b]"
      using l True by (simp add: ld_edit_def n take_Suc_conv_app_nth)
    have "unat (1 :: u32) \<le> length [b]" by simp
    with ok1(1) show ?thesis
    proof (cases rule: echo_keeps)
      case (1 ld')
      then show ?thesis
        using True ok1 e1 l edit
        by (auto simp: insert_char_def queue_echo_char_locked_def word_le_nat_alt same_mode_def)
    qed
  qed
qed

lemma receive_canonical_ok:
  assumes ok: "ld_ok ld" and can: "ld_canon_ok ld"
    and room: "input_map (ld_cfg ld) b = NL \<Longrightarrow> unat (ld_line_len ld) < 1024"
  shows "\<exists>r ld'. receive_byte_locked ld b = Some (r, ld') \<and> ld_ok ld' \<and> ld_canon_ok ld' \<and>
    same_mode ld ld' \<and>
    (r, ld_edit ld', ld_lines ld') = canon_spec (ld_cfg ld) (ld_sig_emit ld) b (ld_edit ld) (ld_lines ld)"
proof (cases "c_igncr (ld_cfg ld) \<and> b = CR")
  case True
  then have "receive_byte_locked ld b = Some (True, ld)" by (simp add: receive_byte_locked_def)
  then show ?thesis using True ok can by (auto simp: canon_spec_def same_mode_def)
next
  case no_ign: False
  let ?cfg = "ld_cfg ld"
  let ?b = "input_map ?cfg b"
  let ?sig = "c_isig ?cfg \<and> ld_sig_emit ld \<and> ?b \<in> {c_vintr ?cfg, c_vquit ?cfg, c_vsusp ?cfg}"
  let ?spec = "canon_spec ?cfg (ld_sig_emit ld) b (ld_edit ld) (ld_lines ld)"
  have can': "c_canonical ?cfg" using can by (simp add: ld_canon_ok_def)
  note isig = try_isig_ok [OF ok can, of ?b]
  have rb: "receive_byte_locked ld b =
      (if ?b = 0x08 \<or> ?b = 0x7F then erase_char ld
       else if ?b = c_veof ?cfg \<or> ?b = NL then commit_line ld ?b else insert_char ld ?b)" if "\<not> ?sig"
    using no_ign can' isig that unfolding receive_byte_locked_def input_map_def Let_def by (simp only: if_False) simp
  consider (sig) ?sig | (erase) "\<not> ?sig" "?b = 0x08 \<or> ?b = 0x7F"
    | (commit) "\<not> ?sig" "\<not> (?b = 0x08 \<or> ?b = 0x7F)" "?b = c_veof ?cfg \<or> ?b = NL"
    | (plain) "\<not> ?sig" "\<not> (?b = 0x08 \<or> ?b = 0x7F)" "\<not> (?b = c_veof ?cfg \<or> ?b = NL)" by argo
  then show ?thesis
  proof cases
    case sig
    then obtain ld' where t: "try_isig_locked ld ?b = Some (True, ld')" "ld_ok ld'" "ld_canon_ok ld'"
        "ld_edit ld' = []" "ld_lines ld' = []" "same_mode ld ld'" using isig by auto
    have "receive_byte_locked ld b = Some (True, ld')"
      using no_ign t(1) unfolding receive_byte_locked_def input_map_def Let_def by (simp only: if_False) simp
    moreover have "?spec = (True, [], [])" using sig no_ign by (auto simp: canon_spec_def Let_def)
    ultimately show ?thesis using t by auto
  next
    case erase
    have "?spec = (True, butlast (ld_edit ld), ld_lines ld)"
      using erase no_ign by (auto simp: canon_spec_def Let_def)
    then show ?thesis using erase_char_ok [OF ok can] rb [OF erase(1)] erase(2) by auto
  next
    case commit
    let ?line = "ld_edit ld @ (if ?b = NL then [NL] else [])"
    have "?spec = (if length (concat (ld_lines ld)) + length ?line \<le> 4096 \<and> length (ld_lines ld) < 128
        then (True, [], ld_lines ld @ [?line]) else (False, ld_edit ld, ld_lines ld))"
      using commit no_ign unfolding canon_spec_def Let_def by auto
    then show ?thesis
      using commit_line_ok [OF ok can, of ?b] room rb [OF commit(1)] commit(2,3) by (auto split: if_splits)
  next
    case plain
    have "?spec = (if length (ld_edit ld) < 1024 then (True, ld_edit ld @ [?b], ld_lines ld)
        else (False, ld_edit ld, ld_lines ld))"
      using plain no_ign unfolding canon_spec_def Let_def by auto
    then show ?thesis
      using insert_char_ok [OF ok can, of ?b] rb [OF plain(1)] plain(2,3) by auto
  qed
qed

section \<open>Reading lines\<close>

text \<open>The effect of taking \<open>k\<close> bytes of the first line on the list of lines.\<close>

definition take_line :: "nat \<Rightarrow> u8 list list \<Rightarrow> u8 list list" where
  "take_line k ls = (if k < length (hd ls) then drop k (hd ls) # tl ls else tl ls)"

lemma read_canonical_ok:
  assumes ok: "ld_ok ld" and can: "ld_canon_ok ld" and ne: "ld_lines ld \<noteq> []" and buf: "unat sz \<le> length out"
  defines "k \<equiv> min (unat sz) (length (hd (ld_lines ld)))"
  shows "\<exists>n ld'. read_canonical intr ld out sz = Some (Got n, take k (hd (ld_lines ld)) @ drop k out, ld') \<and>
    unat n = k \<and> ld_ok ld' \<and> ld_canon_ok ld' \<and> same_mode ld ld' \<and> ld_edit ld' = ld_edit ld \<and>
    ld_lines ld' = take_line k (ld_lines ld)"
proof -
  let ?lens = "ld_canon_lens ld" and ?t = "unat (ld_canon_tail ld)" and ?c = "unat (ld_canon_count ld)"
  let ?rx = "ld_rx_ring ld" and ?bs = "rb_bytes (ld_rx_ring ld)"
  define ll where "ll = ?lens ! ?t"
  define rest where "rest = map unat (tl (ring_bytes ?lens ?t ?c))"
  have f: "length ?lens = 128" "?t < 128" "?c \<le> 128" "0 < ?c" "rb_ok ?rx" "rb_capacity ?rx = 4096"
    using ok ne by (auto simp: ld_ok_def simp flip: length_greater_0_conv)
  have lens: "ld_lens ld = unat ll # rest"
    unfolding ld_lens_def ll_def rest_def by (subst ring_bytes_hd) (use f in simp_all)
  have sum: "unat ll + sum_list rest = length ?bs" using can lens by (simp add: ld_canon_ok_def)
  have lines: "ld_lines ld = take (unat ll) ?bs # chop rest (drop (unat ll) ?bs)"
    by (simp add: ld_lines_def lens)
  have k: "k = min (unat sz) (unat ll)" using sum by (simp add: k_def lines)
  define tc where "tc = (if sz < ll then sz else ll)"
  have tc: "unat tc = k" unfolding tc_def k by (rule unat_u32_min)
  have "unat tc \<le> length out" using tc k buf by simp
  moreover have "min (unat tc) (unat (rb_count ?rx)) = k" using tc k sum by simp
  ultimately obtain r' m where r:
    "ringbuf_read (Some ?rx) (Some out) tc = Some (m, Some (take k ?bs @ drop k out), Some r')"
    "rb_ok r'" "rb_capacity r' = rb_capacity ?rx" "rb_bytes r' = drop k ?bs"
    using ringbuf_read_spec [OF f(5), of tc out] by auto
  have out: "take k ?bs = take k (hd (ld_lines ld))" using k by (simp add: lines min_def)
  let ?ld1 = "ld\<lparr>ld_rx_ring := r', ld_calls := ld_calls ld @ [SignalWriteSem]\<rparr>"
  have cnt: "ld_canon_count ld > 0" "ld_canon_count ld \<noteq> 0"
    using f(4) by (auto simp: word_less_nat_alt)
  have get: "get_at ?lens ?t = Some ll" using f by (simp add: ll_def)
  show ?thesis
  proof (cases "tc < ll")
    case True
    let ?ld' = "?ld1\<lparr>ld_canon_lens := ?lens[?t := ll - tc]\<rparr>"
    have "unat (ll - tc) = unat ll - k" using True tc by (simp add: unat_sub_no_underflow word_less_nat_alt)
    then have lens': "ld_lens ?ld' = (unat ll - k) # rest"
      using ring_bytes_set_first [of ?t ?lens ?c "ll - tc"] f by (simp add: ld_lens_def rest_def)
    have kl: "k < unat ll" using True tc by (simp add: word_less_nat_alt)
    have "read_canonical intr ld out sz = Some (Got tc, take k ?bs @ drop k out, ?ld')"
      using cnt get r(1) True f unfolding read_canonical_def
      by (simp add: tc_def [symmetric] Let_def put_rx_def ld_call_def)
    moreover have "ld_ok ?ld'" using ok r by (simp add: ld_ok_def)
    moreover have "ld_canon_ok ?ld'" using can lens' r(4) sum kl by (simp add: ld_canon_ok_def)
    moreover have "ld_lines ?ld' = take_line k (ld_lines ld)"
      using lens' r(4) kl sum by (simp add: ld_lines_def lens take_line_def drop_take)
    moreover have "ld_edit ?ld' = ld_edit ld" "same_mode ld ?ld'" by (simp_all add: ld_edit_def same_mode_def)
    ultimately show ?thesis using tc out by auto
  next
    case False
    let ?ld' = "?ld1\<lparr>ld_canon_tail := (ld_canon_tail ld + 1) mod LDISC_MAX_LINES,
      ld_canon_count := ld_canon_count ld - 1\<rparr>"
    have kl: "k = unat ll" using False tc k by (simp add: word_less_nat_alt)
    have c1: "unat (ld_canon_count ld - 1) = ?c - 1" using cnt by (intro unat_minus_one) (simp add: word_gt_0)
    have t1: "unat ((ld_canon_tail ld + 1) mod LDISC_MAX_LINES) = Suc ?t mod 128"
      using unat_plus_one [of "ld_canon_tail ld" 128] f(2) by (simp add: unat_mod)
    have lens': "ld_lens ?ld' = rest"
      using ring_bytes_tl [of ?c ?lens ?t] f by (simp add: ld_lens_def rest_def c1 t1)
    have "read_canonical intr ld out sz = Some (Got tc, take k ?bs @ drop k out, ?ld')"
      using cnt get r(1) False unfolding read_canonical_def
      by (simp add: tc_def [symmetric] Let_def put_rx_def ld_call_def)
    moreover have "(Suc ?t mod 128 + (?c - 1)) mod 128 = (?t + ?c) mod 128"
      using ring_index_advance [of 1 ?c ?t 128] f(4) by simp
    then have "ld_ok ?ld'" using ok r f by (simp add: ld_ok_def c1 t1)
    moreover have "ld_canon_ok ?ld'" using can lens' r(4) sum kl by (simp add: ld_canon_ok_def)
    moreover have "ld_lines ?ld' = take_line k (ld_lines ld)"
      using lens' r(4) kl sum by (simp add: ld_lines_def lens take_line_def)
    moreover have "ld_edit ?ld' = ld_edit ld" "same_mode ld ?ld'" by (simp_all add: ld_edit_def same_mode_def)
    ultimately show ?thesis using tc out by auto
  qed
qed


section \<open>Waiting for input\<close>

text \<open>The line discipline after the wake-ups \<open>ws\<close>, and whether a signal is pending then.\<close>

fun woken :: "wake list \<Rightarrow> ldisc \<Rightarrow> ldisc" where
  "woken [] ld = ld"
| "woken ((step, t, p) # ws) ld = woken ws (step ld)"

fun pending_after :: "bool \<Rightarrow> wake list \<Rightarrow> bool" where
  "pending_after p [] = p"
| "pending_after p ((step, t, p') # ws) = pending_after p' ws"

definition keeps_canonical :: "wake \<Rightarrow> bool" where
  "keeps_canonical w \<longleftrightarrow> (\<forall>ld. ld_ok ld \<and> ld_canon_ok ld \<longrightarrow> ld_ok (fst w ld) \<and> ld_canon_ok (fst w ld))"

lemma keeps_canonicalD:
  "keeps_canonical (step, t, p) \<Longrightarrow> ld_ok ld \<Longrightarrow> ld_canon_ok ld \<Longrightarrow> ld_ok (step ld) \<and> ld_canon_ok (step ld)"
  by (simp add: keeps_canonical_def)

lemma ld_lines_count: "ld_lines ld \<noteq> [] \<longleftrightarrow> ld_canon_count ld > 0"
  by (simp add: word_less_nat_alt flip: length_greater_0_conv)

definition wait_outcome ::
    "wake list \<Rightarrow> bool \<Rightarrow> ldisc \<Rightarrow> wait_result \<times> bool \<times> reader \<times> ldisc \<Rightarrow> bool" where
  "wait_outcome ws pending ld res \<longleftrightarrow> (\<exists>ws1 rest. ws = ws1 @ rest \<and>
     (case res of (w, intr, rd, q) \<Rightarrow> q = woken ws1 ld \<and> ld_ok q \<and> ld_canon_ok q \<and>
       (if ld_lines q \<noteq> [] then w = WReady \<and> \<not> intr
        else if pending_after pending ws1 then w = WFailed \<and> intr
        else w = WAsleep \<and> rest = [])))"

lemma wait_outcome_now:
  "ld_ok ld \<Longrightarrow> ld_canon_ok ld \<Longrightarrow> ld_lines ld \<noteq> [] \<Longrightarrow> wait_outcome ws pending ld (WReady, False, rd, ld)"
  "ld_ok ld \<Longrightarrow> ld_canon_ok ld \<Longrightarrow> ld_lines ld = [] \<Longrightarrow> wait_outcome ws True ld (WFailed, True, rd, ld)"
  "ld_ok ld \<Longrightarrow> ld_canon_ok ld \<Longrightarrow> ld_lines ld = [] \<Longrightarrow> wait_outcome [] False ld (WAsleep, False, rd, ld)"
  unfolding wait_outcome_def by (rule exI [of _ "[]"]; simp)+

lemma wait_outcome_slept:
  assumes "wait_outcome ws p (step ld) res"
  shows "wait_outcome ((step, t, p) # ws) pending ld res"
proof -
  obtain ws1 rest where *: "ws = ws1 @ rest"
     "case res of (w, intr, rd, q) \<Rightarrow> q = woken ws1 (step ld) \<and> ld_ok q \<and> ld_canon_ok q \<and>
       (if ld_lines q \<noteq> [] then w = WReady \<and> \<not> intr
        else if pending_after p ws1 then w = WFailed \<and> intr
        else w = WAsleep \<and> rest = [])"
    using assms unfolding wait_outcome_def by blast
  show ?thesis
    unfolding wait_outcome_def
    by (rule exI [of _ "(step, t, p) # ws1"], rule exI [of _ rest]) (use * in \<open>cases res; simp\<close>)
qed

lemma wait_canonical:
  assumes "ld_ok ld" "ld_canon_ok ld" "list_all keeps_canonical ws"
  shows "wait_outcome ws pending ld (wait_for_data_locked NO_DEADLINE target ticks pending ws ld)"
  using assms
proof (induction ws arbitrary: ld ticks pending)
  case Nil
  then have "c_canonical (ld_cfg ld)" by (simp add: ld_canon_ok_def)
  then show ?case
    using Nil wait_outcome_now [of ld] ld_lines_count [of ld]
    by (cases "ld_canon_count ld > 0"; cases pending) (simp_all add: Let_def)
next
  case (Cons a ws)
  obtain step t p where a: "a = (step, t, p)" by (cases a) auto
  have can: "c_canonical (ld_cfg ld)" using Cons.prems by (simp add: ld_canon_ok_def)
  have s: "ld_ok (step ld)" "ld_canon_ok (step ld)" "list_all keeps_canonical ws"
    using Cons.prems a by (auto dest: keeps_canonicalD)
  note now = wait_outcome_now [OF Cons.prems(1,2)]
  show ?case
  proof (cases "ld_canon_count ld > 0 \<or> pending")
    case True
    then show ?thesis
      using now(1,2) can ld_lines_count [of ld] unfolding a
      by (cases "ld_canon_count ld > 0") (simp_all add: Let_def)
  next
    case False
    then have "wait_for_data_locked NO_DEADLINE target ticks pending (a # ws) ld =
        wait_for_data_locked NO_DEADLINE target t p ws (step ld)"
      using can by (simp add: a Let_def)
    then show ?thesis using wait_outcome_slept [of ws p step ld, OF Cons.IH [OF s, of p t]] by (simp add: a)
  qed
qed

text \<open>What a canonical read gives when it finds the lines of \<open>q\<close>.\<close>

definition line_read_outcome ::
    "u32 \<Rightarrow> u8 list \<Rightarrow> bool \<Rightarrow> ldisc \<Rightarrow> read_result \<Rightarrow> u8 list \<Rightarrow> ldisc \<Rightarrow> bool" where
  "line_read_outcome sz out pending q res out' ld' \<longleftrightarrow> ld_ok ld' \<and> ld_canon_ok ld' \<and> ld_edit ld' = ld_edit q \<and>
     (case ld_lines q of
        [] \<Rightarrow> out' = out \<and> ld_lines ld' = [] \<and> res = (if pending then Got EINTR_RESULT else Asleep)
      | line # _ \<Rightarrow>
          let k = min (unat sz) (length line)
          in (\<exists>n. res = Got n \<and> unat n = k) \<and> out' = take k line @ drop k out \<and>
             ld_lines ld' = take_line k (ld_lines q))"

lemma ldisc_read_canonical:
  assumes "ld_ok ld" "ld_canon_ok ld" "list_all keeps_canonical (r_wakes rd)" "0 < sz" "unat sz \<le> length out"
  shows "\<exists>ws1 rest res out' ld'. r_wakes rd = ws1 @ rest \<and>
    ldisc_read (Some ld) (Some out) sz rd = Some (res, Some out', Some ld') \<and>
    line_read_outcome sz out (pending_after (r_pending rd) ws1) (woken ws1 ld) res out' ld' \<and>
    (res = Asleep \<longrightarrow> rest = [])"
proof -
  obtain ws1 rest w intr rd1 q where r: "r_wakes rd = ws1 @ rest" "q = woken ws1 ld"
    "wait_for NO_DEADLINE 1 rd ld = (w, intr, rd1, q)" "ld_ok q" "ld_canon_ok q"
    "if ld_lines q \<noteq> [] then w = WReady \<and> \<not> intr
     else if pending_after (r_pending rd) ws1 then w = WFailed \<and> intr else w = WAsleep \<and> rest = []"
    using wait_canonical [OF assms(1-3), of "r_pending rd" 1 "r_ticks rd"]
    by (cases "wait_for NO_DEADLINE 1 rd ld") (auto simp: wait_outcome_def)
  have call: "ldisc_read (Some ld) (Some out) sz rd =
      (if w = WAsleep then Some (Asleep, Some out, Some q)
       else do { (n, out', ld2) \<leftarrow> read_canonical intr q out sz; Some (n, Some out', Some ld2) })"
    using assms(2,4) r(3) by (auto simp: ldisc_read_def ld_canon_ok_def)
  consider (line) "ld_lines q \<noteq> []" | (intr) "ld_lines q = []" "pending_after (r_pending rd) ws1"
    | (sleep) "ld_lines q = []" "\<not> pending_after (r_pending rd) ws1" by blast
  then show ?thesis
  proof cases
    case line
    obtain l ls where ls: "ld_lines q = l # ls" using line by (cases "ld_lines q") auto
    let ?k = "min (unat sz) (length (hd (ld_lines q)))"
    obtain n ld' where c: "read_canonical intr q out sz = Some (Got n, take ?k (hd (ld_lines q)) @ drop ?k out, ld')"
      "unat n = ?k" "ld_ok ld'" "ld_canon_ok ld'" "ld_edit ld' = ld_edit q" "ld_lines ld' = take_line ?k (ld_lines q)"
      using read_canonical_ok [OF r(4,5) line assms(5), of intr] by blast
    then have "ldisc_read (Some ld) (Some out) sz rd = Some (Got n, Some (take ?k (hd (ld_lines q)) @ drop ?k out), Some ld')"
      using call r(6) line by simp
    moreover have "line_read_outcome sz out (pending_after (r_pending rd) ws1) q (Got n)
        (take ?k (hd (ld_lines q)) @ drop ?k out) ld'"
      using c ls by (simp add: line_read_outcome_def Let_def)
    ultimately show ?thesis using r(1,2) by blast
  next
    case intr
    then have c0: "ld_canon_count q = 0" using ld_lines_count [of q] by (simp add: word_gt_0)
    have "ldisc_read (Some ld) (Some out) sz rd = Some (Got EINTR_RESULT, Some out, Some q)"
      using call r(6) intr c0 by (simp add: read_canonical_def)
    moreover have "line_read_outcome sz out (pending_after (r_pending rd) ws1) q (Got EINTR_RESULT) out q"
      using intr r(4,5) by (simp add: line_read_outcome_def)
    ultimately show ?thesis using r(1,2) by blast
  next
    case sleep
    have "ldisc_read (Some ld) (Some out) sz rd = Some (Asleep, Some out, Some q)"
      using call r(6) sleep by simp
    moreover have "line_read_outcome sz out (pending_after (r_pending rd) ws1) q Asleep out q"
      using sleep r(4,5) by (simp add: line_read_outcome_def)
    ultimately show ?thesis using r(1,2,6) sleep by auto
  qed
qed

section \<open>Typing and reading\<close>

fun canon_run ::
    "ldisc_config \<Rightarrow> bool \<Rightarrow> u8 list \<Rightarrow> u8 list \<Rightarrow> u8 list list \<Rightarrow> nat \<times> u8 list \<times> u8 list list" where
  "canon_run cfg sig [] edit lines = (0, edit, lines)"
| "canon_run cfg sig (b # bs) edit lines =
     (case canon_spec cfg sig b edit lines of (ok, e, ls) \<Rightarrow>
        if ok then (case canon_run cfg sig bs e ls of (n, r) \<Rightarrow> (Suc n, r)) else (0, e, ls))"

lemma canon_spec_edit:
  "canon_spec cfg sig b edit lines = (r, e, ls) \<Longrightarrow> length e \<le> Suc (length edit)"
  by (auto simp: canon_spec_def Let_def split: if_splits)

lemma canon_run_count: "fst (canon_run cfg sig bs edit lines) \<le> length bs"
  by (induction bs arbitrary: edit lines) (auto split: prod.splits, metis fst_conv)

lemma length_ld_edit: "ld_ok ld \<Longrightarrow> length (ld_edit ld) = unat (ld_line_len ld)"
  by (simp add: ld_ok_def ld_edit_def)

lemma receive_loop_ok:
  assumes "ld_ok ld" "ld_canon_ok ld" "length (ld_edit ld) + length bs \<le> 1024" "unat w + length bs < 2 ^ 32"
  shows "\<exists>n ld'. receive_loop ld bs w = Some (n, ld') \<and> ld_ok ld' \<and> ld_canon_ok ld' \<and> same_mode ld ld' \<and>
    (unat n - unat w, ld_edit ld', ld_lines ld') =
      canon_run (ld_cfg ld) (ld_sig_emit ld) bs (ld_edit ld) (ld_lines ld) \<and> unat w \<le> unat n"
  using assms
proof (induction bs arbitrary: ld w)
  case Nil
  then show ?case by (simp add: same_mode_def)
next
  case (Cons b bs)
  have "unat (ld_line_len ld) < 1024" using Cons.prems length_ld_edit [of ld] by simp
  from receive_canonical_ok [OF Cons.prems(1,2), of b] this
  obtain r ld1 where r: "receive_byte_locked ld b = Some (r, ld1)" "ld_ok ld1" "ld_canon_ok ld1" "same_mode ld ld1"
    "(r, ld_edit ld1, ld_lines ld1) = canon_spec (ld_cfg ld) (ld_sig_emit ld) b (ld_edit ld) (ld_lines ld)" by blast
  show ?case
  proof (cases r)
    case False
    then show ?thesis using r by (auto simp flip: r(5))
  next
    case True
    have w1: "unat (w + 1) = Suc (unat w)" using Cons.prems(4) unat_add_no_overflow [of w 1] by simp
    have "length (ld_edit ld1) + length bs \<le> 1024"
      using Cons.prems(3) canon_spec_edit [OF r(5) [symmetric]] by simp
    from Cons.IH [OF r(2,3) this, of "w + 1"] w1 Cons.prems(4) obtain n ld' where c:
      "receive_loop ld1 bs (w + 1) = Some (n, ld')" "ld_ok ld'" "ld_canon_ok ld'" "same_mode ld1 ld'"
      "(unat n - unat (w + 1), ld_edit ld', ld_lines ld') =
        canon_run (ld_cfg ld1) (ld_sig_emit ld1) bs (ld_edit ld1) (ld_lines ld1)" "unat (w + 1) \<le> unat n"
      by auto
    have m: "ld_cfg ld1 = ld_cfg ld" "ld_sig_emit ld1 = ld_sig_emit ld" using r(4) by (simp_all add: same_mode_def)
    have "canon_run (ld_cfg ld) (ld_sig_emit ld) (b # bs) (ld_edit ld) (ld_lines ld) =
        (Suc (unat n - unat (w + 1)), ld_edit ld', ld_lines ld')"
      using True c(5) [symmetric] by (simp add: r(5) [symmetric] m)
    then show ?thesis using True r(1,4) c w1 by (auto simp: same_mode_def)
  qed
qed

lemma ldisc_receive_ok:
  assumes "ld_ok ld" "ld_canon_ok ld" "length (ld_edit ld) + length bs \<le> 1024"
  shows "\<exists>n ld'. ldisc_receive (Some ld) (Some bs) = Some (n, Some ld') \<and> ld_ok ld' \<and> ld_canon_ok ld' \<and>
    same_mode ld ld' \<and>
    (unat n, ld_edit ld', ld_lines ld') = canon_run (ld_cfg ld) (ld_sig_emit ld) bs (ld_edit ld) (ld_lines ld)"
proof (cases "bs = []")
  case True
  then show ?thesis using assms by (simp add: ldisc_receive_def same_mode_def)
next
  case False
  from receive_loop_ok [OF assms, of 0] assms(3) obtain n ld' where
    r: "receive_loop ld bs 0 = Some (n, ld')" "ld_ok ld'" "ld_canon_ok ld'" "same_mode ld ld'"
      "(unat n, ld_edit ld', ld_lines ld') = canon_run (ld_cfg ld) (ld_sig_emit ld) bs (ld_edit ld) (ld_lines ld)"
    by auto
  let ?ld = "ld_call WakeReaders ld'"
  have "ldisc_receive (Some ld) (Some bs) = Some (n, Some ?ld)" using False r(1) by (simp add: ldisc_receive_def)
  moreover have "ld_ok ?ld" "ld_canon_ok ?ld" "same_mode ld ?ld" "ld_edit ?ld = ld_edit ld'" "ld_lines ?ld = ld_lines ld'"
    using r by (simp_all add: ld_call_def ld_ok_def ld_canon_ok_def ld_lens_def ld_edit_def ld_lines_def same_mode_def)
  ultimately show ?thesis using r(5) by auto
qed

text \<open>Bytes that go into the line as they are.\<close>

definition plain :: "ldisc_config \<Rightarrow> bool \<Rightarrow> u8 \<Rightarrow> bool" where
  "plain cfg sig b \<longleftrightarrow> input_map cfg b = b \<and> b \<notin> {0x08, 0x7F, NL, c_veof cfg} \<and>
     \<not> (c_igncr cfg \<and> b = CR) \<and> \<not> (c_isig cfg \<and> sig \<and> b \<in> {c_vintr cfg, c_vquit cfg, c_vsusp cfg})"

lemma canon_run_plain:
  assumes "list_all (plain cfg sig) l" "length edit + length l \<le> 1024"
  shows "canon_run cfg sig (l @ bs) edit lines =
    (case canon_run cfg sig bs (edit @ l) lines of (n, r) \<Rightarrow> (length l + n, r))"
  using assms
proof (induction l arbitrary: edit)
  case (Cons a l)
  then have "canon_spec cfg sig a edit lines = (True, edit @ [a], lines)"
    by (auto simp: plain_def canon_spec_def Let_def)
  then show ?case using Cons by (simp split: prod.splits)
qed simp

lemma canon_run_line:
  assumes "list_all (plain cfg sig) l" "length l < 1024" "input_map cfg NL = NL"
    and "\<not> (c_isig cfg \<and> sig \<and> NL \<in> {c_vintr cfg, c_vquit cfg, c_vsusp cfg})"
  shows "canon_run cfg sig (l @ [NL]) [] [] = (Suc (length l), [], [l @ [NL]])"
proof -
  have "canon_spec cfg sig NL l [] = (True, [], [l @ [NL]])"
    using assms(2-4) by (auto simp: canon_spec_def Let_def)
  then show ?thesis using canon_run_plain [OF assms(1), of "[]" "[NL]" "[]"] assms(2) by simp
qed

section \<open>The end of the line buffer\<close>

text \<open>
  \<open>line_buf_\<close> has \<open>LDISC_LINE_CAP\<close> bytes and an ordinary character is refused when it is full,
  but the newline that completes a full line is stored behind its last byte.
\<close>

definition line_overflow :: "ldisc \<Rightarrow> u8 \<Rightarrow> bool" where
  "line_overflow ld b \<longleftrightarrow> (let cfg = ld_cfg ld in
     input_map cfg b = NL \<and> \<not> (c_igncr cfg \<and> b = CR) \<and>
     \<not> (c_isig cfg \<and> ld_sig_emit ld \<and> NL \<in> {c_vintr cfg, c_vquit cfg, c_vsusp cfg}) \<and>
     ld_line_len ld = LDISC_LINE_CAP \<and> length (rb_bytes (ld_rx_ring ld)) + 1025 \<le> 4096 \<and>
     unat (ld_canon_count ld) < 128)"

lemma receive_byte_fault:
  assumes ok: "ld_ok ld" and can: "ld_canon_ok ld"
  shows "receive_byte_locked ld b = None \<longleftrightarrow> line_overflow ld b"
proof (cases "input_map (ld_cfg ld) b = NL \<and> \<not> unat (ld_line_len ld) < 1024")
  case False
  then have "receive_byte_locked ld b \<noteq> None"
    using receive_canonical_ok [OF ok can, of b] by auto
  moreover have "\<not> line_overflow ld b" using False by (auto simp: line_overflow_def Let_def)
  ultimately show ?thesis by blast
next
  case True
  let ?cfg = "ld_cfg ld"
  have len: "ld_line_len ld = 1024" using True ok by (simp add: ld_ok_def word_eq_nat_iff)
  have b: "(if c_icrnl ?cfg \<and> b = CR then NL else if c_inlcr ?cfg \<and> b = NL then CR else b) = NL"
    using True by (simp add: input_map_def)
  have sp: "ringbuf_free_space (Some (ld_rx_ring ld)) < 1025 \<longleftrightarrow> \<not> length (rb_bytes (ld_rx_ring ld)) + 1025 \<le> 4096"
    using rx_free_space [OF ok] by (auto simp: word_less_nat_alt)
  have "set_at (ld_line_buf ld) 1024 NL = None" using ok by (simp add: set_at_def ld_ok_def)
  then have commit: "commit_line ld NL = None \<longleftrightarrow>
      length (rb_bytes (ld_rx_ring ld)) + 1025 \<le> 4096 \<and> unat (ld_canon_count ld) < 128"
    using sp by (auto simp: commit_line_def Let_def len word_le_nat_alt)
  note isig = try_isig_ok [OF ok can, of NL]
  have can': "c_canonical ?cfg" using can by (simp add: ld_canon_ok_def)
  show ?thesis
  proof (cases "c_isig ?cfg \<and> ld_sig_emit ld \<and> NL \<in> {c_vintr ?cfg, c_vquit ?cfg, c_vsusp ?cfg}")
    case sig: True
    then obtain ld' where "try_isig_locked ld NL = Some (True, ld')" using isig by auto
    then have "receive_byte_locked ld b \<noteq> None"
      unfolding receive_byte_locked_def Let_def b by auto
    then show ?thesis using sig by (auto simp: line_overflow_def Let_def)
  next
    case sig: False
    then have "try_isig_locked ld NL = Some (False, ld)" using isig by argo
    then have "receive_byte_locked ld b = (if c_igncr ?cfg \<and> b = CR then Some (True, ld) else commit_line ld NL)"
      using can' unfolding receive_byte_locked_def Let_def b by simp
    then show ?thesis using commit sig len True by (auto simp: line_overflow_def Let_def)
  qed
qed

section \<open>Echo\<close>

lemma echo_worker_ok:
  assumes "rb_ok (ld_echo_ring ld)" "length buf = 128" "ld_echo_emit ld"
  shows "\<exists>ld' chunks. echo_worker_task ld buf = Some ld' \<and> rb_bytes (ld_echo_ring ld') = [] \<and>
    ld_calls ld' = ld_calls ld @ map EchoEmit chunks \<and> concat chunks = rb_bytes (ld_echo_ring ld) \<and>
    list_all (\<lambda>c. c \<noteq> [] \<and> length c \<le> 128) chunks"
  using assms
proof (induction "unat (rb_count (ld_echo_ring ld))" arbitrary: ld buf rule: less_induct)
  case less
  let ?r = "ld_echo_ring ld"
  let ?k = "min (unat (128 :: u32)) (unat (rb_count ?r))"
  have "unat (128 :: u32) \<le> length buf" using less.prems(2) by simp
  from ringbuf_read_spec [OF less.prems(1) this] obtain r' n where r:
    "ringbuf_read (Some ?r) (Some buf) 128 = Some (n, Some (take ?k (rb_bytes ?r) @ drop ?k buf), Some r')"
    "unat n = ?k" "rb_ok r'" "rb_bytes r' = drop ?k (rb_bytes ?r)" by blast
  show ?case
  proof (cases "n = 0")
    case True
    then have "?k = 0" using r(2) by simp
    then have "rb_bytes ?r = []" by (simp flip: length_0_conv)
    moreover have "echo_worker_task ld buf = Some (ld\<lparr>ld_echo_ring := r'\<rparr>)"
      using r(1) True by (subst echo_worker_task.simps) (simp add: put_echo_def)
    ultimately show ?thesis using r(4) by (auto intro!: exI [of _ "[]"])
  next
    case False
    let ?c = "take ?k (rb_bytes ?r)"
    let ?ld1 = "ld\<lparr>ld_echo_ring := r', ld_calls := ld_calls ld @ [EchoEmit ?c]\<rparr>"
    let ?buf = "?c @ drop ?k buf"
    have k: "0 < ?k" using False r(2) by (metis gr0I unat_eq_zero)
    have step: "echo_worker_task ld buf = echo_worker_task ?ld1 ?buf"
      using r(1,2) False less.prems(3)
      by (subst echo_worker_task.simps) (simp add: put_echo_def ld_call_def)
    have "unat (rb_count (ld_echo_ring ?ld1)) < unat (rb_count ?r)"
      using arg_cong [OF r(4), of length] k by simp
    from less.hyps [OF this, of ?buf] r(3) less.prems(2,3) obtain ld' chunks where c:
      "echo_worker_task ?ld1 ?buf = Some ld'" "rb_bytes (ld_echo_ring ld') = []"
      "ld_calls ld' = ld_calls ?ld1 @ map EchoEmit chunks" "concat chunks = rb_bytes (ld_echo_ring ?ld1)"
      "list_all (\<lambda>c. c \<noteq> [] \<and> length c \<le> 128) chunks" by auto
    have "?c \<noteq> []" "length ?c \<le> 128" using k by (auto simp flip: length_0_conv)
    then show ?thesis using c step r(4)
      by (intro exI [of _ ld'] exI [of _ "?c # chunks"]) simp
  qed
qed

section \<open>Output processing\<close>

definition onlcr :: "u8 list \<Rightarrow> u8 list" where
  "onlcr xs = concat (map (\<lambda>b. if b = NL then [CR, NL] else [b]) xs)"

text \<open>A callback that takes all bytes and appends them to a log.\<close>

definition sink :: "u8 list emit" where
  "sink c d = (word_of_nat (length d), c @ d)"

lemma sink_iff: "sink c d = (w, c') \<longleftrightarrow> w = word_of_nat (length d) \<and> c' = c @ d"
  by (auto simp: sink_def)

lemma onlcr_append: "onlcr (xs @ ys) = onlcr xs @ onlcr ys"
  by (simp add: onlcr_def)

lemma onlcr_plain: "NL \<notin> set xs \<Longrightarrow> onlcr xs = xs"
  by (induction xs) (auto simp: onlcr_def)

lemma transform_loop_sink:
  assumes "src = pre @ seg @ bs" "NL \<notin> set seg"
  shows "transform_loop sink src (length pre + length seg) (length pre) bs produced c =
    (produced + word_of_nat (length (onlcr (seg @ bs))), c @ onlcr (seg @ bs))"
  using assms
proof (induction bs arbitrary: pre seg produced c)
  case Nil
  then show ?case by (auto simp: sink_iff onlcr_plain split: prod.split)
next
  case (Cons b bs)
  show ?case
  proof (cases "b = NL")
    case False
    then show ?thesis using Cons.IH [of pre "seg @ [b]" produced c] Cons.prems by simp
  next
    case True
    have "transform_loop sink src (Suc (length pre + length seg)) (Suc (length pre + length seg)) bs p c' =
        (p + word_of_nat (length (onlcr bs)), c' @ onlcr bs)" for p c'
      using Cons.IH [of "pre @ seg @ [b]" "[]" p c'] Cons.prems by simp
    moreover have "onlcr (seg @ NL # bs) = seg @ [CR, NL] @ onlcr bs"
      using onlcr_append [of seg "NL # bs"] onlcr_plain [OF Cons.prems(2)] by (simp add: onlcr_def)
    ultimately show ?thesis using True Cons.prems(1)
      by (auto simp: sink_iff split: prod.split)
  qed
qed

lemma write_transform_sink:
  assumes "c_opost (ld_cfg ld)" "c_onlcr (ld_cfg ld)"
  shows "ldisc_write_transform (Some ld) (Some src) (Some sink) c = (word_of_nat (length (onlcr src)), c @ onlcr src)"
  using assms transform_loop_sink [of src "[]" "[]" src 0 c]
  by (auto simp: ldisc_write_transform_def onlcr_def)

section \<open>Mode changes during a raw read\<close>

text \<open>
  The loop of a raw read with \<open>VMIN\<close> and \<open>VTIME\<close> does not end when the terminal has been switched to
  canonical mode, a line is complete, and fewer than \<open>VMIN\<close> bytes are stored: the wait returns at
  once because of the line and the number of bytes does not change. The loop runs with the
  lock held.
\<close>

lemma vmin_loop_diverges:
  assumes "c_canonical (ld_cfg ld)" "ld_canon_count ld > 0" "rb_count (ld_rx_ring ld) < vmin"
  shows "vmin_loop vmin vtime intr rd ld = None"
proof -
  have "\<not> (c_canonical (ld_cfg ld) \<and> ld_canon_count ld > 0 \<and> rb_count (ld_rx_ring ld) < vmin)"
    if "vmin_loop vmin vtime intr rd ld = Some res" for res
    using that
  proof (induction rule: vmin_loop.raw_induct [rotated, consumes 1])
    case (1 vmin_loop vmin vtime intr rd ld res)
    show ?case
    proof
      assume a: "c_canonical (ld_cfg ld) \<and> ld_canon_count ld > 0 \<and> rb_count (ld_rx_ring ld) < vmin"
      then have "wait_for_data_locked d t k p ws ld = (WReady, False, \<lparr>r_ticks = k, r_pending = p, r_wakes = ws\<rparr>, ld)" for d t k p ws
        by (cases ws) (auto simp: Let_def)
      then have "vmin_loop vmin vtime intr \<lparr>r_ticks = r_ticks rd, r_pending = r_pending rd, r_wakes = r_wakes rd\<rparr> ld = Some res"
        using 1(2) a by (simp add: Let_def ringbuf_size_def)
      from 1(1) [OF this] a show False by blast
    qed
  qed
  then show ?thesis using assms by (cases "vmin_loop vmin vtime intr rd ld") blast+
qed

section \<open>Properties\<close>

text \<open>The line discipline that \<open>ldisc_create\<close> returns.\<close>

definition fresh_ldisc :: ldisc where
  "fresh_ldisc = (case ldisc_create True True of Some (Some ld) \<Rightarrow> ld)"

lemma fresh_ldisc:
  "ldisc_create True True = Some (Some fresh_ldisc)" "ld_ok fresh_ldisc" "ld_canon_ok fresh_ldisc"
  "ld_edit fresh_ldisc = []" "ld_lines fresh_ldisc = []" "ld_line_len fresh_ldisc = 0"
  "ld_cfg fresh_ldisc = \<lparr>c_canonical = True, c_echo = True, c_onlcr = True, c_igncr = False, c_icrnl = True,
     c_inlcr = False, c_opost = True, c_vmin = 1, c_vtime = 0, c_isig = False,
     c_vintr = 0x03, c_vquit = 0x1C, c_vsusp = 0x1A, c_veof = 0x04\<rparr>" "\<not> ld_sig_emit fresh_ldisc"
proof -
  have i: "ringbuf_init (Some zero_ring) (Some (replicate 4096 0)) 4096 =
      Some (Some \<lparr>rb_buffer = replicate 4096 0, rb_capacity = 4096, rb_count = 0, rb_head = 0, rb_tail = 0\<rparr>)"
    by (simp add: ringbuf_init_def zero_ring_def)
  show "ldisc_create True True = Some (Some fresh_ldisc)"
    by (simp add: fresh_ldisc_def ldisc_create_def Let_def i)
  show "ld_ok fresh_ldisc" "ld_canon_ok fresh_ldisc" "ld_edit fresh_ldisc = []" "ld_lines fresh_ldisc = []"
    "ld_line_len fresh_ldisc = 0" "\<not> ld_sig_emit fresh_ldisc"
    by (simp_all add: fresh_ldisc_def ldisc_create_def Let_def i put_rx_def put_echo_def ld_ok_def rb_ok_def
        ld_canon_ok_def ld_lens_def ld_edit_def ld_lines_def rb_bytes_def)
  show "ld_cfg fresh_ldisc = \<lparr>c_canonical = True, c_echo = True, c_onlcr = True, c_igncr = False, c_icrnl = True,
     c_inlcr = False, c_opost = True, c_vmin = 1, c_vtime = 0, c_isig = False,
     c_vintr = 0x03, c_vquit = 0x1C, c_vsusp = 0x1A, c_veof = 0x04\<rparr>"
    by (simp add: fresh_ldisc_def ldisc_create_def Let_def i put_rx_def put_echo_def)
qed

text \<open>
  C15: In canonical mode the line discipline implements a terminal: for any input that fits the
  line buffer, \<open>ldisc_receive\<close> accepts exactly the bytes the specification \<open>canon_run\<close> accepts and
  leaves the specified edited line and completed lines, with CR/NL mapping, erase, end of
  file, signals, and the limits on bytes and lines.
\<close>

theorem ldisc_receive_refines:
  assumes "ld_ok ld" "ld_canon_ok ld" "length (ld_edit ld) + length bs \<le> 1024"
  shows "\<exists>n ld'. ldisc_receive (Some ld) (Some bs) = Some (n, Some ld') \<and> ld_ok ld' \<and> ld_canon_ok ld' \<and>
    (unat n, ld_edit ld', ld_lines ld') = canon_run (ld_cfg ld) (ld_sig_emit ld) bs (ld_edit ld) (ld_lines ld)"
  using ldisc_receive_ok [OF assms] by blast

theorem ldisc_receive_refines_witness:
  "\<exists>n ld'. ldisc_receive (Some fresh_ldisc) (Some [104, 105, 127, 13]) = Some (n, Some ld') \<and>
     unat n = 4 \<and> ld_edit ld' = [] \<and> ld_lines ld' = [[104, NL]]"
  using ldisc_receive_refines [OF fresh_ldisc(2,3), of "[104, 105, 127, 13]"]
  by (auto simp: fresh_ldisc canon_spec_def input_map_def Let_def)

text \<open>
  C16: A canonical read returns at most one line: it copies the first completed line, or as much of
  it as was asked for, and keeps the rest for the next read. It sleeps exactly
  while no line is complete and no signal is pending, and returns -2 when a signal is.
\<close>

theorem ldisc_read_line:
  assumes "ld_ok ld" "ld_canon_ok ld" "list_all keeps_canonical (r_wakes rd)" "0 < sz" "unat sz \<le> length out"
  shows "\<exists>ws1 rest res out' ld'. r_wakes rd = ws1 @ rest \<and>
    ldisc_read (Some ld) (Some out) sz rd = Some (res, Some out', Some ld') \<and>
    line_read_outcome sz out (pending_after (r_pending rd) ws1) (woken ws1 ld) res out' ld' \<and>
    (res = Asleep \<longrightarrow> rest = [])"
  by (rule ldisc_read_canonical [OF assms])

theorem ldisc_read_line_witness:
  "\<exists>out' ld'. ldisc_read (Some fresh_ldisc) (Some [0, 0]) 2 \<lparr>r_ticks = 0, r_pending = True, r_wakes = []\<rparr> =
     Some (Got EINTR_RESULT, Some out', Some ld') \<and> out' = [0, 0]"
  using ldisc_read_line [OF fresh_ldisc(2,3), of "\<lparr>r_ticks = 0, r_pending = True, r_wakes = []\<rparr>" 2 "[0, 0]"]
  by (auto simp: line_read_outcome_def fresh_ldisc)

text \<open>
  C17: What is typed is what is read: a line of at most 1023 ordinary characters followed by a newline,
  typed on an idle canonical terminal, is returned complete by the next read with a large enough
  buffer, which then leaves no line behind.
\<close>

theorem ldisc_line_roundtrip:
  assumes ld: "ld_ok ld" "ld_canon_ok ld" "ld_edit ld = []" "ld_lines ld = []"
    and l: "list_all (plain (ld_cfg ld) (ld_sig_emit ld)) l" "length l < 1024"
    and nl: "input_map (ld_cfg ld) NL = NL"
      "\<not> (c_isig (ld_cfg ld) \<and> ld_sig_emit ld \<and> NL \<in> {c_vintr (ld_cfg ld), c_vquit (ld_cfg ld), c_vsusp (ld_cfg ld)})"
    and out: "length l < unat sz" "unat sz \<le> length out"
  shows "\<exists>n ld1 ld2. ldisc_receive (Some ld) (Some (l @ [NL])) = Some (n, Some ld1) \<and>
    ldisc_read (Some ld1) (Some out) sz \<lparr>r_ticks = t, r_pending = p, r_wakes = []\<rparr> =
      Some (Got n, Some (l @ [NL] @ drop (Suc (length l)) out), Some ld2) \<and>
    unat n = Suc (length l) \<and> ld_lines ld2 = []"
proof -
  let ?rd = "\<lparr>r_ticks = t, r_pending = p, r_wakes = []\<rparr>"
  have "length (ld_edit ld) + length (l @ [NL]) \<le> 1024" using ld(3) l(2) by simp
  from ldisc_receive_ok [OF ld(1,2) this] canon_run_line [OF l nl] ld(3,4)
  obtain n ld1 where r: "ldisc_receive (Some ld) (Some (l @ [NL])) = Some (n, Some ld1)" "ld_ok ld1" "ld_canon_ok ld1"
    "unat n = Suc (length l)" "ld_lines ld1 = [l @ [NL]]" by auto
  have "0 < sz" using out(1) by (simp add: word_less_nat_alt)
  from ldisc_read_canonical [OF r(2,3) _ this out(2), of ?rd]
  obtain res out' ld2 where c: "ldisc_read (Some ld1) (Some out) sz ?rd = Some (res, Some out', Some ld2)"
    "line_read_outcome sz out p ld1 res out' ld2" by auto
  then have "\<exists>m. res = Got m \<and> unat m = Suc (length l)" "out' = l @ [NL] @ drop (Suc (length l)) out"
      "ld_lines ld2 = []"
    using out(1) r(5) by (auto simp: line_read_outcome_def Let_def take_line_def)
  moreover have "m = n" if "unat m = Suc (length l)" for m using that r(4) by (simp add: word_eq_nat_iff)
  ultimately show ?thesis using r(1,4) c(1) by blast
qed

theorem ldisc_line_roundtrip_witness:
  "\<exists>n ld1 ld2. ldisc_receive (Some fresh_ldisc) (Some ([104, 105] @ [NL])) = Some (n, Some ld1) \<and>
    ldisc_read (Some ld1) (Some [0, 0, 0, 0]) 4 \<lparr>r_ticks = 0, r_pending = False, r_wakes = []\<rparr> =
      Some (Got n, Some ([104, 105] @ [NL] @ drop (Suc (length [104, 105 :: u8])) [0, 0, 0, 0]), Some ld2) \<and>
    unat n = Suc (length [104, 105 :: u8]) \<and> ld_lines ld2 = []"
  by (rule ldisc_line_roundtrip) (simp_all add: fresh_ldisc plain_def input_map_def)

text \<open>
  C18: Processing an input byte in canonical mode stays inside the buffers with exactly one exception:
  a newline that completes a line of \<open>LDISC_LINE_CAP\<close> characters.
\<close>

theorem ldisc_byte_memory_safe:
  assumes "ld_ok ld" "ld_canon_ok ld"
  shows "receive_byte_locked ld b = None \<longleftrightarrow> line_overflow ld b"
  by (rule receive_byte_fault [OF assms])

theorem ldisc_byte_memory_safe_witness:
  "receive_byte_locked fresh_ldisc NL \<noteq> None"
  using ldisc_byte_memory_safe [OF fresh_ldisc(2,3), of NL] by (auto simp: line_overflow_def fresh_ldisc Let_def)

text \<open>
  The echo work item terminates, empties the echo ring, and hands its bytes to the callback in
  order, in non-empty pieces of at most 128 bytes.
\<close>

theorem ldisc_echo_drains:
  assumes "rb_ok (ld_echo_ring ld)" "length buf = 128" "ld_echo_emit ld"
  shows "\<exists>ld' chunks. echo_worker_task ld buf = Some ld' \<and> rb_bytes (ld_echo_ring ld') = [] \<and>
    ld_calls ld' = ld_calls ld @ map EchoEmit chunks \<and> concat chunks = rb_bytes (ld_echo_ring ld) \<and>
    list_all (\<lambda>c. c \<noteq> [] \<and> length c \<le> 128) chunks"
  by (rule echo_worker_ok [OF assms])

theorem ldisc_echo_drains_witness:
  "\<exists>ld' chunks. echo_worker_task (fresh_ldisc\<lparr>ld_echo_emit := True\<rparr>) (replicate 128 0) = Some ld' \<and>
     concat chunks = rb_bytes (ld_echo_ring fresh_ldisc)"
  using ldisc_echo_drains [of "fresh_ldisc\<lparr>ld_echo_emit := True\<rparr>" "replicate 128 0"] fresh_ldisc(2)
  by (auto simp: ld_ok_def)

text \<open>
  With output processing on, everything written comes out once and in order with every newline
  preceded by a carriage return, when the callback takes all it is given; the result is the number of
  bytes produced.
\<close>

theorem ldisc_output_onlcr:
  assumes "c_opost (ld_cfg ld)" "c_onlcr (ld_cfg ld)"
  shows "ldisc_write_transform (Some ld) (Some src) (Some sink) c = (word_of_nat (length (onlcr src)), c @ onlcr src)"
  by (rule write_transform_sink [OF assms])

theorem ldisc_output_onlcr_witness:
  "ldisc_write_transform (Some fresh_ldisc) (Some [97, NL, 98]) (Some sink) [] = (4, [97, CR, NL, 98])"
  using ldisc_output_onlcr [of fresh_ldisc "[97, NL, 98]" "[]"] by (simp add: fresh_ldisc onlcr_def)

section \<open>Deviations\<close>

text \<open>The overflow is reachable: 1024 characters and a newline, typed on a fresh terminal.\<close>

lemma ldisc_line_overflow_reachable:
  "\<exists>ld1. ldisc_receive (Some fresh_ldisc) (Some (replicate 1024 97)) = Some (1024, Some ld1) \<and>
     ldisc_receive (Some ld1) (Some [NL]) = None"
proof -
  let ?cfg = "ld_cfg fresh_ldisc"
  have pl: "list_all (plain ?cfg False) (replicate 1024 97)"
    by (simp add: list_all_iff fresh_ldisc plain_def input_map_def)
  have "canon_run ?cfg False (replicate 1024 97) [] [] = (1024, replicate 1024 97, [])"
    using canon_run_plain [OF pl, of "[]" "[]" "[]"] by simp
  moreover have "length (ld_edit fresh_ldisc) + length (replicate 1024 (97 :: u8)) \<le> 1024" by (simp add: fresh_ldisc)
  ultimately obtain n ld1 where r: "ldisc_receive (Some fresh_ldisc) (Some (replicate 1024 97)) = Some (n, Some ld1)"
    "ld_ok ld1" "ld_canon_ok ld1" "same_mode fresh_ldisc ld1" "unat n = 1024" "ld_edit ld1 = replicate 1024 97" "ld_lines ld1 = []"
    using ldisc_receive_ok [OF fresh_ldisc(2,3), of "replicate 1024 97"] fresh_ldisc(4,5,8) by auto
  have len: "ld_line_len ld1 = 1024"
    using length_ld_edit [OF r(2)] r(6) by (simp add: word_eq_nat_iff)
  have "rb_bytes (ld_rx_ring ld1) = []" using ld_lines_concat [OF r(3)] r(7) by simp
  moreover have "ld_canon_count ld1 = 0" using length_ld_lines [of ld1] r(7) by (simp add: unat_eq_zero)
  moreover have "ld_cfg ld1 = ?cfg" "\<not> ld_sig_emit ld1" using r(4) fresh_ldisc(8) by (simp_all add: same_mode_def)
  ultimately have "line_overflow ld1 NL"
    using len by (simp add: line_overflow_def Let_def fresh_ldisc(7) input_map_def flip: length_rb_bytes)
  then have "receive_byte_locked ld1 NL = None" using receive_byte_fault [OF r(2,3)] by simp
  then show ?thesis using r(1,5) by (auto simp: ldisc_receive_def word_eq_nat_iff)
qed

text \<open>
  The recorded line lengths are not adjusted by a raw read. After a switch to raw mode and back, a
  canonical read reports the length of a line whose bytes are gone, without writing the buffer.
\<close>

lemma read_stale_line:
  assumes "ld_ok ld" "rb_bytes (ld_rx_ring ld) = []" "ld_canon_count ld > 0"
    and "ld_canon_lens ld ! unat (ld_canon_tail ld) \<le> sz"
  shows "\<exists>ld'. read_canonical intr ld out sz = Some (Got (ld_canon_lens ld ! unat (ld_canon_tail ld)), out, ld')"
proof -
  let ?n = "ld_canon_lens ld ! unat (ld_canon_tail ld)"
  have c: "rb_count (ld_rx_ring ld) = 0" using arg_cong [OF assms(2), of length] by (simp add: unat_eq_zero)
  have "ringbuf_read (Some (ld_rx_ring ld)) (Some out) ?n = Some (0, Some out, Some (ld_rx_ring ld))"
    by (simp add: ringbuf_read_def c word_gt_0)
  moreover have "get_at (ld_canon_lens ld) (unat (ld_canon_tail ld)) = Some ?n"
    using assms(1) by (simp add: ld_ok_def)
  moreover have "ld_canon_count ld \<noteq> 0" using assms(3) by (simp add: word_gt_0)
  moreover have "\<not> sz < ?n" using assms(4) by simp
  ultimately show ?thesis using assms(3) by (auto simp: read_canonical_def Let_def)
qed

end
