(* ===== verification/Memory.thy ===== *)
theory Memory
  imports Prelude
begin

text \<open>
  Byte-addressed memory of the 32-bit machine for the code that works on raw addresses: a partial map from
  addresses to bytes, where \<open>None\<close> is an address that is not mapped and whose access
  faults. Word accesses are little endian and may be unaligned. The theory has the
  \<open>get\<close>/\<open>put\<close> view of address ranges that the routines on strings and memory blocks are specified with,
  and the test for a zero byte inside a word that they share.
\<close>

type_synonym mem = "u32 \<Rightarrow> u8 option"

section \<open>Accesses\<close>

definition st8 :: "mem \<Rightarrow> u32 \<Rightarrow> u8 \<Rightarrow> mem option" where
  "st8 m a v = (if m a = None then None else Some (m(a := Some v)))"

definition le32 :: "u8 \<Rightarrow> u8 \<Rightarrow> u8 \<Rightarrow> u8 \<Rightarrow> u32" where
  "le32 b0 b1 b2 b3 =
     ucast b0 OR push_bit 8 (ucast b1) OR push_bit 16 (ucast b2) OR push_bit 24 (ucast b3)"

definition byte :: "nat \<Rightarrow> u32 \<Rightarrow> u8" where
  "byte i v = ucast (drop_bit (8 * i) v)"

definition ld32 :: "mem \<Rightarrow> u32 \<Rightarrow> u32 option" where
  "ld32 m a = do {
     b0 \<leftarrow> m a; b1 \<leftarrow> m (a + 1); b2 \<leftarrow> m (a + 2); b3 \<leftarrow> m (a + 3);
     Some (le32 b0 b1 b2 b3)
   }"

definition st32 :: "mem \<Rightarrow> u32 \<Rightarrow> u32 \<Rightarrow> mem option" where
  "st32 m a v = do {
     m1 \<leftarrow> st8 m a (byte 0 v); m2 \<leftarrow> st8 m1 (a + 1) (byte 1 v);
     m3 \<leftarrow> st8 m2 (a + 2) (byte 2 v); st8 m3 (a + 3) (byte 3 v)
   }"

section \<open>Words and their bytes\<close>

lemma bit_le32:
  "bit (le32 b0 b1 b2 b3) n \<longleftrightarrow>
     (n < 8 \<and> bit b0 n) \<or> (8 \<le> n \<and> n < 16 \<and> bit b1 (n - 8)) \<or>
     (16 \<le> n \<and> n < 24 \<and> bit b2 (n - 16)) \<or> (24 \<le> n \<and> n < 32 \<and> bit b3 (n - 24))"
  by (auto simp: le32_def bit_simps dest: bit_imp_le_length)

lemma bit_byte: "bit (byte i v) n \<longleftrightarrow> n < 8 \<and> bit v (8 * i + n)"
  by (auto simp: byte_def bit_simps dest: bit_imp_le_length)

lemma byte_le32 [simp]:
  "byte 0 (le32 b0 b1 b2 b3) = b0" "byte (Suc 0) (le32 b0 b1 b2 b3) = b1"
  "byte 2 (le32 b0 b1 b2 b3) = b2" "byte 3 (le32 b0 b1 b2 b3) = b3"
  by (rule bit_word_eqI; simp add: bit_byte bit_le32)+

lemma le32_byte [simp]: "le32 (byte 0 v) (byte (Suc 0) v) (byte 2 v) (byte 3 v) = v"
proof (rule bit_word_eqI)
  fix n assume "n < LENGTH(32)"
  then consider "n < 8" | "8 \<le> n" "n < 16" | "16 \<le> n" "n < 24" | "24 \<le> n" "n < 32" by force
  then show "bit (le32 (byte 0 v) (byte (Suc 0) v) (byte 2 v) (byte 3 v)) n = bit v n"
    by cases (auto simp: bit_byte bit_le32)
qed

lemma le32_inject [simp]:
  "le32 a0 a1 a2 a3 = le32 b0 b1 b2 b3 \<longleftrightarrow> a0 = b0 \<and> a1 = b1 \<and> a2 = b2 \<and> a3 = b3"
  by (metis byte_le32)

lemma unat_byte: "unat (byte i v) = unat v div 2 ^ (8 * i) mod 256"
proof -
  have "unat v mod 4294967296 = unat v" using unat_u32_less [of v] by simp
  then show ?thesis
    unfolding byte_def unsigned_ucast_eq unsigned_drop_bit_eq by (simp add: drop_bit_eq_div take_bit_eq_mod)
qed

lemma bit7_iff: "bit (b :: u8) 7 \<longleftrightarrow> 128 \<le> unat b"
proof -
  have "bit b 7 \<longleftrightarrow> bit (unat b) 7" by (simp add: bit_unsigned_iff)
  also have "\<dots> \<longleftrightarrow> odd (unat b div 128)" by (simp add: bit_iff_odd)
  also have "\<dots> \<longleftrightarrow> 128 \<le> unat b"
    using unat_u8_less [of b] div_nat_eqI [of 128 1 "unat b"] by (cases "unat b < 128") auto
  finally show ?thesis .
qed

lemma word_bytes:
  "unat v = unat (byte 0 v) + 256 * (unat (byte (Suc 0) v) + 256 * (unat (byte 2 v) + 256 * unat (byte 3 v)))"
proof -
  have "V = V mod 256 + 256 * (V div 256 mod 256 + 256 * (V div 65536 mod 256 + 256 * (V div 16777216 mod 256)))"
    if "V < 4294967296" for V :: nat
  proof -
    have "V div 65536 = V div 256 div 256" "V div 16777216 = V div 256 div 256 div 256"
      by (simp_all add: div_mult2_eq [symmetric])
    moreover have "V div 16777216 < 256" using that by (simp add: div_less_iff_less_mult)
    ultimately show ?thesis
      using mod_mult_div_eq [of V 256] mod_mult_div_eq [of "V div 256" 256]
        mod_mult_div_eq [of "V div 256 div 256" 256] by simp
  qed
  then show ?thesis using unat_u32_less [of v] by (simp add: unat_byte)
qed

lemma borrow_step:
  fixes b x B X :: nat
  assumes "b + 256 * B = x + 256 * X + 1" "b < 256" "x < 256"
  shows "x = (if b = 0 then 255 else b - 1)" "b \<noteq> 0 \<Longrightarrow> B = X"
proof -
  have e: "b + B * 256 = (x + 1) + X * 256" using assms(1) by simp
  have "b = (x + 1) mod 256" using arg_cong [OF e, of "\<lambda>v. v mod 256"] assms(2) by simp
  moreover have "B = (x + 1) div 256 + X" using arg_cong [OF e, of "\<lambda>v. v div 256"] assms(2) by simp
  ultimately show "x = (if b = 0 then 255 else b - 1)" "b \<noteq> 0 \<Longrightarrow> B = X"
    using assms(3) by (cases "x = 255"; simp)+
qed

section \<open>The test for a zero byte\<close>

text \<open>
  The test \<open>(v - 0x01010101) & ~v & 0x80808080\<close> finds a zero byte. Its flag in byte \<open>i\<close> is
  exact when no lower byte is zero, which is enough to decide whether there is one.
\<close>

definition has_zero :: "u32 \<Rightarrow> u32" where
  "has_zero v = (v - 0x01010101) AND NOT v AND 0x80808080"

lemma bit_mask80: "bit (0x80808080 :: u32) n \<longleftrightarrow> n = 7 \<or> n = 15 \<or> n = 23 \<or> n = 31"
proof -
  have b8: "bit (0x80 :: u8) k \<longleftrightarrow> k = 7" for k
  proof -
    have "(0x80 :: u8) = push_bit 7 1" by simp
    then show ?thesis by (simp only: bit_push_bit_iff) (auto simp: bit_1_iff)
  qed
  have "(0x80808080 :: u32) = le32 0x80 0x80 0x80 0x80" by (simp add: le32_def)
  then show ?thesis by (simp only: bit_le32 b8) auto
qed

lemma all_less_4: "(\<forall>i < (4 :: nat). P i) \<longleftrightarrow> P 0 \<and> P (Suc 0) \<and> P 2 \<and> P 3"
  by (auto simp: numeral_eq_Suc less_Suc_eq)

lemma has_zero_bytes:
  "has_zero v = 0 \<longleftrightarrow> (\<forall>i < 4. \<not> (bit (byte i (v - 0x01010101)) 7 \<and> \<not> bit (byte i v) 7))"
proof -
  have "has_zero v = 0 \<longleftrightarrow> (\<forall>n. \<not> bit (has_zero v) n)" by (metis bit_0_eq bit_eqI bot_apply bot_bool_def)
  also have "\<dots> \<longleftrightarrow> (\<forall>n \<in> {7, 15, 23, 31}. \<not> (bit (v - 0x01010101) n \<and> \<not> bit v n))"
    unfolding has_zero_def bit_and_iff bit_not_iff bit_mask80 by fastforce
  also have "\<dots> \<longleftrightarrow> (\<forall>i < 4. \<not> (bit (byte i (v - 0x01010101)) 7 \<and> \<not> bit (byte i v) 7))"
    unfolding all_less_4 by (simp add: bit_byte)
  finally show ?thesis .
qed

lemma has_zero_iff:
  "has_zero v = 0 \<longleftrightarrow> byte 0 v \<noteq> 0 \<and> byte (Suc 0) v \<noteq> 0 \<and> byte 2 v \<noteq> 0 \<and> byte 3 v \<noteq> 0"
proof -
  let ?w = "v - 0x01010101"
  let ?x = "\<lambda>i. unat (byte i ?w)" and ?b = "\<lambda>i. unat (byte i v)"
  have lt: "?x i < 256" "?b i < 256" for i by (rule unat_u8_less)+
  have "unat v = (unat ?w + 16843009) mod 4294967296"
    using unat_word_ariths(1) [of ?w "0x01010101"] by simp
  then obtain q where "unat v + 4294967296 * q = unat ?w + 16843009"
    using mod_mult_div_eq [of "unat ?w + 16843009" 4294967296] by (metis)
  then have "?b 0 + 256 * (?b (Suc 0) + 256 * (?b 2 + 256 * (?b 3 + 256 * q))) =
      ?x 0 + 256 * (?x (Suc 0) + 256 * (?x 2 + 256 * (?x 3 + 256 * 0 + 1) + 1) + 1) + 1"
    unfolding word_bytes [of v] word_bytes [of ?w] by simp
  note s0 = borrow_step [OF this lt(2) lt(1)]
  note s1 = borrow_step [OF s0(2) lt(2) lt(1)]
  note s2 = borrow_step [OF s1(2) lt(2) lt(1)]
  note s3 = borrow_step [OF s2(2) lt(2) lt(1)]
  have flag: "(128 \<le> x \<and> \<not> 128 \<le> b) \<longleftrightarrow> b = 0" if "x = (if b = 0 then 255 else b - 1)" for b x :: nat
    using that by auto
  have f: "(128 \<le> ?x 0 \<and> \<not> 128 \<le> ?b 0) \<longleftrightarrow> ?b 0 = 0"
    "?b 0 \<noteq> 0 \<Longrightarrow> (128 \<le> ?x (Suc 0) \<and> \<not> 128 \<le> ?b (Suc 0)) \<longleftrightarrow> ?b (Suc 0) = 0"
    "?b 0 \<noteq> 0 \<Longrightarrow> ?b (Suc 0) \<noteq> 0 \<Longrightarrow> (128 \<le> ?x 2 \<and> \<not> 128 \<le> ?b 2) \<longleftrightarrow> ?b 2 = 0"
    "?b 0 \<noteq> 0 \<Longrightarrow> ?b (Suc 0) \<noteq> 0 \<Longrightarrow> ?b 2 \<noteq> 0 \<Longrightarrow> (128 \<le> ?x 3 \<and> \<not> 128 \<le> ?b 3) \<longleftrightarrow> ?b 3 = 0"
    by (rule flag [OF s0(1)], rule flag [OF s1(1)], assumption, rule flag [OF s2(1)], assumption+,
      rule flag [OF s3(1)], assumption+)
  show ?thesis
    unfolding has_zero_bytes all_less_4 bit7_iff using f unfolding unat_eq_zero by blast
qed

lemma and_eq_0: "v AND w = 0 \<longleftrightarrow> (\<forall>n. bit w n \<longrightarrow> \<not> bit v n)" for v :: u32
  by (auto intro!: bit_eqI simp: bit_and_iff) (metis bit_0_eq bit_and_iff bot_apply bot_bool_def)

lemma and_byte_eq_0: "v AND push_bit (8 * i) 0xFF = 0 \<longleftrightarrow> byte i v = 0" if "i < 4"
proof -
  have "(0xFF :: u32) = mask 8" by (simp add: mask_eq_exp_minus_1)
  moreover have "bit (push_bit (8 * i) (mask 8 :: u32)) n \<longleftrightarrow> 8 * i \<le> n \<and> n < 8 * i + 8" for n
    using that by (auto simp: bit_simps)
  ultimately have "v AND push_bit (8 * i) 0xFF = 0 \<longleftrightarrow> (\<forall>n. 8 * i \<le> n \<and> n < 8 * i + 8 \<longrightarrow> \<not> bit v n)"
    by (simp only: and_eq_0)
  also have "\<dots> \<longleftrightarrow> (\<forall>n < 8. \<not> bit v (8 * i + n))"
    by (metis add_left_cancel le_add1 le_add_diff_inverse nat_add_left_cancel_less)
  also have "\<dots> \<longleftrightarrow> byte i v = 0"
    by (auto simp: bit_eq_iff bit_byte)
  finally show ?thesis .
qed

section \<open>Alignment and pages\<close>

text \<open>Memory is mapped by pages of 4096 bytes, which is what makes the word reads past a terminator safe.\<close>

definition page_mapped :: "mem \<Rightarrow> bool" where
  "page_mapped m \<longleftrightarrow> (\<forall>a b. unat a div 4096 = unat b div 4096 \<longrightarrow> m a = None \<longrightarrow> m b = None)"

lemma unat_and_3: "unat (a AND 3 :: u32) = unat a mod 4"
  using unat_and_mask [of a 2] by (simp add: mask_eq_exp_minus_1)

lemma unat_and_FFF: "unat (a AND 0xFFF :: u32) = unat a mod 4096"
  using unat_and_mask [of a 12] by (simp add: mask_eq_exp_minus_1)

lemma same_page:
  assumes "unat a mod 4096 + k < 4096"
  shows "unat (a + word_of_nat k :: u32) div 4096 = unat a div 4096"
proof -
  have "unat a div 4096 < 1048576" using unat_u32_less [of a] by (simp add: div_less_iff_less_mult)
  then have "unat a + k < 4294967296"
    using assms mod_mult_div_eq [of "unat a" 4096] by linarith
  then have "unat (a + word_of_nat k) = unat a + k"
    by (simp add: unat_word_ariths take_bit_eq_mod unat_of_nat)
  then show ?thesis using assms by (simp add: div_add1_eq [of "unat a" k])
qed

lemma page_mappedD:
  "page_mapped m \<Longrightarrow> m a \<noteq> None \<Longrightarrow> unat a mod 4096 + k < 4096 \<Longrightarrow> m (a + word_of_nat k) \<noteq> None"
  unfolding page_mapped_def using same_page by metis

lemma ld32_page:
  assumes "page_mapped m" "m a \<noteq> None" "unat a mod 4096 \<le> 4092"
  obtains b0 b1 b2 b3 where "m a = Some b0" "m (a + 1) = Some b1" "m (a + 2) = Some b2" "m (a + 3) = Some b3"
    "ld32 m a = Some (le32 b0 b1 b2 b3)"
proof -
  note p = page_mappedD [OF assms(1,2)]
  obtain b0 b1 b2 b3 where "m a = Some b0" "m (a + 1) = Some b1" "m (a + 2) = Some b2" "m (a + 3) = Some b3"
    using p [of 1] p [of 2] p [of 3] assms(2,3) by auto
  then show ?thesis using that by (simp add: ld32_def)
qed


lemma and_3_eq_0: "a AND 3 = 0 \<longleftrightarrow> unat a mod 4 = 0" for a :: u32
  using unat_and_3 [of a] by (metis unat_0 unat_eq_zero)

lemma aligned_page: "a AND 3 = 0 \<Longrightarrow> unat a mod 4096 \<le> 4092" for a :: u32
proof -
  assume "a AND 3 = 0"
  then have "unat a mod 4096 mod 4 = 0" unfolding and_3_eq_0 by (simp add: mod_mod_cancel)
  moreover have "x \<le> 4092" if "x mod 4 = 0" "x < 4096" for x :: nat using that by presburger
  ultimately show ?thesis by simp
qed

lemma aligned_add_4: "a AND 3 = 0 \<Longrightarrow> (a + 4) AND 3 = 0" for a :: u32
  unfolding and_3_eq_0 by (simp add: unat_word_ariths mod_mod_cancel)

end
