(* ===== verification/KMem.thy ===== *)
theory KMem
  imports Memory
begin

text \<open>
  The memory block routines of \<open>src/src/lib/string.c\<close>: \<open>memcpy\<close>, \<open>memmove\<close>, \<open>memset\<close>, \<open>memcmp\<close> and
  \<open>memzero_nt_page\<close>, with every size class and the order of their loads and stores. The string
  instructions \<open>rep movsl\<close> and \<open>rep stosl\<close> are loops over the count register. Each routine
  returns the memory and the C result.
\<close>

section \<open>Copying\<close>

text \<open>\<open>rep movsl\<close>: dwords in ascending order, each read after the stores before it.\<close>

fun rep_movsl :: "nat \<Rightarrow> mem \<Rightarrow> u32 \<Rightarrow> u32 \<Rightarrow> mem option" where
  "rep_movsl 0 m d s = Some m"
| "rep_movsl (Suc k) m d s = do {
     v \<leftarrow> ld32 m s;
     m \<leftarrow> st32 m d v;
     rep_movsl k m (d + 4) (s + 4)
   }"

text \<open>\<open>memcpy\<close> (lines 452 to 538).\<close>

definition memcpy_small :: "mem \<Rightarrow> u32 \<Rightarrow> u32 \<Rightarrow> u32 \<Rightarrow> mem option" where
  "memcpy_small m d s n =
     (if n = 0 then Some m
      else do {
        v \<leftarrow> m s;
        m \<leftarrow> st8 m d v;
        if 2 \<le> n then do {
          v \<leftarrow> m (s + 1);
          m \<leftarrow> st8 m (d + 1) v;
          v \<leftarrow> m (s + (n - 1));
          st8 m (d + (n - 1)) v
        }
        else Some m
      })"

definition memcpy_8 :: "mem \<Rightarrow> u32 \<Rightarrow> u32 \<Rightarrow> u32 \<Rightarrow> mem option" where
  "memcpy_8 m d s n = do {
     v0 \<leftarrow> ld32 m s;
     v1 \<leftarrow> ld32 m (s + n - 4);
     m \<leftarrow> st32 m d v0;
     st32 m (d + n - 4) v1
   }"

definition memcpy_16 :: "mem \<Rightarrow> u32 \<Rightarrow> u32 \<Rightarrow> u32 \<Rightarrow> mem option" where
  "memcpy_16 m d s n = do {
     v0 \<leftarrow> ld32 m s;
     v1 \<leftarrow> ld32 m (s + 4);
     v2 \<leftarrow> ld32 m (s + n - 8);
     v3 \<leftarrow> ld32 m (s + n - 4);
     m \<leftarrow> st32 m d v0;
     m \<leftarrow> st32 m (d + 4) v1;
     m \<leftarrow> st32 m (d + n - 8) v2;
     st32 m (d + n - 4) v3
   }"

definition memcpy_32 :: "mem \<Rightarrow> u32 \<Rightarrow> u32 \<Rightarrow> u32 \<Rightarrow> mem option" where
  "memcpy_32 m d s n = do {
     v0 \<leftarrow> ld32 m s;
     v1 \<leftarrow> ld32 m (s + 4);
     v2 \<leftarrow> ld32 m (s + 8);
     v3 \<leftarrow> ld32 m (s + 12);
     v4 \<leftarrow> ld32 m (s + n - 16);
     v5 \<leftarrow> ld32 m (s + n - 12);
     v6 \<leftarrow> ld32 m (s + n - 8);
     v7 \<leftarrow> ld32 m (s + n - 4);
     m \<leftarrow> st32 m d v0;
     m \<leftarrow> st32 m (d + 4) v1;
     m \<leftarrow> st32 m (d + 8) v2;
     m \<leftarrow> st32 m (d + 12) v3;
     m \<leftarrow> st32 m (d + n - 16) v4;
     m \<leftarrow> st32 m (d + n - 12) v5;
     m \<leftarrow> st32 m (d + n - 8) v6;
     st32 m (d + n - 4) v7
   }"

definition memcpy_large :: "mem \<Rightarrow> u32 \<Rightarrow> u32 \<Rightarrow> u32 \<Rightarrow> mem option" where
  "memcpy_large m d s n = do {
     tail \<leftarrow> ld32 m (s + n - 4);
     let offset = (4 - (d AND 3)) AND 3;
     v \<leftarrow> ld32 m s;
     m \<leftarrow> st32 m d v;
     let dwords = drop_bit 2 (n - offset);
     m \<leftarrow> rep_movsl (unat dwords) m (d + offset) (s + offset);
     st32 m (d + n - 4) tail
   }"

definition memcpy_body :: "mem \<Rightarrow> u32 \<Rightarrow> u32 \<Rightarrow> u32 \<Rightarrow> mem option" where
  "memcpy_body m d s n =
     (if n < 4 then memcpy_small m d s n
      else if n \<le> 8 then memcpy_8 m d s n
      else if n \<le> 16 then memcpy_16 m d s n
      else if n \<le> 32 then memcpy_32 m d s n
      else memcpy_large m d s n)"

definition memcpy :: "mem \<Rightarrow> u32 \<Rightarrow> u32 \<Rightarrow> u32 \<Rightarrow> (mem \<times> u32) option" where
  "memcpy m dst src n = do { m \<leftarrow> memcpy_body m dst src n; Some (m, dst) }"

text \<open>
  \<open>memmove\<close> (lines 541 to 612): a destination below the source, or past its end, goes to \<open>memcpy\<close>;
  otherwise the blocks are copied from the end, with the first 16 bytes saved before the loop.
\<close>

definition memmove_small :: "mem \<Rightarrow> u32 \<Rightarrow> u32 \<Rightarrow> u32 \<Rightarrow> mem option" where
  "memmove_small m d s n = do {
     v0 \<leftarrow> m s;
     v1 \<leftarrow> m (s + n div 2);
     v2 \<leftarrow> m (s + (n - 1));
     m \<leftarrow> st8 m (d + (n - 1)) v2;
     m \<leftarrow> st8 m (d + n div 2) v1;
     st8 m d v0
   }"

definition memmove_8 :: "mem \<Rightarrow> u32 \<Rightarrow> u32 \<Rightarrow> u32 \<Rightarrow> mem option" where
  "memmove_8 m d s n = do {
     v0 \<leftarrow> ld32 m s;
     v1 \<leftarrow> ld32 m (s + n - 4);
     m \<leftarrow> st32 m (d + n - 4) v1;
     st32 m d v0
   }"

definition memmove_16 :: "mem \<Rightarrow> u32 \<Rightarrow> u32 \<Rightarrow> u32 \<Rightarrow> mem option" where
  "memmove_16 m d s n = do {
     v0 \<leftarrow> ld32 m s;
     v1 \<leftarrow> ld32 m (s + 4);
     v2 \<leftarrow> ld32 m (s + n - 8);
     v3 \<leftarrow> ld32 m (s + n - 4);
     m \<leftarrow> st32 m (d + n - 4) v3;
     m \<leftarrow> st32 m (d + n - 8) v2;
     m \<leftarrow> st32 m (d + 4) v1;
     st32 m d v0
   }"

function memmove_back :: "mem \<Rightarrow> u32 \<Rightarrow> u32 \<Rightarrow> u32 \<Rightarrow> mem option" where
  "memmove_back m d s i =
     (if 16 \<le> i then do {
        let i = i - 16;
        t0 \<leftarrow> ld32 m (s + i);
        t1 \<leftarrow> ld32 m (s + i + 4);
        t2 \<leftarrow> ld32 m (s + i + 8);
        t3 \<leftarrow> ld32 m (s + i + 12);
        m \<leftarrow> st32 m (d + i + 12) t3;
        m \<leftarrow> st32 m (d + i + 8) t2;
        m \<leftarrow> st32 m (d + i + 4) t1;
        m \<leftarrow> st32 m (d + i) t0;
        memmove_back m d s i
      }
      else Some m)"
  by pat_completeness auto
termination
  by (relation "measure (\<lambda>(m, d, s, i). unat i)") (auto simp: word_le_nat_alt unat_sub)

declare memmove_back.simps [simp del]

definition memmove_large :: "mem \<Rightarrow> u32 \<Rightarrow> u32 \<Rightarrow> u32 \<Rightarrow> mem option" where
  "memmove_large m d s n = do {
     f0 \<leftarrow> ld32 m s;
     f1 \<leftarrow> ld32 m (s + 4);
     f2 \<leftarrow> ld32 m (s + 8);
     f3 \<leftarrow> ld32 m (s + 12);
     m \<leftarrow> memmove_back m d s n;
     m \<leftarrow> st32 m d f0;
     m \<leftarrow> st32 m (d + 4) f1;
     m \<leftarrow> st32 m (d + 8) f2;
     st32 m (d + 12) f3
   }"

definition memmove_body :: "mem \<Rightarrow> u32 \<Rightarrow> u32 \<Rightarrow> u32 \<Rightarrow> mem option" where
  "memmove_body m d s n =
     (if n = 0 \<or> d = s then Some m
      else if d < s \<or> d \<ge> s + n then memcpy_body m d s n
      else if n < 4 then memmove_small m d s n
      else if n \<le> 8 then memmove_8 m d s n
      else if n \<le> 16 then memmove_16 m d s n
      else memmove_large m d s n)"

definition memmove :: "mem \<Rightarrow> u32 \<Rightarrow> u32 \<Rightarrow> u32 \<Rightarrow> (mem \<times> u32) option" where
  "memmove m dst src n = do { m \<leftarrow> memmove_body m dst src n; Some (m, dst) }"

section \<open>Filling\<close>

fun rep_stosl :: "nat \<Rightarrow> mem \<Rightarrow> u32 \<Rightarrow> u32 \<Rightarrow> mem option" where
  "rep_stosl 0 m p v = Some m"
| "rep_stosl (Suc k) m p v = do { m \<leftarrow> st32 m p v; rep_stosl k m (p + 4) v }"

text \<open>
  \<open>memset\<close> (lines 615 to 683). The value is an \<open>int\<close>, of which the low byte is used.
\<close>

definition memset_small :: "mem \<Rightarrow> u32 \<Rightarrow> u8 \<Rightarrow> u32 \<Rightarrow> mem option" where
  "memset_small m p v n =
     (if n = 0 then Some m
      else do {
        m \<leftarrow> st8 m p v;
        if 2 \<le> n then do { m \<leftarrow> st8 m (p + 1) v; st8 m (p + (n - 1)) v } else Some m
      })"

definition memset_16 :: "mem \<Rightarrow> u32 \<Rightarrow> u32 \<Rightarrow> u32 \<Rightarrow> mem option" where
  "memset_16 m p c32 n = do {
     m \<leftarrow> st32 m p c32;
     m \<leftarrow> st32 m (p + 4) c32;
     m \<leftarrow> st32 m (p + n - 8) c32;
     st32 m (p + n - 4) c32
   }"

definition memset_32 :: "mem \<Rightarrow> u32 \<Rightarrow> u32 \<Rightarrow> u32 \<Rightarrow> mem option" where
  "memset_32 m p c32 n = do {
     m \<leftarrow> st32 m p c32;
     m \<leftarrow> st32 m (p + 4) c32;
     m \<leftarrow> st32 m (p + 8) c32;
     m \<leftarrow> st32 m (p + 12) c32;
     m \<leftarrow> st32 m (p + n - 16) c32;
     m \<leftarrow> st32 m (p + n - 12) c32;
     m \<leftarrow> st32 m (p + n - 8) c32;
     st32 m (p + n - 4) c32
   }"

definition memset_large :: "mem \<Rightarrow> u32 \<Rightarrow> u32 \<Rightarrow> u32 \<Rightarrow> mem option" where
  "memset_large m p c32 n = do {
     m \<leftarrow> st32 m p c32;
     m \<leftarrow> st32 m (p + n - 4) c32;
     let offset = (4 - (p AND 3)) AND 3;
     let dwords = drop_bit 2 (n - offset);
     rep_stosl (unat dwords) m (p + offset) c32
   }"

definition memset_body :: "mem \<Rightarrow> u32 \<Rightarrow> u8 \<Rightarrow> u32 \<Rightarrow> mem option" where
  "memset_body m p v n =
     (let c32 = ucast v * 0x01010101
      in if n < 4 then memset_small m p v n
      else if n \<le> 8 then do { m \<leftarrow> st32 m p c32; st32 m (p + n - 4) c32 }
      else if n \<le> 16 then memset_16 m p c32 n
      else if n \<le> 32 then memset_32 m p c32 n
      else memset_large m p c32 n)"

definition memset :: "mem \<Rightarrow> u32 \<Rightarrow> u32 \<Rightarrow> u32 \<Rightarrow> (mem \<times> u32) option" where
  "memset m dst v n = do { m \<leftarrow> memset_body m dst (ucast v) n; Some (m, dst) }"

text \<open>
  \<open>memzero_nt_page\<close> (lines 728 to 758): 64 rounds of 16 dword stores. The stores bypass the cache,
  which the memory model does not see.
\<close>

definition movnti_16 :: "mem \<Rightarrow> u32 \<Rightarrow> mem option" where
  "movnti_16 m p = do {
     m \<leftarrow> st32 m p 0;        m \<leftarrow> st32 m (p + 4) 0;
     m \<leftarrow> st32 m (p + 8) 0;  m \<leftarrow> st32 m (p + 12) 0;
     m \<leftarrow> st32 m (p + 16) 0; m \<leftarrow> st32 m (p + 20) 0;
     m \<leftarrow> st32 m (p + 24) 0; m \<leftarrow> st32 m (p + 28) 0;
     m \<leftarrow> st32 m (p + 32) 0; m \<leftarrow> st32 m (p + 36) 0;
     m \<leftarrow> st32 m (p + 40) 0; m \<leftarrow> st32 m (p + 44) 0;
     m \<leftarrow> st32 m (p + 48) 0; m \<leftarrow> st32 m (p + 52) 0;
     m \<leftarrow> st32 m (p + 56) 0; st32 m (p + 60) 0
   }"

fun movnti_loop :: "nat \<Rightarrow> mem \<Rightarrow> u32 \<Rightarrow> mem option" where
  "movnti_loop 0 m p = Some m"
| "movnti_loop (Suc c) m p = do { m \<leftarrow> movnti_16 m p; movnti_loop c m (p + 64) }"

definition memzero_nt_page :: "mem \<Rightarrow> u32 \<Rightarrow> mem option" where
  "memzero_nt_page m dst = movnti_loop 64 m dst"

section \<open>Comparison\<close>

text \<open>
  \<open>memcmp\<close> (lines 685 to 726). \<open>ctz\<close> is the compiler's \<open>__builtin_ctz\<close>, the number of trailing zero bits
  of a word that is not zero. A 16-bit load is zero-extended, as the subtraction of the bytes does it.
\<close>

definition first_diff :: "u32 \<Rightarrow> u32 \<Rightarrow> int" where
  "first_diff va vb =
     (let shift = unat (word_of_nat (ctz (va XOR vb)) AND NOT (7 :: u32))
      in uint (drop_bit shift va AND 0xFF) - uint (drop_bit shift vb AND 0xFF))"

definition ld16 :: "mem \<Rightarrow> u32 \<Rightarrow> u32 option" where
  "ld16 m a = do { b0 \<leftarrow> m a; b1 \<leftarrow> m (a + 1); Some (le32 b0 b1 0 0) }"

function memcmp :: "mem \<Rightarrow> u32 \<Rightarrow> u32 \<Rightarrow> u32 \<Rightarrow> int option" where
  "memcmp m pa pb n =
     (if 4 \<le> n then do {
        va \<leftarrow> ld32 m pa;
        vb \<leftarrow> ld32 m pb;
        if va \<noteq> vb then Some (first_diff va vb)
        else memcmp m (pa + 4) (pb + 4) (n - 4)
      }
      else if 2 \<le> n then do {
        va \<leftarrow> ld16 m pa;
        vb \<leftarrow> ld16 m pb;
        if va \<noteq> vb then Some (first_diff va vb)
        else if 0 < n - 2 then do { x \<leftarrow> m (pa + 2); y \<leftarrow> m (pb + 2); Some (uint x - uint y) }
        else Some 0
      }
      else if 0 < n then do { x \<leftarrow> m pa; y \<leftarrow> m pb; Some (uint x - uint y) }
      else Some 0)"
  by pat_completeness auto
termination
  by (relation "measure (\<lambda>(m, pa, pb, n). unat n)") (auto simp: word_le_nat_alt unat_sub)

declare memcmp.simps [simp del]

section \<open>Blocks\<close>

text \<open>
  The bytes at an address, the mapped range, and the memory with a block replaced. A routine in progress has
  stored the places in \<open>S\<close> of the block, which is the memory \<open>filled m d xs S\<close>.
\<close>

definition holds :: "mem \<Rightarrow> u32 \<Rightarrow> u8 list \<Rightarrow> bool" where
  "holds m a xs \<longleftrightarrow> (\<forall>i < length xs. m (a + word_of_nat i) = Some (xs ! i))"

definition mapped :: "mem \<Rightarrow> u32 \<Rightarrow> nat \<Rightarrow> bool" where
  "mapped m a n \<longleftrightarrow> (\<forall>i < n. m (a + word_of_nat i) \<noteq> None)"

definition put :: "mem \<Rightarrow> u32 \<Rightarrow> u8 list \<Rightarrow> mem" where
  "put m d xs = (\<lambda>a. if unat (a - d) < length xs then Some (xs ! unat (a - d)) else m a)"

definition filled :: "mem \<Rightarrow> u32 \<Rightarrow> u8 list \<Rightarrow> nat set \<Rightarrow> mem" where
  "filled m d xs S = (\<lambda>a. if unat (a - d) \<in> S then Some (xs ! unat (a - d)) else m a)"

definition word4 :: "u8 list \<Rightarrow> nat \<Rightarrow> u32" where
  "word4 xs k = le32 (xs ! k) (xs ! (k + 1)) (xs ! (k + 2)) (xs ! (k + 3))"

lemma filled_empty: "filled m d xs {} = m"
  by (simp add: filled_def)

lemma filled_all: "filled m d xs {..<length xs} = put m d xs"
  by (simp add: filled_def put_def)

lemma unat_of_nat_u32: "i < 4294967296 \<Longrightarrow> unat (word_of_nat i :: u32) = i"
  by (simp add: unat_of_nat)

lemma st8_filled:
  assumes "mapped m d N" "i < N" "N \<le> 4294967296"
  shows "st8 (filled m d xs S) (d + word_of_nat i) (xs ! i) = Some (filled m d xs (insert i S))"
proof -
  have "unat (word_of_nat i :: u32) = i" using assms(2,3) by (simp add: unat_of_nat_u32)
  moreover have "unat (a - d) = i \<longleftrightarrow> a = d + word_of_nat i" for a
    using calculation by (metis add_diff_cancel_left' add.commute diff_add_cancel word_unat_eq_iff)
  moreover have "m (d + word_of_nat i) \<noteq> None" using assms by (simp add: mapped_def)
  ultimately show ?thesis by (auto simp: st8_def filled_def fun_eq_iff)
qed

lemma st32_filled:
  assumes "mapped m d N" "k + 4 \<le> N" "N \<le> 4294967296"
  shows "st32 (filled m d xs S) (d + word_of_nat k) (word4 xs k) = Some (filled m d xs (S \<union> {k..<k + 4}))"
proof -
  note st = st8_filled [OF assms(1) _ assms(3), of _ xs]
  have e: "insert (k + 3) (insert (Suc (Suc k)) (insert (Suc k) (insert k S))) = S \<union> {k..<k + 4}" by auto
  show ?thesis
    using assms(2) st [of k] st [of "k + 1"] st [of "k + 2"] st [of "k + 3"]
    by (simp add: st32_def word4_def ac_simps e [simplified ac_simps])
qed

lemma holds_filled:
  assumes "holds m s xs" "j < length xs" "unat (s + word_of_nat j - d) \<notin> S"
  shows "filled m d xs S (s + word_of_nat j) = Some (xs ! j)"
  using assms by (simp add: holds_def filled_def)

lemma ld32_filled:
  assumes "holds m s xs" "k + 4 \<le> length xs" "\<And>j. k \<le> j \<Longrightarrow> j < k + 4 \<Longrightarrow> unat (s + word_of_nat j - d) \<notin> S"
  shows "ld32 (filled m d xs S) (s + word_of_nat k) = Some (word4 xs k)"
proof -
  have h: "filled m d xs S (s + word_of_nat j) = Some (xs ! j)" if "k \<le> j" "j < k + 4" for j
    using assms that by (intro holds_filled) auto
  from h [of k] h [of "k + 1"] h [of "k + 2"] h [of "k + 3"] show ?thesis
    by (simp add: ld32_def word4_def ac_simps)
qed

lemma ld32_holds: "holds m s xs \<Longrightarrow> k + 4 \<le> length xs \<Longrightarrow> ld32 m (s + word_of_nat k) = Some (word4 xs k)"
  using ld32_filled [of m s xs k 0 "{}"] by (simp add: filled_empty)

lemma fill_done: "S = {..<length xs} \<Longrightarrow> Some (filled m d xs S) = Some (put m d xs)"
  by (simp add: filled_all)

section \<open>Copies\<close>

text \<open>
  A forward copy reads a place of the source before it overwrites it: the place \<open>j\<close> of the source is not one
  of the places up to \<open>j\<close> of the destination.
\<close>

definition copies :: "mem \<Rightarrow> u32 \<Rightarrow> u32 \<Rightarrow> u8 list \<Rightarrow> u32 \<Rightarrow> bool" where
  "copies m d s xs n \<longleftrightarrow> holds m s xs \<and> mapped m d (length xs) \<and> length xs = unat n"

definition forward :: "u32 \<Rightarrow> u32 \<Rightarrow> nat \<Rightarrow> bool" where
  "forward d s N \<longleftrightarrow> (\<forall>j < N. j < unat (s + word_of_nat j - d))"

lemma copies_ld:
  "copies m d s xs n \<Longrightarrow> k + 4 \<le> unat n \<Longrightarrow> ld32 m (s + word_of_nat k) = Some (word4 xs k)"
  by (simp add: copies_def ld32_holds)

lemma copies_st:
  "copies m d s xs n \<Longrightarrow> k + 4 \<le> unat n \<Longrightarrow>
   st32 (filled m d xs S) (d + word_of_nat k) (word4 xs k) = Some (filled m d xs (S \<union> {k..<k + 4}))"
  using unat_u32_less [of n] by (auto simp: copies_def intro!: st32_filled)

lemma copies_st_first:
  "copies m d s xs n \<Longrightarrow> k + 4 \<le> unat n \<Longrightarrow>
   st32 m (d + word_of_nat k) (word4 xs k) = Some (filled m d xs {k..<k + 4})"
  using copies_st [of m d s xs n k "{}"] by (simp add: filled_empty)

lemma copies_st8:
  "copies m d s xs n \<Longrightarrow> k < unat n \<Longrightarrow>
   st8 (filled m d xs S) (d + word_of_nat k) (xs ! k) = Some (filled m d xs (insert k S))"
  using unat_u32_less [of n] by (auto simp: copies_def intro!: st8_filled)

lemma copies_get:
  "copies m d s xs n \<Longrightarrow> j < unat n \<Longrightarrow> unat (s + word_of_nat j - d) \<notin> S \<Longrightarrow>
   filled m d xs S (s + word_of_nat j) = Some (xs ! j)"
  by (simp add: copies_def holds_filled)

lemma copies_len: "copies m d s xs n \<Longrightarrow> length xs = unat n"
  by (simp add: copies_def)

text \<open>The difference of the first two bytes that differ.\<close>

fun bytes_diff :: "u8 list \<Rightarrow> u8 list \<Rightarrow> int" where
  "bytes_diff (x # xs) (y # ys) = (if x = y then bytes_diff xs ys else uint x - uint y)"
| "bytes_diff _ _ = 0"

lemma memcpy_8_ok:
  assumes "copies m d s xs n" "4 \<le> unat n" "unat n \<le> 8"
  shows "memcpy_8 m d s n = Some (put m d xs)"
proof -
  have "memcpy_8 m d s n = Some (filled m d xs ({0..<4} \<union> {unat n - 4..<unat n}))"
    using assms(2) copies_ld [OF assms(1), of 0] copies_ld [OF assms(1), of "unat n - 4"]
      copies_st_first [OF assms(1), of 0] copies_st [OF assms(1), of "unat n - 4"]
    by (simp add: memcpy_8_def add_diff_eq)
  also have "\<dots> = Some (put m d xs)"
    using assms(2,3) copies_len [OF assms(1)] by (intro fill_done) auto
  finally show ?thesis .
qed

lemma memcpy_16_ok:
  assumes "copies m d s xs n" "8 < unat n" "unat n \<le> 16"
  shows "memcpy_16 m d s n = Some (put m d xs)"
proof -
  note ld = copies_ld [OF assms(1)] and st = copies_st [OF assms(1)]
  have "memcpy_16 m d s n = Some (filled m d xs ({0..<4} \<union> {4..<8} \<union> {unat n - 8..<unat n - 8 + 4} \<union> {unat n - 4..<unat n}))"
    using assms(2) ld [of 0] ld [of 4] ld [of "unat n - 8"] ld [of "unat n - 4"]
      copies_st_first [OF assms(1), of 0] st [of 4] st [of "unat n - 8"] st [of "unat n - 4"]
    by (simp add: memcpy_16_def add_diff_eq)
  also have "\<dots> = Some (put m d xs)"
    using assms(2,3) copies_len [OF assms(1)] by (intro fill_done) auto
  finally show ?thesis .
qed

lemma memcpy_32_ok:
  assumes "copies m d s xs n" "16 < unat n" "unat n \<le> 32"
  shows "memcpy_32 m d s n = Some (put m d xs)"
proof -
  note ld = copies_ld [OF assms(1)] and st = copies_st [OF assms(1)]
  have "memcpy_32 m d s n = Some (filled m d xs ({0..<4} \<union> {4..<8} \<union> {8..<12} \<union> {12..<16} \<union>
      {unat n - 16..<unat n - 16 + 4} \<union> {unat n - 12..<unat n - 12 + 4} \<union>
      {unat n - 8..<unat n - 8 + 4} \<union> {unat n - 4..<unat n}))"
    using assms(2) ld [of 0] ld [of 4] ld [of 8] ld [of 12]
      ld [of "unat n - 16"] ld [of "unat n - 12"] ld [of "unat n - 8"] ld [of "unat n - 4"]
      copies_st_first [OF assms(1), of 0] st [of 4] st [of 8] st [of 12]
      st [of "unat n - 16"] st [of "unat n - 12"] st [of "unat n - 8"] st [of "unat n - 4"]
    by (simp add: memcpy_32_def add_diff_eq)
  also have "\<dots> = Some (put m d xs)"
    using assms(2,3) copies_len [OF assms(1)] by (intro fill_done) auto
  finally show ?thesis .
qed

lemma memcpy_small_ok:
  assumes "copies m d s xs n" "unat n < 4" "forward d s (unat n)"
  shows "memcpy_small m d s n = Some (put m d xs)"
proof -
  note st = copies_st8 [OF assms(1)] and get = copies_get [OF assms(1)]
  have fwd: "unat (s + word_of_nat j - d) > j" if "j < unat n" for j
    using assms(3) that by (simp add: forward_def)
  consider "unat n = 0" | "unat n = 1" | "unat n = 2" | "unat n = 3" using assms(2) by linarith
  then show ?thesis
  proof cases
    case 1
    then have "n = 0" "xs = []" using copies_len [OF assms(1)] by (auto simp: unat_eq_zero)
    then show ?thesis by (simp add: memcpy_small_def put_def)
  next
    case 2
    then have n: "n = 1" by (metis unat_1 word_unat_eq_iff)
    have "memcpy_small m d s n = Some (filled m d xs {0})"
      using get [of 0 "{}"] st [of 0 "{}"] by (simp add: n memcpy_small_def filled_empty word_le_nat_alt)
    also have "\<dots> = Some (put m d xs)" using copies_len [OF assms(1)] by (intro fill_done) (auto simp: n)
    finally show ?thesis .
  next
    case 3
    then have n: "n = 2" using word_unat_eq_iff [of n 2] by simp
    have "memcpy_small m d s n = Some (filled m d xs {1, 0})"
      using get [of 0 "{}"] st [of 0 "{}"] get [of 1 "{0}"] st [of 1 "{0}"] get [of 1 "{1, 0}"] st [of 1 "{1, 0}"]
        fwd [of 1] by (simp add: n memcpy_small_def filled_empty word_le_nat_alt)
    also have "\<dots> = Some (put m d xs)" using copies_len [OF assms(1)] by (intro fill_done) (auto simp: n)
    finally show ?thesis .
  next
    case 4
    then have n: "n = 3" using word_unat_eq_iff [of n 3] by simp
    have "memcpy_small m d s n = Some (filled m d xs {2, 1, 0})"
      using get [of 0 "{}"] st [of 0 "{}"] get [of 1 "{0}"] st [of 1 "{0}"] get [of 2 "{1, 0}"] st [of 2 "{1, 0}"]
        fwd [of 1] fwd [of 2] by (simp add: n memcpy_small_def filled_empty word_le_nat_alt)
    also have "\<dots> = Some (put m d xs)" using copies_len [OF assms(1)] by (intro fill_done) (auto simp: n)
    finally show ?thesis .
  qed
qed

lemma rep_movsl_ok:
  assumes "copies m d s xs n" "k + 4 * c \<le> unat n" "forward d s (unat n)"
    "\<And>j. k \<le> j \<Longrightarrow> j < unat n \<Longrightarrow> unat (s + word_of_nat j - d) \<notin> S"
  shows "rep_movsl c (filled m d xs S) (d + word_of_nat k) (s + word_of_nat k) =
    Some (filled m d xs (S \<union> {k..<k + 4 * c}))"
  using assms(2,4)
proof (induction c arbitrary: k S)
  case (Suc c)
  let ?S = "S \<union> {k..<k + 4}"
  have "ld32 (filled m d xs S) (s + word_of_nat k) = Some (word4 xs k)"
    using assms(1) Suc.prems by (intro ld32_filled) (auto simp: copies_def)
  moreover have "st32 (filled m d xs S) (d + word_of_nat k) (word4 xs k) = Some (filled m d xs ?S)"
    using assms(1) Suc.prems by (intro copies_st) auto
  moreover have "rep_movsl c (filled m d xs ?S) (d + word_of_nat (k + 4)) (s + word_of_nat (k + 4)) =
      Some (filled m d xs (?S \<union> {k + 4..<k + 4 + 4 * c}))"
  proof (rule Suc.IH)
    fix j assume j: "k + 4 \<le> j" "j < unat n"
    then have "j < unat (s + word_of_nat j - d)" using assms(3) by (simp add: forward_def)
    then show "unat (s + word_of_nat j - d) \<notin> ?S" using j Suc.prems(2) [of j] by auto
  qed (use Suc.prems in simp)
  moreover have "?S \<union> {k + 4..<k + 4 + 4 * c} = S \<union> {k..<k + 4 * Suc c}" by auto
  ultimately show ?case by (simp add: ac_simps)
qed simp

text \<open>The distance from an address up to the next multiple of four.\<close>

definition align_gap :: "u32 \<Rightarrow> nat" where
  "align_gap d = unat ((4 - (d AND 3)) AND 3)"

lemma align_gap_less: "align_gap d < 4"
  by (simp add: align_gap_def unat_and_3)

lemma movs_count: "32 < unat n \<Longrightarrow> unat (drop_bit 2 (n - ((4 - (d AND 3)) AND 3))) = (unat n - align_gap d) div 4"
proof -
  assume n: "32 < unat n"
  then have "unat (n - ((4 - (d AND 3)) AND 3)) = unat n - align_gap d"
    using align_gap_less [of d] by (simp add: align_gap_def unat_sub word_le_nat_alt)
  then show ?thesis
    unfolding unsigned_drop_bit_eq using unat_u32_less [of n] by (simp add: drop_bit_eq_div take_bit_eq_mod)
qed

lemma memcpy_large_ok:
  assumes c: "copies m d s xs n" and n: "32 < unat n" and f: "forward d s (unat n)"
    and gap: "\<And>j. align_gap d \<le> j \<Longrightarrow> j < unat n \<Longrightarrow> 4 \<le> unat (s + word_of_nat j - d)"
  shows "memcpy_large m d s n = Some (put m d xs)"
proof -
  let ?o = "(4 - (d AND 3)) AND 3" and ?k = "align_gap d" and ?N = "unat n"
  define q where "q = unat (drop_bit 2 (n - ?o))"
  have o: "?o = word_of_nat ?k" by (simp add: align_gap_def)
  have k: "?k < 4" by (rule align_gap_less)
  have q: "q = (?N - ?k) div 4" unfolding q_def using n by (rule movs_count)
  have "rep_movsl q (filled m d xs {0..<4}) (d + word_of_nat ?k) (s + word_of_nat ?k) =
      Some (filled m d xs ({0..<4} \<union> {?k..<?k + 4 * q}))"
    using n k q gap by (intro rep_movsl_ok [OF c _ f]) (auto simp: not_less)
  then have "memcpy_large m d s n =
      Some (filled m d xs ({0..<4} \<union> {?k..<?k + 4 * q} \<union> {?N - 4..<?N}))"
    using n copies_ld [OF c, of 0] copies_ld [OF c, of "?N - 4"]
      copies_st_first [OF c, of 0] copies_st [OF c, of "?N - 4"]
    by (simp add: memcpy_large_def Let_def o [symmetric] q_def add_diff_eq)
  also have "\<dots> = Some (put m d xs)"
  proof (rule fill_done)
    have "?N < ?k + 4 * q + 4" "?k + 4 * q \<le> ?N" using q k n by auto
    then show "{0..<4} \<union> {?k..<?k + 4 * q} \<union> {?N - 4..<?N} = {..<length xs}"
      using k n copies_len [OF c] by auto
  qed
  finally show ?thesis .
qed

lemma memcpy_body_ok:
  assumes "copies m d s xs n" "forward d s (unat n)"
    "\<And>j. 32 < unat n \<Longrightarrow> align_gap d \<le> j \<Longrightarrow> j < unat n \<Longrightarrow> 4 \<le> unat (s + word_of_nat j - d)"
  shows "memcpy_body m d s n = Some (put m d xs)"
  using memcpy_small_ok [OF assms(1) _ assms(2)] memcpy_8_ok [OF assms(1)] memcpy_16_ok [OF assms(1)]
    memcpy_32_ok [OF assms(1)] memcpy_large_ok [OF assms(1) _ assms(2,3)]
  by (simp add: memcpy_body_def word_less_nat_alt word_le_nat_alt)

section \<open>Moves\<close>

definition backward :: "u32 \<Rightarrow> u32 \<Rightarrow> nat \<Rightarrow> bool" where
  "backward d s N \<longleftrightarrow> (\<forall>j < N. unat (s + word_of_nat j - d) < j \<or> N \<le> unat (s + word_of_nat j - d))"

lemma memmove_small_ok:
  assumes "copies m d s xs n" "0 < unat n" "unat n < 4"
  shows "memmove_small m d s n = Some (put m d xs)"
proof -
  note st = copies_st8 [OF assms(1)] and get = copies_get [OF assms(1), of _ "{}", simplified filled_empty, simplified]
  consider "unat n = 1" | "unat n = 2" | "unat n = 3" using assms(2,3) by linarith
  then show ?thesis
  proof cases
    case 1
    then have n: "n = 1" by (metis unat_1 word_unat_eq_iff)
    have "memmove_small m d s n = Some (filled m d xs {0})"
      using get [of 0] st [of 0 "{}"] st [of 0 "{0}"] by (simp add: n memmove_small_def filled_empty)
    also have "\<dots> = Some (put m d xs)" using copies_len [OF assms(1)] by (intro fill_done) (auto simp: n)
    finally show ?thesis .
  next
    case 2
    then have n: "n = 2" using word_unat_eq_iff [of n 2] by simp
    have "memmove_small m d s n = Some (filled m d xs {0, 1})"
      using get [of 0] get [of 1] st [of 1 "{}"] st [of 1 "{1}"] st [of 0 "{1}"]
      by (simp add: n memmove_small_def filled_empty)
    also have "\<dots> = Some (put m d xs)" using copies_len [OF assms(1)] by (intro fill_done) (auto simp: n)
    finally show ?thesis .
  next
    case 3
    then have n: "n = 3" using word_unat_eq_iff [of n 3] by simp
    have "memmove_small m d s n = Some (filled m d xs {0, 1, 2})"
      using get [of 0] get [of 1] get [of 2] st [of 2 "{}"] st [of 1 "{2}"] st [of 0 "{1, 2}"]
      by (simp add: n memmove_small_def filled_empty)
    also have "\<dots> = Some (put m d xs)" using copies_len [OF assms(1)] by (intro fill_done) (auto simp: n)
    finally show ?thesis .
  qed
qed

lemma memmove_8_ok:
  assumes "copies m d s xs n" "4 \<le> unat n" "unat n \<le> 8"
  shows "memmove_8 m d s n = Some (put m d xs)"
proof -
  have "memmove_8 m d s n = Some (filled m d xs ({unat n - 4..<unat n} \<union> {0..<4}))"
    using assms(2) copies_ld [OF assms(1), of 0] copies_ld [OF assms(1), of "unat n - 4"]
      copies_st [OF assms(1), of 0] copies_st_first [OF assms(1), of "unat n - 4"]
    by (simp add: memmove_8_def add_diff_eq)
  also have "\<dots> = Some (put m d xs)"
    using assms(2,3) copies_len [OF assms(1)] by (intro fill_done) auto
  finally show ?thesis .
qed

lemma memmove_16_ok:
  assumes "copies m d s xs n" "8 < unat n" "unat n \<le> 16"
  shows "memmove_16 m d s n = Some (put m d xs)"
proof -
  note ld = copies_ld [OF assms(1)] and st = copies_st [OF assms(1)]
  have "memmove_16 m d s n = Some (filled m d xs ({unat n - 4..<unat n} \<union> {unat n - 8..<unat n - 8 + 4} \<union> {4..<8} \<union> {0..<4}))"
    using assms(2) ld [of 0] ld [of 4] ld [of "unat n - 8"] ld [of "unat n - 4"]
      copies_st_first [OF assms(1), of "unat n - 4"] st [of 4] st [of "unat n - 8"] st [of 0]
    by (simp add: memmove_16_def add_diff_eq)
  also have "\<dots> = Some (put m d xs)"
    using assms(2,3) copies_len [OF assms(1)] by (intro fill_done) auto
  finally show ?thesis .
qed

lemma memmove_back_ok:
  assumes c: "copies m d s xs n" and b: "backward d s (unat n)"
  shows "unat i \<le> unat n \<Longrightarrow> memmove_back (filled m d xs {unat i..<unat n}) d s i =
    Some (filled m d xs {unat i mod 16..<unat n})"
proof (induction "unat i" arbitrary: i rule: less_induct)
  case less
  show ?case
  proof (cases "16 \<le> unat i")
    case False
    then show ?thesis by (subst memmove_back.simps) (simp add: word_le_nat_alt)
  next
    case True
    define j where "j = unat i - 16"
    have i: "unat i = j + 16" "unat (i - 16) = j" "i - 16 = word_of_nat j"
      using True by (simp_all add: j_def unat_sub word_le_nat_alt)
    have N: "j + 16 \<le> unat n" using less.prems i by simp
    let ?N = "unat n" and ?S = "{j + 16..<unat n}"
    have "unat (s + word_of_nat k - d) \<notin> ?S" if "k < j + 16" for k
      using b [unfolded backward_def, rule_format, of k] that N by auto
    then have ld: "ld32 (filled m d xs ?S) (s + word_of_nat k) = Some (word4 xs k)" if "k + 4 \<le> j + 16" for k
      using that c N by (intro ld32_filled) (auto simp: copies_def)
    note st = copies_st [OF c]
    have S: "?S \<union> {j + 12..<j + 16} \<union> {j + 8..<j + 12} \<union> {j + 4..<j + 8} \<union> {j..<j + 4} = {j..<?N}"
      using N by auto
    have "16 \<le> i" using True by (simp add: word_le_nat_alt)
    then have "memmove_back (filled m d xs {unat i..<?N}) d s i = memmove_back (filled m d xs {j..<?N}) d s (i - 16)"
      using N ld [of j] ld [of "j + 4"] ld [of "j + 8"] ld [of "j + 12"]
        st [of j] st [of "j + 4"] st [of "j + 8"] st [of "j + 12"] S
      by (subst memmove_back.simps) (simp add: i Let_def ac_simps)
    also have "\<dots> = Some (filled m d xs {unat (i - 16) mod 16..<?N})"
      using less.hyps [of "i - 16"] N by (simp add: i(1,2))
    also have "unat (i - 16) mod 16 = unat i mod 16" by (simp add: i(1,2))
    finally show ?thesis .
  qed
qed

lemma memmove_large_ok:
  assumes c: "copies m d s xs n" and n: "16 < unat n" and b: "backward d s (unat n)"
  shows "memmove_large m d s n = Some (put m d xs)"
proof -
  note ld = copies_ld [OF c] and st = copies_st [OF c]
  let ?S = "{unat n mod 16..<unat n}"
  have "memmove_back m d s n = Some (filled m d xs ?S)"
    using memmove_back_ok [OF c b, of n] by (simp add: filled_empty)
  then have "memmove_large m d s n = Some (filled m d xs (?S \<union> {0..<4} \<union> {4..<8} \<union> {8..<12} \<union> {12..<16}))"
    using n ld [of 0] ld [of 4] ld [of 8] ld [of 12] st [of 0] st [of 4] st [of 8] st [of 12]
    by (simp add: memmove_large_def)
  also have "\<dots> = Some (put m d xs)"
  proof (rule fill_done)
    have "unat n mod 16 < 16" by simp
    then show "?S \<union> {0..<4} \<union> {4..<8} \<union> {8..<12} \<union> {12..<16} = {..<length xs}"
      using n copies_len [OF c] by auto
  qed
  finally show ?thesis .
qed


lemma memmove_body_ok:
  assumes c: "copies m d s xs n"
    and src: "unat s + unat n < 4294967296" and dst: "unat d + unat n \<le> 4294967296"
    and gap: "d < s \<Longrightarrow> 32 < unat n \<Longrightarrow> 4 \<le> align_gap d + unat (s - d)"
  shows "memmove_body m d s n = Some (put m d xs)"
proof (cases "n = 0 \<or> d = s")
  case True
  moreover have "put m d xs = m" if "d = s"
  proof
    fix a
    have "m a = Some (xs ! unat (a - d))" if "unat (a - d) < length xs"
      using c that \<open>d = s\<close> by (auto simp: copies_def holds_def dest!: spec [of _ "unat (a - d)"])
    then show "put m d xs a = m a" by (simp add: put_def)
  qed
  moreover have "put m d xs = m" if "n = 0" using copies_len [OF c] that by (simp add: put_def)
  ultimately show ?thesis by (auto simp: memmove_body_def)
next
  case False
  have sj: "unat (s + word_of_nat j) = unat s + j" if "j < unat n" for j
    using that src by (simp add: unat_word_ariths unat_of_nat)
  have sn: "unat (s + n) = unat s + unat n" using src by (simp add: unat_word_ariths)
  have up: "unat (s + word_of_nat j - d) = unat s + j - unat d" if "j < unat n" "unat d \<le> unat s + j" for j
    using that sj [OF that(1)] by (simp add: unat_sub word_le_nat_alt)
  have low: "unat (s + word_of_nat j - d) = 4294967296 + unat s + j - unat d" if "j < unat n" "unat s + j < unat d" for j
    using that sj [OF that(1)] unat_u32_less [of d] by (simp add: unat_sub_if_size word_size)
  consider (below) "d < s" | (above) "d \<ge> s + n" "\<not> d < s" | (inside) "\<not> d < s" "\<not> d \<ge> s + n" by blast
  then show ?thesis
  proof cases
    case below
    then have lt: "unat d < unat s" by (simp add: word_less_nat_alt)
    have "unat (s - d) = unat s - unat d" using lt by (simp add: unat_sub word_le_nat_alt)
    then have "memcpy_body m d s n = Some (put m d xs)"
      using lt up gap [OF below] by (intro memcpy_body_ok [OF c]) (auto simp: forward_def)
    then show ?thesis using below False by (simp add: memmove_body_def)
  next
    case above
    then have "unat s + unat n \<le> unat d" using sn by (simp add: word_le_nat_alt)
    then have "memcpy_body m d s n = Some (put m d xs)"
      using low dst by (intro memcpy_body_ok [OF c]) (auto simp: forward_def)
    then show ?thesis using above False by (simp add: memmove_body_def)
  next
    case inside
    then have "backward d s (unat n)"
      unfolding backward_def
    proof (intro allI impI)
      fix j assume "j < unat n"
      then show "unat (s + word_of_nat j - d) < j \<or> unat n \<le> unat (s + word_of_nat j - d)"
        using up [of j] low [of j] inside False dst
        by (cases "unat d \<le> unat s + j") (auto simp: word_less_nat_alt word_unat_eq_iff)
    qed
    then show ?thesis
      using inside False memmove_small_ok [OF c] memmove_8_ok [OF c] memmove_16_ok [OF c] memmove_large_ok [OF c]
      by (auto simp: memmove_body_def word_less_nat_alt word_le_nat_alt unat_gt_0)
  qed
qed

section \<open>Fills\<close>

lemma le32_same: "ucast v * 0x01010101 = le32 v v v v"
proof (rule word_unat_eq_iff [THEN iffD2])
  have "unat v < 256" by (rule unat_u8_less)
  then have "unat (ucast v * 0x01010101 :: u32) = unat v * 16843009"
    by (simp add: unat_word_ariths unsigned_ucast_eq take_bit_eq_mod)
  then show "unat (ucast v * 0x01010101 :: u32) = unat (le32 v v v v)"
    by (simp add: word_bytes [of "le32 v v v v"])
qed

lemma word4_replicate: "k + 4 \<le> N \<Longrightarrow> word4 (replicate N v) k = ucast v * 0x01010101"
  by (simp add: word4_def le32_same)

lemma fill_st:
  fixes n :: u32
  assumes "mapped m d (unat n)" "k + 4 \<le> unat n"
  shows "st32 (filled m d (replicate (unat n) v) S) (d + word_of_nat k) (ucast v * 0x01010101) =
    Some (filled m d (replicate (unat n) v) (S \<union> {k..<k + 4}))"
  using st32_filled [OF assms, of "replicate (unat n) v" S] word4_replicate [OF assms(2), of v] unat_u32_less [of n]
  by simp

lemma fill_st_first:
  fixes n :: u32
  assumes "mapped m d (unat n)" "k + 4 \<le> unat n"
  shows "st32 m (d + word_of_nat k) (ucast v * 0x01010101) =
    Some (filled m d (replicate (unat n) v) {k..<k + 4})"
  using fill_st [OF assms, of v "{}"] by (simp add: filled_empty)

lemma rep_stosl_ok:
  fixes n :: u32
  assumes "mapped m d (unat n)"
  shows "k + 4 * c \<le> unat n \<Longrightarrow>
    rep_stosl c (filled m d (replicate (unat n) v) S) (d + word_of_nat k) (ucast v * 0x01010101) =
    Some (filled m d (replicate (unat n) v) (S \<union> {k..<k + 4 * c}))"
proof (induction c arbitrary: k S)
  case (Suc c)
  have "(S \<union> {k..<k + 4}) \<union> {k + 4..<k + 4 + 4 * c} = S \<union> {k..<k + 4 * Suc c}" by auto
  then show ?case
    using Suc.IH [of "k + 4" "S \<union> {k..<k + 4}"] Suc.prems fill_st [OF assms, of k v S]
    by (simp add: ac_simps)
qed simp

lemma memset_small_ok:
  fixes n :: u32
  assumes m: "mapped m d (unat n)" and n: "unat n < 4"
  shows "memset_small m d v n = Some (put m d (replicate (unat n) v))"
proof -
  let ?F = "filled m d (replicate (unat n) v)"
  have st: "st8 (?F S) (d + word_of_nat k) v = Some (?F (insert k S))" if "k < unat n" for k S
    using st8_filled [OF m that, of "replicate (unat n) v" S] unat_u32_less [of n] that by simp
  have done': "Some (?F S) = Some (put m d (replicate (unat n) v))" if "S = {..<unat n}" for S
    using that by (intro fill_done) simp
  consider "unat n = 0" | "unat n = 1" | "unat n = 2" | "unat n = 3" using n by linarith
  then show ?thesis
  proof cases
    case 1
    then show ?thesis by (simp add: memset_small_def put_def unat_eq_zero)
  next
    case 2
    then have n: "n = 1" by (metis unat_1 word_unat_eq_iff)
    have "memset_small m d v n = Some (?F {0})"
      using st [of 0 "{}"] by (simp add: n memset_small_def filled_empty word_le_nat_alt)
    also have "\<dots> = Some (put m d (replicate (unat n) v))" by (rule done') (auto simp: n)
    finally show ?thesis .
  next
    case 3
    then have n: "n = 2" using word_unat_eq_iff [of n 2] by simp
    have "memset_small m d v n = Some (?F {1, 0})"
      using st [of 0 "{}"] st [of 1 "{0}"] st [of 1 "{1, 0}"] by (simp add: n memset_small_def filled_empty)
    also have "\<dots> = Some (put m d (replicate (unat n) v))" by (rule done') (auto simp: n)
    finally show ?thesis .
  next
    case 4
    then have n: "n = 3" using word_unat_eq_iff [of n 3] by simp
    have "memset_small m d v n = Some (?F {2, 1, 0})"
      using st [of 0 "{}"] st [of 1 "{0}"] st [of 2 "{1, 0}"]
      by (simp add: n memset_small_def filled_empty word_le_nat_alt)
    also have "\<dots> = Some (put m d (replicate (unat n) v))" by (rule done') (auto simp: n)
    finally show ?thesis .
  qed
qed

lemma memset_large_ok:
  fixes n :: u32
  assumes m: "mapped m d (unat n)" and n: "32 < unat n"
  shows "memset_large m d (ucast v * 0x01010101) n = Some (put m d (replicate (unat n) v))"
proof -
  let ?F = "filled m d (replicate (unat n) v)" and ?N = "unat n"
  let ?o = "(4 - (d AND 3)) AND 3" and ?k = "align_gap d"
  define q where "q = unat (drop_bit 2 (n - ?o))"
  have o: "?o = word_of_nat ?k" by (simp add: align_gap_def)
  have k: "?k < 4" by (rule align_gap_less)
  have q: "q = (?N - ?k) div 4" unfolding q_def using n by (rule movs_count)
  have "rep_stosl q (?F ({0..<4} \<union> {?N - 4..<?N})) (d + word_of_nat ?k) (ucast v * 0x01010101) =
      Some (?F ({0..<4} \<union> {?N - 4..<?N} \<union> {?k..<?k + 4 * q}))"
    using n k q by (intro rep_stosl_ok [OF m]) auto
  then have "memset_large m d (ucast v * 0x01010101) n =
      Some (?F ({0..<4} \<union> {?N - 4..<?N} \<union> {?k..<?k + 4 * q}))"
    using n fill_st_first [OF m, of 0 v] fill_st [OF m, of "?N - 4" v "{0..<4}"]
    by (simp add: memset_large_def Let_def o [symmetric] q_def add_diff_eq)
  also have "\<dots> = Some (put m d (replicate (unat n) v))"
  proof (rule fill_done)
    have "?N < ?k + 4 * q + 4" "?k + 4 * q \<le> ?N" using q k n by auto
    then show "{0..<4} \<union> {?N - 4..<?N} \<union> {?k..<?k + 4 * q} = {..<length (replicate (unat n) v)}"
      using k n by auto
  qed
  finally show ?thesis .
qed

lemma memset_body_ok:
  fixes n :: u32
  assumes m: "mapped m d (unat n)"
  shows "memset_body m d v n = Some (put m d (replicate (unat n) v))"
proof -
  let ?F = "filled m d (replicate (unat n) v)" and ?N = "unat n" and ?c = "ucast v * 0x01010101 :: u32"
  note st = fill_st [OF m] and first = fill_st_first [OF m, of 0 v, simplified]
  have fin: "Some (?F S) = Some (put m d (replicate ?N v))" if "S = {..<?N}" for S
    using that by (intro fill_done) simp
  consider (small) "?N < 4" | (c8) "4 \<le> ?N" "?N \<le> 8" | (c16) "8 < ?N" "?N \<le> 16" | (c32) "16 < ?N" "?N \<le> 32"
    | (large) "32 < ?N" by linarith
  then show ?thesis
  proof cases
    case small
    then show ?thesis using memset_small_ok [OF m] by (simp add: memset_body_def word_less_nat_alt)
  next
    case c8
    then have "memset_body m d v n = Some (?F ({0..<4} \<union> {?N - 4..<?N}))"
      using first st [of "?N - 4" v] by (simp add: memset_body_def Let_def word_less_nat_alt word_le_nat_alt add_diff_eq)
    also have "\<dots> = Some (put m d (replicate ?N v))" using c8 by (intro fin) auto
    finally show ?thesis .
  next
    case c16
    then have "memset_16 m d ?c n = Some (?F ({0..<4} \<union> {4..<8} \<union> {?N - 8..<?N - 8 + 4} \<union> {?N - 4..<?N}))"
      using first st [of 4 v] st [of "?N - 8" v] st [of "?N - 4" v] by (simp add: memset_16_def add_diff_eq)
    also have "\<dots> = Some (put m d (replicate ?N v))" using c16 by (intro fin) auto
    finally show ?thesis using c16 by (simp add: memset_body_def Let_def word_less_nat_alt word_le_nat_alt)
  next
    case c32
    then have "memset_32 m d ?c n = Some (?F ({0..<4} \<union> {4..<8} \<union> {8..<12} \<union> {12..<16} \<union>
        {?N - 16..<?N - 16 + 4} \<union> {?N - 12..<?N - 12 + 4} \<union> {?N - 8..<?N - 8 + 4} \<union> {?N - 4..<?N}))"
      using first st [of 4 v] st [of 8 v] st [of 12 v]
        st [of "?N - 16" v] st [of "?N - 12" v] st [of "?N - 8" v] st [of "?N - 4" v]
      by (simp add: memset_32_def add_diff_eq)
    also have "\<dots> = Some (put m d (replicate ?N v))" using c32 by (intro fin) auto
    finally show ?thesis using c32 by (simp add: memset_body_def Let_def word_less_nat_alt word_le_nat_alt)
  next
    case large
    then show ?thesis using memset_large_ok [OF m] by (simp add: memset_body_def Let_def word_less_nat_alt word_le_nat_alt)
  qed
qed

lemma movnti_16_ok:
  assumes m: "mapped m d 4096" and k: "k + 64 \<le> 4096"
  shows "movnti_16 (filled m d (replicate 4096 0) {..<k}) (d + word_of_nat k) =
    Some (filled m d (replicate 4096 0) {..<k + 64})"
proof -
  let ?F = "filled m d (replicate 4096 0)"
  have st: "st32 (?F {..<j}) (d + word_of_nat j) 0 = Some (?F {..<j + 4})" if "j + 4 \<le> 4096" for j
  proof -
    have "{..<j} \<union> {j..<j + 4} = {..<j + 4}" by auto
    then show ?thesis using fill_st [where n = "4096" and m = m and d = d and k = j and v = 0] m that by simp
  qed
  show ?thesis
    using k st [of k] st [of "k + 4"] st [of "k + 8"] st [of "k + 12"] st [of "k + 16"] st [of "k + 20"]
      st [of "k + 24"] st [of "k + 28"] st [of "k + 32"] st [of "k + 36"] st [of "k + 40"] st [of "k + 44"]
      st [of "k + 48"] st [of "k + 52"] st [of "k + 56"] st [of "k + 60"]
    by (simp add: movnti_16_def add.assoc)
qed

lemma movnti_loop_ok:
  assumes m: "mapped m d 4096"
  shows "k + 64 * c = 4096 \<Longrightarrow> movnti_loop c (filled m d (replicate 4096 0) {..<k}) (d + word_of_nat k) =
    Some (filled m d (replicate 4096 0) {..<4096})"
proof (induction c arbitrary: k)
  case (Suc c)
  then show ?case using movnti_16_ok [OF m, of k] Suc.IH [of "k + 64"] by (simp add: add.assoc)
qed simp

lemma memzero_nt_page_ok: "mapped m d 4096 \<Longrightarrow> memzero_nt_page m d = Some (put m d (replicate 4096 0))"
  using movnti_loop_ok [of m d 0 64] filled_all [of m d "replicate 4096 0"]
  by (simp add: memzero_nt_page_def filled_empty)

section \<open>Comparison of blocks\<close>

lemma shift_down: "c < 32 \<Longrightarrow> unat (word_of_nat c AND NOT (7 :: u32)) = 8 * (c div 8)"
proof -
  have "list_all (\<lambda>c. unat (word_of_nat c AND NOT (7 :: u32)) = 8 * (c div 8)) [0..<32]" by code_simp
  then show "c < 32 \<Longrightarrow> unat (word_of_nat c AND NOT (7 :: u32)) = 8 * (c div 8)" by (simp add: list_all_iff)
qed

lemma uint_byte: "uint (drop_bit (8 * i) v AND 0xFF) = uint (byte i v)"
proof -
  have "drop_bit (8 * i) v AND 0xFF = take_bit 8 (drop_bit (8 * i) v)"
    unfolding take_bit_eq_mask by (simp add: mask_eq_exp_minus_1)
  then show ?thesis by (simp only: byte_def unsigned_take_bit_eq unsigned_ucast_eq) simp
qed

lemma first_diff_byte:
  assumes "va \<noteq> vb"
  obtains i where "i < 4" "\<forall>j < i. byte j va = byte j vb" "byte i va \<noteq> byte i vb"
    "first_diff va vb = uint (byte i va) - uint (byte i vb)"
proof -
  let ?c = "ctz (va XOR vb)"
  have "va XOR vb \<noteq> 0" using assms by (metis xor.right_neutral xor_self_eq xor.assoc)
  note c = ctz_spec [OF this]
  have "byte j va = byte j vb" if "j < ?c div 8" for j
  proof (rule bit_word_eqI)
    fix n assume "n < LENGTH(8)"
    then have "8 * j + n < ?c" using that by auto
    from c(3) [OF this] show "bit (byte j va) n = bit (byte j vb) n" by (auto simp: bit_byte bit_xor_iff)
  qed
  moreover have "byte (?c div 8) va \<noteq> byte (?c div 8) vb"
  proof
    assume e: "byte (?c div 8) va = byte (?c div 8) vb"
    have "bit va ?c = bit vb ?c"
      using arg_cong [OF e, of "\<lambda>b. bit b (?c mod 8)"] by (simp add: bit_byte)
    then show False using c(2) by (simp add: bit_xor_iff)
  qed
  moreover have "first_diff va vb = uint (byte (?c div 8) va) - uint (byte (?c div 8) vb)"
    unfolding first_diff_def Let_def shift_down [OF c(1)] uint_byte ..
  ultimately show ?thesis using that [of "?c div 8"] c(1) by auto
qed

lemma first_diff_le32:
  assumes "le32 x0 x1 x2 x3 \<noteq> le32 y0 y1 y2 y3"
  shows "first_diff (le32 x0 x1 x2 x3) (le32 y0 y1 y2 y3) = bytes_diff [x0, x1, x2, x3] [y0, y1, y2, y3]"
proof -
  let ?x = "le32 x0 x1 x2 x3" and ?y = "le32 y0 y1 y2 y3"
  obtain i where i: "i < 4" "\<forall>j < i. byte j ?x = byte j ?y" "byte i ?x \<noteq> byte i ?y"
    "first_diff ?x ?y = uint (byte i ?x) - uint (byte i ?y)" using first_diff_byte [OF assms] by blast
  consider "i = 0" | "i = Suc 0" | "i = 2" | "i = 3" using i(1) by linarith
  then show ?thesis
    using i(2) [rule_format, of 0] i(2) [rule_format, of "Suc 0"] i(2) [rule_format, of 2] i(3,4) by cases auto
qed

lemma holds_Cons: "holds m a (x # xs) \<longleftrightarrow> m a = Some x \<and> holds m (a + 1) xs"
  unfolding holds_def by (auto simp: less_Suc_eq_0_disj add.assoc)

lemma holds_Nil [simp]: "holds m a []"
  by (simp add: holds_def)

lemma memcmp_ok:
  "holds m a xs \<Longrightarrow> holds m b ys \<Longrightarrow> length xs = unat n \<Longrightarrow> length ys = unat n \<Longrightarrow>
   memcmp m a b n = Some (bytes_diff xs ys)"
proof (induction "unat n" arbitrary: a b xs ys n rule: less_induct)
  case less
  consider (long) "4 \<le> unat n" | "unat n = 0" | "unat n = 1" | "unat n = 2" | "unat n = 3" by linarith
  then show ?case
  proof cases
    case long
    obtain x0 x1 x2 x3 xs' where x: "xs = x0 # x1 # x2 # x3 # xs'"
      using long less.prems(3) by (auto simp: numeral_eq_Suc Suc_le_length_iff dest!: sym [of "length xs"])
    obtain y0 y1 y2 y3 ys' where y: "ys = y0 # y1 # y2 # y3 # ys'"
      using long less.prems(4) by (auto simp: numeral_eq_Suc Suc_le_length_iff dest!: sym [of "length ys"])
    have h: "holds m (a + 4) xs'" "holds m (b + 4) ys'"
      and l: "ld32 m a = Some (le32 x0 x1 x2 x3)" "ld32 m b = Some (le32 y0 y1 y2 y3)"
      using less.prems(1,2) x y by (auto simp: holds_Cons ld32_def add.assoc)
    have n: "4 \<le> n" "unat (n - 4) = unat n - 4" using long by (auto simp: word_le_nat_alt unat_sub)
    show ?thesis
    proof (cases "le32 x0 x1 x2 x3 = le32 y0 y1 y2 y3")
      case True
      then have "memcmp m a b n = memcmp m (a + 4) (b + 4) (n - 4)"
        using n l by (subst memcmp.simps) simp
      also have "\<dots> = Some (bytes_diff xs' ys')"
        using h n long less.prems(3,4) x y by (intro less.hyps) auto
      finally show ?thesis using True x y by simp
    next
      case False
      then have "memcmp m a b n = Some (first_diff (le32 x0 x1 x2 x3) (le32 y0 y1 y2 y3))"
        using n l by (subst memcmp.simps) simp
      then show ?thesis using first_diff_le32 [OF False] False x y by auto
    qed
  next
    case 2
    then have "n = 0" "xs = []" using less.prems(3) by (auto simp: unat_eq_zero)
    then show ?thesis by (subst memcmp.simps) (simp add: word_le_nat_alt)
  next
    case 3
    then have n: "n = 1" by (metis unat_1 word_unat_eq_iff)
    obtain x y where "xs = [x]" "ys = [y]" using 3 less.prems(3,4) by (auto simp: length_Suc_conv)
    then show ?thesis using less.prems(1,2) by (subst memcmp.simps) (simp add: n word_le_nat_alt holds_Cons)
  next
    case 4
    then have n: "n = 2" using word_unat_eq_iff [of n 2] by simp
    obtain x0 x1 y0 y1 where "xs = [x0, x1]" "ys = [y0, y1]"
      using 4 less.prems(3,4) by (auto simp: length_Suc_conv numeral_eq_Suc)
    then show ?thesis
      using less.prems(1,2) first_diff_le32 [of x0 x1 0 0 y0 y1 0 0]
      by (subst memcmp.simps) (auto simp: n word_le_nat_alt holds_Cons ld16_def)
  next
    case 5
    then have n: "n = 3" using word_unat_eq_iff [of n 3] by simp
    obtain x0 x1 x2 y0 y1 y2 where "xs = [x0, x1, x2]" "ys = [y0, y1, y2]"
      using 5 less.prems(3,4) by (auto simp: length_Suc_conv numeral_eq_Suc)
    then show ?thesis
      using less.prems(1,2) first_diff_le32 [of x0 x1 0 0 y0 y1 0 0]
      by (subst memcmp.simps) (auto simp: n word_le_nat_alt holds_Cons ld16_def add.assoc)
  qed
qed

section \<open>Overlap by less than a word\<close>

text \<open>
  A move down by one byte to an aligned address: the first dword is stored before the loop reads it again, so
  that the loop copies bytes the first store has already replaced.
\<close>

lemma overlap_first:
  assumes c: "copies m d (d + 1) xs n" and n: "32 < unat n"
  defines "ys \<equiv> [xs ! 1, xs ! 2, xs ! 3, xs ! 3] @ drop 4 xs"
  shows "ld32 (filled m d xs {0..<4}) (d + 1) = Some (word4 ys 0)"
    "st32 (filled m d xs {0..<4}) d (word4 ys 0) = Some (filled m d ys {0..<4})"
proof -
  have "m (d + 1 + word_of_nat 3) = Some (xs ! 3)" using copies_get [OF c, of 3 "{}"] n by (simp add: filled_empty)
  then show "ld32 (filled m d xs {0..<4}) (d + 1) = Some (word4 ys 0)"
    by (simp add: ld32_def filled_def word4_def ys_def add.assoc)
  have "mapped (filled m d xs {0..<4}) d (unat n)" using c by (auto simp: copies_def mapped_def filled_def)
  from st32_filled [OF this, of 0 ys "{}"]
  have "st32 (filled m d xs {0..<4}) d (word4 ys 0) = Some (filled (filled m d xs {0..<4}) d ys {0..<4})"
    using n unat_u32_less [of n] by (simp add: filled_empty)
  moreover have "filled (filled m d xs {0..<4}) d ys {0..<4} = filled m d ys {0..<4}"
    by (auto simp: filled_def fun_eq_iff)
  ultimately show "st32 (filled m d xs {0..<4}) d (word4 ys 0) = Some (filled m d ys {0..<4})" by simp
qed

lemma overlap_rest:
  assumes c: "copies m d (d + 1) xs n" and n: "32 < unat n"
  defines "ys \<equiv> [xs ! 1, xs ! 2, xs ! 3, xs ! 3] @ drop 4 xs"
    and "zs \<equiv> [xs ! 2, xs ! 3, xs ! 3, xs ! 3] @ drop 4 xs"
  shows "copies (filled m d ys {0..<4}) d (d + 1) zs n"
proof -
  have len: "length xs = unat n" by (rule copies_len [OF c])
  have "filled m d ys {0..<4} (d + 1 + word_of_nat i) = Some (zs ! i)" if "i < unat n" for i
  proof (cases "i < 3")
    case True
    then consider "i = 0" | "i = 1" | "i = 2" by linarith
    then show ?thesis by cases (simp_all add: filled_def ys_def zs_def)
  next
    case False
    have "Suc i < 4294967296" using that unat_u32_less [of n] by simp
    then have "unat (1 + word_of_nat i :: u32) = Suc i" using unat_of_nat_u32 [of "Suc i"] by simp
    moreover have "m (d + 1 + word_of_nat i) = Some (xs ! i)" using c that len by (simp add: copies_def holds_def)
    moreover have "zs ! i = xs ! i" using False that len n
      by (cases "i = 3") (auto simp: zs_def nth_append)
    ultimately show ?thesis using False by (simp add: filled_def add.assoc)
  qed
  moreover have "length zs = unat n" using len n by (simp add: zs_def)
  ultimately show ?thesis using c by (auto simp: copies_def holds_def mapped_def filled_def)
qed

lemma memcpy_large_overlap:
  assumes c: "copies m d (d + 1) xs n" and n: "32 < unat n" and d: "d AND 3 = 0"
  shows "memcpy_large m d (d + 1) n = Some (put m d ([xs ! 1, xs ! 2, xs ! 3, xs ! 3] @ drop 4 xs))"
proof -
  let ?N = "unat n" and ?q = "unat n div 4 - 1"
  let ?ys = "[xs ! 1, xs ! 2, xs ! 3, xs ! 3] @ drop 4 xs" and ?zs = "[xs ! 2, xs ! 3, xs ! 3, xs ! 3] @ drop 4 xs"
  let ?M = "filled m d ?ys {0..<4}"
  have len: "length xs = ?N" by (rule copies_len [OF c])
  note c' = overlap_rest [OF c n] and first = overlap_first [OF c n]
  have fwd: "forward d (d + 1) ?N"
  proof -
    have "unat (1 + word_of_nat j :: u32) = Suc j" if "j < ?N" for j
      using that unat_u32_less [of n] unat_of_nat_u32 [of "Suc j"] by simp
    then show ?thesis by (simp add: forward_def add.assoc)
  qed
  have q: "4 * (Suc ?q) \<le> ?N" "?N < 4 * Suc ?q + 4" "?N div 4 = Suc ?q" using n by auto
  have "rep_movsl ?q (filled ?M d ?zs {}) (d + word_of_nat 4) (d + 1 + word_of_nat 4) =
      Some (filled ?M d ?zs ({} \<union> {4..<4 + 4 * ?q}))"
    using q by (intro rep_movsl_ok [OF c' _ fwd]) auto
  then have "rep_movsl (Suc ?q) (filled m d xs {0..<4}) d (d + 1) = Some (filled ?M d ?zs {4..<4 * Suc ?q})"
    using first by (simp add: filled_empty add.assoc)
  moreover have "word4 xs (?N - 4) = word4 ?zs (?N - 4)"
  proof -
    have "Suc (?N - 4) = ?N - 3" "Suc (Suc (?N - 4)) = ?N - 2" using n by auto
    then show ?thesis using n len by (simp add: word4_def nth_append)
  qed
  moreover have "unat (drop_bit 2 n) = Suc ?q"
    using movs_count [OF n, of d] d q(3) by (simp add: align_gap_def)
  ultimately have "memcpy_large m d (d + 1) n = Some (filled ?M d ?zs ({4..<4 * Suc ?q} \<union> {?N - 4..<?N}))"
    using n d copies_ld [OF c, of 0] copies_ld [OF c, of "?N - 4"]
      copies_st_first [OF c, of 0] copies_st [OF c', of "?N - 4" "{4..<4 * Suc ?q}"]
    by (simp add: memcpy_large_def Let_def add_diff_eq del: rep_movsl.simps)
  moreover have "{4..<4 * Suc ?q} \<union> {?N - 4..<?N} = {4..<?N}" using q n by auto
  moreover have "filled ?M d ?zs {4..<?N} = put m d ?ys"
    using n len by (auto simp: filled_def put_def fun_eq_iff nth_append)
  ultimately show ?thesis by simp
qed


section \<open>Properties\<close>

lemma unat_add_small: "unat a + k < 4294967296 \<Longrightarrow> unat (a + word_of_nat k) = unat a + k" for a :: u32
  by (simp add: unat_word_ariths unat_of_nat)

lemma disjoint_blocks:
  fixes d s :: u32
  assumes "N \<le> unat (s - d)" "N \<le> unat (d - s)" "j < N"
  shows "N \<le> unat (s + word_of_nat j - d)"
proof -
  have "unat (s - d) + unat (d - s) = 4294967296"
  proof -
    have "s - d \<noteq> 0" using assms by auto
    then show ?thesis using unat_sub_if_size [of s d] unat_sub_if_size [of d s] unat_u32_less [of s] unat_u32_less [of d]
      by (auto simp: word_size word_unat_eq_iff split: if_splits)
  qed
  then have "unat (s - d + word_of_nat j) = unat (s - d) + j"
    using assms by (intro unat_add_small) simp
  then show ?thesis using assms(1) by (simp add: algebra_simps)
qed

definition wit_mem :: mem where
  "wit_mem = (\<lambda>a. if 0x1000 \<le> a \<and> a < 0x1100 then Some (ucast a) else None)"

definition wit_bytes :: "nat \<Rightarrow> nat \<Rightarrow> u8 list" where
  "wit_bytes k n = map word_of_nat [k..<k + n]"

lemma wit_mem_at: "i < 256 \<Longrightarrow> wit_mem (0x1000 + word_of_nat i) = Some (word_of_nat i)"
proof -
  assume i: "i < 256"
  then have u: "unat (0x1000 + word_of_nat i :: u32) = 4096 + i" using unat_add_small [of "0x1000" i] by simp
  have "ucast (0x1000 + word_of_nat i :: u32) = (word_of_nat i :: u8)"
    using i by (simp add: word_unat_eq_iff unsigned_ucast_eq u take_bit_eq_mod unat_of_nat mod_add_eq [symmetric])
  then show ?thesis using i u by (simp add: wit_mem_def word_le_nat_alt word_less_nat_alt)
qed

lemma wit_holds: "k + n \<le> 256 \<Longrightarrow> a = 0x1000 + word_of_nat k \<Longrightarrow> holds wit_mem a (wit_bytes k n)"
  using wit_mem_at by (simp add: holds_def wit_bytes_def add.assoc flip: of_nat_add)

lemma wit_mapped: "k + n \<le> 256 \<Longrightarrow> a = 0x1000 + word_of_nat k \<Longrightarrow> mapped wit_mem a n"
  using wit_mem_at by (simp add: mapped_def add.assoc flip: of_nat_add)

lemma wit_length: "length (wit_bytes k n) = n"
  by (simp add: wit_bytes_def)

text \<open>
  C19: \<open>memcpy\<close> of blocks that do not overlap returns the destination, and the memory it leaves has the
  source's bytes in the destination and is unchanged everywhere else, for every size and every alignment.
\<close>

theorem memcpy_correct:
  assumes "holds m src xs" "mapped m dst (length xs)" "length xs = unat n"
    "n \<le> src - dst" "n \<le> dst - src"
  shows "memcpy m dst src n = Some (put m dst xs, dst)"
proof -
  have "memcpy_body m dst src n = Some (put m dst xs)"
  proof (rule memcpy_body_ok)
    note d = disjoint_blocks [OF assms(4,5) [unfolded word_le_nat_alt]]
    show "copies m dst src xs n" using assms(1-3) by (simp add: copies_def)
    show "forward dst src (unat n)" using d by (auto simp: forward_def dest: less_le_trans)
    show "4 \<le> unat (src + word_of_nat j - dst)" if "32 < unat n" "j < unat n" for j
      using d [OF that(2)] that(1) by simp
  qed
  then show ?thesis by (simp add: memcpy_def)
qed

theorem memcpy_correct_witness:
  "memcpy wit_mem 0x1081 0x1002 37 = Some (put wit_mem 0x1081 (wit_bytes 2 37), 0x1081)"
proof (rule memcpy_correct)
  show "holds wit_mem 0x1002 (wit_bytes 2 37)" by (rule wit_holds) simp_all
  show "mapped wit_mem 0x1081 (length (wit_bytes 2 37))"
    unfolding wit_length by (rule wit_mapped [where k = 129]) simp_all
qed (simp_all add: wit_length)

text \<open>
  C20: \<open>memmove\<close> copies a block onto a destination that may overlap it, in both directions, except that a block of
  more than 32 bytes is only known to be copied down when the distance and the alignment gap
  of the destination make up a dword.
\<close>

theorem memmove_correct:
  assumes "holds m src xs" "mapped m dst (length xs)" "length xs = unat n"
    "unat src + unat n < 2 ^ 32" "unat dst + unat n \<le> 2 ^ 32"
    "dst < src \<and> 32 < n \<longrightarrow> 4 \<le> align_gap dst + unat (src - dst)"
  shows "memmove m dst src n = Some (put m dst xs, dst)"
proof -
  have "memmove_body m dst src n = Some (put m dst xs)"
    using assms by (intro memmove_body_ok) (auto simp: copies_def word_less_nat_alt)
  then show ?thesis by (simp add: memmove_def)
qed

theorem memmove_correct_witness:
  "memmove wit_mem 0x1005 0x1002 37 = Some (put wit_mem 0x1005 (wit_bytes 2 37), 0x1005)"
proof (rule memmove_correct)
  show "holds wit_mem 0x1002 (wit_bytes 2 37)" by (rule wit_holds) simp_all
  show "mapped wit_mem 0x1005 (length (wit_bytes 2 37))"
    unfolding wit_length by (rule wit_mapped [where k = 5]) simp_all
qed (simp_all add: wit_length)

text \<open>
  C21: the excepted case goes wrong. Moving more than 32 bytes down by one byte to an
  aligned address leaves the second, third, fourth and fourth byte of the block in its first four places.
\<close>

theorem memmove_down_one_corrupts:
  assumes "holds m (dst + 1) xs" "mapped m dst (length xs)" "length xs = unat n"
    "32 < n" "dst AND 3 = 0" "dst < dst + 1"
  shows "memmove m dst (dst + 1) n = Some (put m dst ([xs ! 1, xs ! 2, xs ! 3, xs ! 3] @ drop 4 xs), dst)"
proof -
  have "memcpy_large m dst (dst + 1) n = Some (put m dst ([xs ! 1, xs ! 2, xs ! 3, xs ! 3] @ drop 4 xs))"
    using assms by (intro memcpy_large_overlap) (auto simp: copies_def word_less_nat_alt)
  moreover have "memmove_body m dst (dst + 1) n = memcpy_large m dst (dst + 1) n"
    using assms(4,6) by (auto simp: memmove_body_def memcpy_body_def word_less_nat_alt word_le_nat_alt)
  ultimately show ?thesis by (simp add: memmove_def)
qed

theorem memmove_down_one_corrupts_witness:
  "memmove wit_mem 0x1004 0x1005 40 = Some (put wit_mem 0x1004 ([6, 7, 8, 8] @ wit_bytes 9 36), 0x1004) \<and>
   put wit_mem 0x1004 ([6, 7, 8, 8] @ wit_bytes 9 36) 0x1004 = Some 6 \<and> wit_mem 0x1005 = Some 5"
proof -
  have "memmove wit_mem 0x1004 (0x1004 + 1) 40 =
      Some (put wit_mem 0x1004 ([wit_bytes 5 40 ! 1, wit_bytes 5 40 ! 2, wit_bytes 5 40 ! 3, wit_bytes 5 40 ! 3] @
        drop 4 (wit_bytes 5 40)), 0x1004)"
  proof (rule memmove_down_one_corrupts)
    show "holds wit_mem (0x1004 + 1) (wit_bytes 5 40)" by (rule wit_holds) simp_all
    show "mapped wit_mem 0x1004 (length (wit_bytes 5 40))"
      unfolding wit_length by (rule wit_mapped [where k = 4]) simp_all
  qed (simp_all add: wit_length)
  then show ?thesis by (simp add: wit_bytes_def put_def wit_mem_def drop_map)
qed

text \<open>
  \<open>memset\<close> stores the low byte of its argument in every place of the block, for every size and alignment, and
  changes nothing else.
\<close>

theorem memset_correct:
  assumes "mapped m dst (unat n)"
  shows "memset m dst v n = Some (put m dst (replicate (unat n) (ucast v)), dst)"
  using memset_body_ok [OF assms] by (simp add: memset_def)

theorem memset_correct_witness:
  "memset wit_mem 0x1003 0x1FF 35 = Some (put wit_mem 0x1003 (replicate (unat (35 :: u32)) (ucast (0x1FF :: u32))), 0x1003)"
proof (rule memset_correct)
  show "mapped wit_mem 0x1003 (unat (35 :: u32))" by (rule wit_mapped [where k = 3]) simp_all
qed

text \<open>
  C22: \<open>memcmp\<close> returns the difference of the first two bytes that differ, and zero when the blocks are equal; its word
  and half-word comparisons agree with the comparison byte by byte.
\<close>

theorem memcmp_correct:
  assumes "holds m a xs" "holds m b ys" "length xs = unat n" "length ys = unat n"
  shows "memcmp m a b n = Some (bytes_diff xs ys)"
  using assms by (rule memcmp_ok)

theorem memcmp_correct_witness:
  "memcmp wit_mem 0x1000 0x1010 7 = Some (bytes_diff (wit_bytes 0 7) (wit_bytes 16 7))"
proof (rule memcmp_correct)
  show "holds wit_mem 0x1000 (wit_bytes 0 7)" by (rule wit_holds) simp_all
  show "holds wit_mem 0x1010 (wit_bytes 16 7)" by (rule wit_holds) simp_all
qed (simp_all add: wit_length)

end
