(* ===== verification/KString.thy ===== *)
theory KString
  imports KMem
begin

text \<open>
  \<open>src/src/lib/string.c\<close>: the kernel's C string and memory routines on the byte-addressed memory of
  \<open>Memory\<close>. The word-at-a-time loops are kept as written, with their alignment prologues, their
  four-fold unrolling and their word reads beyond the terminator. An access to an unmapped address is
  \<open>None\<close>, and so is a loop that does not end, so that every equation \<open>f \<dots> = Some \<dots>\<close> below
  states that the routine returns and that it touches mapped memory only. A
  C \<open>int\<close> result is the difference of two bytes and is an \<^typ>\<open>int\<close>.
\<close>

section \<open>Comparison\<close>

text \<open>
  \<open>strcmp\<close> (lines 14 to 81): the byte loop up to the alignment of \<open>a\<close>, the word loop, which stops
  where a word of \<open>b\<close> would cross a page, and the unrolled byte loop.
\<close>

partial_function (option) strcmp_align :: "mem \<Rightarrow> u32 \<Rightarrow> u32 \<Rightarrow> (int + u32 \<times> u32) option" where
  "strcmp_align m a b =
     (if a AND 3 \<noteq> 0 then do {
        ac \<leftarrow> m a;
        bc \<leftarrow> m b;
        if ac \<noteq> bc then Some (Inl (uint ac - uint bc))
        else if ac = 0 then Some (Inl 0)
        else strcmp_align m (a + 1) (b + 1)
      }
      else Some (Inr (a, b)))"

partial_function (option) strcmp_words :: "mem \<Rightarrow> u32 \<Rightarrow> u32 \<Rightarrow> (u32 \<times> u32) option" where
  "strcmp_words m a b =
     (if b AND 0xFFF > 0xFFC then Some (a, b)
      else do {
        va \<leftarrow> ld32 m a;
        vb \<leftarrow> ld32 m b;
        if va \<noteq> vb \<or> has_zero va \<noteq> 0 then Some (a, b)
        else strcmp_words m (a + 4) (b + 4)
      })"

partial_function (option) strcmp_bytes :: "mem \<Rightarrow> u32 \<Rightarrow> u32 \<Rightarrow> int option" where
  "strcmp_bytes m a b = do {
     ac \<leftarrow> m a; bc \<leftarrow> m b;
     if ac \<noteq> bc \<or> ac = 0 then Some (uint ac - uint bc)
     else do {
       ac \<leftarrow> m (a + 1); bc \<leftarrow> m (b + 1);
       if ac \<noteq> bc \<or> ac = 0 then Some (uint ac - uint bc)
       else do {
         ac \<leftarrow> m (a + 2); bc \<leftarrow> m (b + 2);
         if ac \<noteq> bc \<or> ac = 0 then Some (uint ac - uint bc)
         else do {
           ac \<leftarrow> m (a + 3); bc \<leftarrow> m (b + 3);
           if ac \<noteq> bc \<or> ac = 0 then Some (uint ac - uint bc)
           else strcmp_bytes m (a + 4) (b + 4)
         }
       }
     }
   }"

definition strcmp :: "mem \<Rightarrow> u32 \<Rightarrow> u32 \<Rightarrow> int option" where
  "strcmp m a b =
     (if a = b then Some 0
      else do {
        r \<leftarrow> strcmp_align m a b;
        case r of
          Inl v \<Rightarrow> Some v
        | Inr (a1, b1) \<Rightarrow> do {
            (a2, b2) \<leftarrow> strcmp_words m a1 b1;
            strcmp_bytes m a2 b2
          }
      })"

text \<open>\<open>strncmp\<close> (lines 152 to 175); its counter bounds the loop.\<close>

fun strncmp_loop :: "mem \<Rightarrow> u32 \<Rightarrow> u32 \<Rightarrow> nat \<Rightarrow> int option" where
  "strncmp_loop m a b 0 = Some 0"
| "strncmp_loop m a b (Suc n) = do {
     ac \<leftarrow> m a;
     bc \<leftarrow> m b;
     if ac \<noteq> bc then Some (uint ac - uint bc)
     else if ac = 0 then Some 0
     else strncmp_loop m (a + 1) (b + 1) n
   }"

definition strncmp :: "mem \<Rightarrow> u32 \<Rightarrow> u32 \<Rightarrow> u32 \<Rightarrow> int option" where
  "strncmp m a b n = (if n = 0 then Some 0 else strncmp_loop m a b (unat n))"

section \<open>Length and copies of strings\<close>

text \<open>
  The position of the first zero byte of a word that has one, as the three masks find it
  (\<open>strlen\<close>, \<open>strlcpy\<close> and \<open>strlcat\<close>).
\<close>

definition zero_pos :: "u32 \<Rightarrow> u32" where
  "zero_pos v =
     (if v AND 0xFF = 0 then 0
      else if v AND 0xFF00 = 0 then 1
      else if v AND 0xFF0000 = 0 then 2
      else 3)"

text \<open>\<open>strlen\<close> (lines 83 to 150).\<close>

partial_function (option) strlen_align :: "mem \<Rightarrow> u32 \<Rightarrow> u32 \<Rightarrow> (u32 + u32) option" where
  "strlen_align m start s =
     (if s AND 3 \<noteq> 0 then do {
        c \<leftarrow> m s;
        if c = 0 then Some (Inl (s - start)) else strlen_align m start (s + 1)
      }
      else Some (Inr s))"

partial_function (option) strlen_words :: "mem \<Rightarrow> u32 \<Rightarrow> u32 option" where
  "strlen_words m p = do {
     v0 \<leftarrow> ld32 m p;
     if has_zero v0 \<noteq> 0 then Some p
     else do {
       v1 \<leftarrow> ld32 m (p + 4);
       if has_zero v1 \<noteq> 0 then Some (p + 4)
       else do {
         v2 \<leftarrow> ld32 m (p + 8);
         if has_zero v2 \<noteq> 0 then Some (p + 8)
         else do {
           v3 \<leftarrow> ld32 m (p + 12);
           if has_zero v3 \<noteq> 0 then Some (p + 12) else strlen_words m (p + 16)
         }
       }
     }
   }"

definition strlen :: "mem \<Rightarrow> u32 \<Rightarrow> u32 option" where
  "strlen m start = do {
     r \<leftarrow> strlen_align m start start;
     case r of
       Inl len \<Rightarrow> Some len
     | Inr p \<Rightarrow> do {
         s \<leftarrow> strlen_words m p;
         v \<leftarrow> ld32 m s;
         Some (s - start + zero_pos v)
       }
   }"

text \<open>
  \<open>strlcpy\<close> (lines 195 to 297): the unrolled copy loop, the byte loop for the last three places, and the
  scan for the length of what did not fit. A copy loop returns \<open>Inl\<close> when it met the terminator.
\<close>

partial_function (option) strlcpy_quads ::
  "u32 \<Rightarrow> mem \<Rightarrow> u32 \<Rightarrow> u32 \<Rightarrow> u32 \<Rightarrow> (mem \<times> u32 + mem \<times> u32 \<times> u32 \<times> u32) option" where
  "strlcpy_quads src m d s n =
     (if 4 \<le> n then do {
        c0 \<leftarrow> m s;
        if c0 = 0 then do { m \<leftarrow> st8 m d 0; Some (Inl (m, s - src)) }
        else do {
          m \<leftarrow> st8 m d c0;
          c1 \<leftarrow> m (s + 1);
          if c1 = 0 then do { m \<leftarrow> st8 m (d + 1) 0; Some (Inl (m, s - src + 1)) }
          else do {
            m \<leftarrow> st8 m (d + 1) c1;
            c2 \<leftarrow> m (s + 2);
            if c2 = 0 then do { m \<leftarrow> st8 m (d + 2) 0; Some (Inl (m, s - src + 2)) }
            else do {
              m \<leftarrow> st8 m (d + 2) c2;
              c3 \<leftarrow> m (s + 3);
              if c3 = 0 then do { m \<leftarrow> st8 m (d + 3) 0; Some (Inl (m, s - src + 3)) }
              else do {
                m \<leftarrow> st8 m (d + 3) c3;
                strlcpy_quads src m (d + 4) (s + 4) (n - 4)
              }
            }
          }
        }
      }
      else Some (Inr (m, d, s, n)))"

fun strlcpy_bytes ::
  "u32 \<Rightarrow> mem \<Rightarrow> u32 \<Rightarrow> u32 \<Rightarrow> nat \<Rightarrow> (mem \<times> u32 + mem \<times> u32 \<times> u32) option" where
  "strlcpy_bytes src m d s 0 = Some (Inr (m, d, s))"
| "strlcpy_bytes src m d s (Suc n) = do {
     c \<leftarrow> m s;
     if c = 0 then do { m \<leftarrow> st8 m d 0; Some (Inl (m, s - src)) }
     else do { m \<leftarrow> st8 m d c; strlcpy_bytes src m (d + 1) (s + 1) n }
   }"

partial_function (option) strlcpy_scan :: "mem \<Rightarrow> u32 \<Rightarrow> u32 \<Rightarrow> u32 option" where
  "strlcpy_scan m src s = do {
     v \<leftarrow> ld32 m s;
     if has_zero v \<noteq> 0 then Some (s - src + zero_pos v) else strlcpy_scan m src (s + 4)
   }"

definition strlcpy_rest :: "mem \<Rightarrow> u32 \<Rightarrow> u32 \<Rightarrow> (mem \<times> u32) option" where
  "strlcpy_rest m src s = do {
     r \<leftarrow> strlen_align m src s;
     case r of
       Inl len \<Rightarrow> Some (m, len)
     | Inr s \<Rightarrow> do { len \<leftarrow> strlcpy_scan m src s; Some (m, len) }
   }"

text \<open>The two copy loops one after the other, which \<open>strlcpy\<close> and \<open>strlcat\<close> both have.\<close>

definition strlcpy_copy ::
  "u32 \<Rightarrow> mem \<Rightarrow> u32 \<Rightarrow> u32 \<Rightarrow> u32 \<Rightarrow> (mem \<times> u32 + mem \<times> u32 \<times> u32) option" where
  "strlcpy_copy src m d s n = do {
     r \<leftarrow> strlcpy_quads src m d s n;
     case r of
       Inl q \<Rightarrow> Some (Inl q)
     | Inr (m, d, s, n) \<Rightarrow> strlcpy_bytes src m d s (unat n)
   }"

definition strlcpy :: "mem \<Rightarrow> u32 \<Rightarrow> u32 \<Rightarrow> u32 \<Rightarrow> (mem \<times> u32) option" where
  "strlcpy m dst src dstsz =
     (if 0 < dstsz then do {
        r \<leftarrow> strlcpy_copy src m dst src (dstsz - 1);
        case r of
          Inl q \<Rightarrow> Some q
        | Inr (m, d, s) \<Rightarrow> do { m \<leftarrow> st8 m d 0; strlcpy_rest m src s }
      }
      else strlcpy_rest m src src)"

text \<open>
  \<open>strlcat\<close> (lines 299 to 450): the search for the end of the destination by words and by bytes, which gives
  up when the buffer has no terminator, and the copy of the source behind it.
\<close>

partial_function (option) strlcat_find_words :: "mem \<Rightarrow> u32 \<Rightarrow> u32 \<Rightarrow> (u32 \<times> u32) option" where
  "strlcat_find_words m d n =
     (if 4 \<le> n then do {
        v \<leftarrow> ld32 m d;
        if has_zero v \<noteq> 0 then Some (d + zero_pos v, n - zero_pos v)
        else strlcat_find_words m (d + 4) (n - 4)
      }
      else Some (d, n))"

fun strlcat_find_bytes :: "mem \<Rightarrow> u32 \<Rightarrow> nat \<Rightarrow> (u32 \<times> nat) option" where
  "strlcat_find_bytes m d 0 = Some (d, 0)"
| "strlcat_find_bytes m d (Suc n) = do {
     c \<leftarrow> m d;
     if c \<noteq> 0 then strlcat_find_bytes m (d + 1) n else Some (d, Suc n)
   }"

partial_function (option) strlcat_scan :: "mem \<Rightarrow> u32 \<Rightarrow> u32 option" where
  "strlcat_scan m s = do {
     c0 \<leftarrow> m s;
     if c0 = 0 then Some s
     else do {
       c1 \<leftarrow> m (s + 1);
       if c1 = 0 then Some (s + 1)
       else do {
         c2 \<leftarrow> m (s + 2);
         if c2 = 0 then Some (s + 2)
         else do {
           c3 \<leftarrow> m (s + 3);
           if c3 = 0 then Some (s + 3) else strlcat_scan m (s + 4)
         }
       }
     }
   }"

definition strlcat :: "mem \<Rightarrow> u32 \<Rightarrow> u32 \<Rightarrow> u32 \<Rightarrow> (mem \<times> u32) option" where
  "strlcat m dst src dstsz = do {
     (d, n) \<leftarrow> strlcat_find_words m dst dstsz;
     (d, n) \<leftarrow> strlcat_find_bytes m d (unat n);
     let dlen = d - dst;
     if n = 0 then do {
       s \<leftarrow> strlcat_scan m src;
       Some (m, dstsz + (s - src))
     }
     else do {
       r \<leftarrow> strlcpy_copy src m d src (word_of_nat n - 1);
       case r of
         Inl (m, len) \<Rightarrow> Some (m, dlen + len)
       | Inr (m, d, s) \<Rightarrow> do {
           m \<leftarrow> st8 m d 0;
           s \<leftarrow> strlcat_scan m s;
           Some (m, dlen + (s - src))
         }
     }
   }"

text \<open>
  \<open>strdup\<close> (lines 177 to 193). The allocator is a parameter that takes the memory and a size and returns the memory
  and an address, null when it has none.
\<close>

definition strdup :: "(mem \<Rightarrow> u32 \<Rightarrow> mem \<times> u32) \<Rightarrow> mem \<Rightarrow> u32 \<Rightarrow> (mem \<times> u32) option" where
  "strdup kmalloc m s =
     (if s = 0 then Some (m, 0)
      else do {
        len \<leftarrow> strlen m s;
        let (m, out) = kmalloc m (len + 1);
        if out = 0 then Some (m, 0)
        else do {
          (m, _) \<leftarrow> memcpy m out s len;
          m \<leftarrow> st8 m (out + len) 0;
          Some (m, out)
        }
      })"

section \<open>Specifications\<close>

text \<open>
  A C string at an address, and its bytes read as the value of \<open>strcmp\<close>. Addresses wrap, as the machine's do.
\<close>

fun cstr :: "mem \<Rightarrow> u32 \<Rightarrow> u8 list \<Rightarrow> bool" where
  "cstr m a [] \<longleftrightarrow> m a = Some 0"
| "cstr m a (x # xs) \<longleftrightarrow> m a = Some x \<and> x \<noteq> 0 \<and> cstr m (a + 1) xs"

fun cstr_diff :: "u8 list \<Rightarrow> u8 list \<Rightarrow> int" where
  "cstr_diff [] [] = 0"
| "cstr_diff [] (y # ys) = - uint y"
| "cstr_diff (x # xs) [] = uint x"
| "cstr_diff (x # xs) (y # ys) = (if x = y then cstr_diff xs ys else uint x - uint y)"

lemma cstr_mapped: "cstr m a xs \<Longrightarrow> m a \<noteq> None"
  by (cases xs) auto

lemma zero_pos_le32:
  "zero_pos (le32 b0 b1 b2 b3) = (if b0 = 0 then 0 else if b1 = 0 then 1 else if b2 = 0 then 2 else 3)"
  using and_byte_eq_0 [of 0 "le32 b0 b1 b2 b3"] and_byte_eq_0 [of 1 "le32 b0 b1 b2 b3"]
    and_byte_eq_0 [of 2 "le32 b0 b1 b2 b3"]
  by (simp add: zero_pos_def)


section \<open>Words of a string\<close>

text \<open>An aligned word at the start of a string holds its terminator, or four of its bytes.\<close>

lemma cstr_word:
  assumes "cstr m p xs" "ld32 m p = Some (le32 b0 b1 b2 b3)"
    "m p = Some b0" "m (p + 1) = Some b1" "m (p + 2) = Some b2" "m (p + 3) = Some b3"
  obtains
    (last) "has_zero (le32 b0 b1 b2 b3) \<noteq> 0"
      "p + zero_pos (le32 b0 b1 b2 b3) = p + word_of_nat (length xs)"
  | (more) zs where "has_zero (le32 b0 b1 b2 b3) = 0" "xs = b0 # b1 # b2 # b3 # zs" "cstr m (p + 4) zs"
proof (cases "has_zero (le32 b0 b1 b2 b3) = 0")
  case True
  then have "b0 \<noteq> 0" "b1 \<noteq> 0" "b2 \<noteq> 0" "b3 \<noteq> 0" by (auto simp: has_zero_iff)
  then obtain zs where "xs = b0 # b1 # b2 # b3 # zs" "cstr m (p + 4) zs"
    using assms by (cases "(m, p, xs)" rule: cstr.cases; cases "(m, p + 1, tl xs)" rule: cstr.cases;
      cases "(m, p + 2, tl (tl xs))" rule: cstr.cases; cases "(m, p + 3, tl (tl (tl xs)))" rule: cstr.cases)
      (auto simp: add.assoc)
  with True show ?thesis by (rule more)
next
  case False
  then have "b0 = 0 \<or> b1 = 0 \<or> b2 = 0 \<or> b3 = 0" by (auto simp: has_zero_iff)
  then have "p + zero_pos (le32 b0 b1 b2 b3) = p + word_of_nat (length xs)"
    using assms by (cases "(m, p, xs)" rule: cstr.cases; cases "(m, p + 1, tl xs)" rule: cstr.cases;
      cases "(m, p + 2, tl (tl xs))" rule: cstr.cases; cases "(m, p + 3, tl (tl (tl xs)))" rule: cstr.cases)
      (auto simp: add.assoc zero_pos_le32)
  with False show ?thesis by (rule last)
qed


lemma aligned_word:
  assumes "page_mapped m" "p AND 3 = 0" "cstr m p xs"
  obtains
    (last) v where "ld32 m p = Some v" "has_zero v \<noteq> 0" "p + zero_pos v = p + word_of_nat (length xs)"
  | (more) v zs where "ld32 m p = Some v" "has_zero v = 0" "length xs = length zs + 4" "cstr m (p + 4) zs"
      "(p + 4) AND 3 = 0" "p + 4 + word_of_nat (length zs) = p + word_of_nat (length xs)"
proof -
  obtain b0 b1 b2 b3 where b: "m p = Some b0" "m (p + 1) = Some b1" "m (p + 2) = Some b2"
      "m (p + 3) = Some b3" "ld32 m p = Some (le32 b0 b1 b2 b3)"
    by (rule ld32_page [OF assms(1) cstr_mapped [OF assms(3)] aligned_page [OF assms(2)]])
  from assms(3) b(5,1-4) show ?thesis
  proof (cases rule: cstr_word)
    case last
    then show ?thesis using that(1) b(5) by blast
  next
    case (more zs)
    then show ?thesis using that(2) [of _ zs] b(5) aligned_add_4 [OF assms(2)] by (simp add: add.assoc)
  qed
qed

lemma strlen_words_ok:
  assumes "page_mapped m" "p AND 3 = 0" "cstr m p xs"
  shows "\<exists>q v. strlen_words m p = Some q \<and> ld32 m q = Some v \<and> q + zero_pos v = p + word_of_nat (length xs)"
  using assms(2,3)
proof (induction "length xs" arbitrary: p xs rule: less_induct)
  case less
  from assms(1) less.prems show ?case
  proof (cases rule: aligned_word)
    case (last v)
    then show ?thesis by (simp add: strlen_words.simps)
  next
    case m0: (more v0 z0)
    from assms(1) m0(5,4) show ?thesis
    proof (cases rule: aligned_word)
      case (last v)
      then show ?thesis using m0 by (simp add: strlen_words.simps)
    next
      case m1: (more v1 z1)
      note m1 = m1 [simplified add.assoc, simplified]
      from assms(1) m1(5,4) show ?thesis
      proof (cases rule: aligned_word)
        case (last v)
        then show ?thesis using m0 m1 by (simp add: strlen_words.simps)
      next
        case m2: (more v2 z2)
        note m2 = m2 [simplified add.assoc, simplified]
        from assms(1) m2(5,4) show ?thesis
        proof (cases rule: aligned_word)
          case (last v)
          then show ?thesis using m0 m1 m2 by (simp add: strlen_words.simps)
        next
          case m3: (more v3 z3)
          note m3 = m3 [simplified add.assoc, simplified]
          have "\<exists>q v. strlen_words m (p + 16) = Some q \<and> ld32 m q = Some v \<and>
              q + zero_pos v = p + 16 + word_of_nat (length z3)"
            using m0 m1 m2 m3 by (intro less.hyps) auto
          moreover have "strlen_words m p = strlen_words m (p + 16)"
            using m0 m1 m2 m3 by (subst strlen_words.simps) simp
          moreover have "p + 16 + word_of_nat (length z3) = p + word_of_nat (length xs)"
            using m0(3) m1(3) m2(3) m3(3) by simp
          ultimately show ?thesis by simp
        qed
      qed
    qed
  qed
qed

lemma strlen_align_ok:
  assumes "cstr m s xs"
  shows "strlen_align m start s = Some (Inl (s + word_of_nat (length xs) - start)) \<or>
    (\<exists>p ys. strlen_align m start s = Some (Inr p) \<and> p AND 3 = 0 \<and> cstr m p ys \<and>
       p + word_of_nat (length ys) = s + word_of_nat (length xs))"
  using assms
proof (induction xs arbitrary: s)
  case Nil
  show ?case
  proof (cases "s AND 3 = 0")
    case True
    then have "strlen_align m start s = Some (Inr s) \<and> s AND 3 = 0 \<and> cstr m s [] \<and>
        s + word_of_nat (length ([] :: u8 list)) = s + word_of_nat (length ([] :: u8 list))"
      using Nil by (simp add: strlen_align.simps)
    then show ?thesis by blast
  next
    case False
    then show ?thesis using Nil by (simp add: strlen_align.simps [of m start s])
  qed
next
  case (Cons x xs)
  show ?case
  proof (cases "s AND 3 = 0")
    case True
    then have "strlen_align m start s = Some (Inr s) \<and> s AND 3 = 0 \<and> cstr m s (x # xs) \<and>
        s + word_of_nat (length (x # xs)) = s + word_of_nat (length (x # xs))"
      using Cons.prems by (simp add: strlen_align.simps)
    then show ?thesis by blast
  next
    case False
    then have "strlen_align m start s = strlen_align m start (s + 1)"
      using Cons.prems by (simp add: strlen_align.simps [of m start s])
    moreover have "s + 1 + word_of_nat (length xs) = s + word_of_nat (length (x # xs))" by simp
    ultimately show ?thesis using Cons.IH [of "s + 1"] Cons.prems by (simp add: add.assoc)
  qed
qed

lemma strlen_ok:
  assumes "page_mapped m" "cstr m s xs"
  shows "strlen m s = Some (word_of_nat (length xs))"
  using strlen_align_ok [OF assms(2), of s]
proof
  assume "strlen_align m s s = Some (Inl (s + word_of_nat (length xs) - s))"
  then show ?thesis by (simp add: strlen_def)
next
  assume "\<exists>p ys. strlen_align m s s = Some (Inr p) \<and> p AND 3 = 0 \<and> cstr m p ys \<and>
    p + word_of_nat (length ys) = s + word_of_nat (length xs)"
  then obtain p ys where p: "strlen_align m s s = Some (Inr p)" "p AND 3 = 0" "cstr m p ys"
    "p + word_of_nat (length ys) = s + word_of_nat (length xs)" by blast
  then obtain q v where "strlen_words m p = Some q" "ld32 m q = Some v" "q + zero_pos v = p + word_of_nat (length ys)"
    using strlen_words_ok [OF assms(1)] by blast
  with p show ?thesis by (simp add: strlen_def algebra_simps)
qed


section \<open>Comparison of strings\<close>

lemma cstr_pair:
  assumes "cstr m a xs" "cstr m b ys"
  obtains
    (stop) ac bc where "m a = Some ac" "m b = Some bc" "ac \<noteq> bc \<or> ac = 0" "cstr_diff xs ys = uint ac - uint bc"
  | (same) c xs' ys' where "m a = Some c" "m b = Some c" "c \<noteq> 0" "xs = c # xs'" "ys = c # ys'"
      "cstr m (a + 1) xs'" "cstr m (b + 1) ys'"
proof (cases "m a = m b \<and> m a \<noteq> Some 0")
  case True
  then obtain c xs' ys' where "xs = c # xs'" "ys = c # ys'"
    using assms by (cases xs; cases ys) auto
  with assms show ?thesis using that(2) by auto
next
  case False
  then show ?thesis using assms that(1) by (cases xs; cases ys) auto
qed

lemma strcmp_align_ok:
  assumes "cstr m a xs" "cstr m b ys"
  shows "strcmp_align m a b = Some (Inl (cstr_diff xs ys)) \<or>
    (\<exists>a' b' xs' ys'. strcmp_align m a b = Some (Inr (a', b')) \<and> a' AND 3 = 0 \<and>
       cstr m a' xs' \<and> cstr m b' ys' \<and> cstr_diff xs' ys' = cstr_diff xs ys)"
  using assms
proof (induction xs arbitrary: a b ys rule: length_induct)
  case (1 xs)
  show ?case
  proof (cases "a AND 3 = 0")
    case True
    then have "strcmp_align m a b = Some (Inr (a, b))" by (simp add: strcmp_align.simps)
    with True 1 show ?thesis by blast
  next
    case False
    from 1(2,3) show ?thesis
    proof (cases rule: cstr_pair)
      case (stop ac bc)
      then show ?thesis using False by (auto simp: strcmp_align.simps [of m a b])
    next
      case (same c xs' ys')
      then have "strcmp_align m a b = strcmp_align m (a + 1) (b + 1)"
        using False by (simp add: strcmp_align.simps [of m a b])
      moreover have "cstr_diff xs' ys' = cstr_diff xs ys" using same by simp
      ultimately show ?thesis using 1(1) [rule_format, of xs' "a + 1" "b + 1" ys'] same by (simp del: cstr_diff.simps)
    qed
  qed
qed

lemma strcmp_words_ok:
  assumes "page_mapped m" "a AND 3 = 0" "cstr m a xs" "cstr m b ys"
  shows "\<exists>a' b' xs' ys'. strcmp_words m a b = Some (a', b') \<and>
       cstr m a' xs' \<and> cstr m b' ys' \<and> cstr_diff xs' ys' = cstr_diff xs ys"
  using assms(2-)
proof (induction xs arbitrary: a b ys rule: length_induct)
  case (1 xs)
  show ?case
  proof (cases "b AND 0xFFF > 0xFFC")
    case True
    then have "strcmp_words m a b = Some (a, b)" by (simp add: strcmp_words.simps)
    with 1 show ?thesis by blast
  next
    case False
    then have "unat b mod 4096 \<le> 4092" by (simp add: word_less_nat_alt unat_and_FFF)
    then obtain d0 d1 d2 d3 where d: "m b = Some d0" "m (b + 1) = Some d1" "m (b + 2) = Some d2"
      "m (b + 3) = Some d3" "ld32 m b = Some (le32 d0 d1 d2 d3)"
      by (rule ld32_page [OF assms(1) cstr_mapped [OF 1(4)]])
    obtain c0 c1 c2 c3 where c: "m a = Some c0" "m (a + 1) = Some c1" "m (a + 2) = Some c2"
      "m (a + 3) = Some c3" "ld32 m a = Some (le32 c0 c1 c2 c3)"
      by (rule ld32_page [OF assms(1) cstr_mapped [OF 1(3)] aligned_page [OF 1(2)]])
    let ?stop = "le32 c0 c1 c2 c3 \<noteq> le32 d0 d1 d2 d3 \<or> has_zero (le32 c0 c1 c2 c3) \<noteq> 0"
    have eq: "strcmp_words m a b = (if ?stop then Some (a, b) else strcmp_words m (a + 4) (b + 4))"
      using False c(5) d(5) by (subst strcmp_words.simps) simp
    show ?thesis
    proof (cases ?stop)
      case True
      then show ?thesis using eq 1 by auto
    next
      case no: False
      obtain zs where z: "xs = c0 # c1 # c2 # c3 # zs" "cstr m (a + 4) zs"
        using no by (auto intro: cstr_word [OF 1(3) c(5,1-4)])
      obtain ws where w: "ys = d0 # d1 # d2 # d3 # ws" "cstr m (b + 4) ws"
        using no by (auto intro: cstr_word [OF 1(4) d(5,1-4)])
      have "cstr_diff zs ws = cstr_diff xs ys" using no z(1) w(1) by simp
      moreover have "strcmp_words m a b = strcmp_words m (a + 4) (b + 4)" using eq no by simp
      ultimately show ?thesis
        using 1(1) [rule_format, of zs "a + 4" "b + 4" ws] z w aligned_add_4 [OF 1(2)]
        by (simp del: cstr_diff.simps)
    qed
  qed
qed

lemma strcmp_bytes_ok:
  assumes "cstr m a xs" "cstr m b ys"
  shows "strcmp_bytes m a b = Some (cstr_diff xs ys)"
  using assms
proof (induction xs arbitrary: a b ys rule: length_induct)
  case (1 xs)
  from 1(2,3) show ?case
  proof (cases rule: cstr_pair)
    case (stop ac bc)
    then show ?thesis by (simp add: strcmp_bytes.simps)
  next
    case s0: (same c0 x0 y0)
    from s0(6,7) show ?thesis
    proof (cases rule: cstr_pair)
      case (stop ac bc)
      then show ?thesis using s0 by (simp add: strcmp_bytes.simps)
    next
      case s1: (same c1 x1 y1)
      note s1 = s1 [simplified add.assoc, simplified]
      from s1(6,7) show ?thesis
      proof (cases rule: cstr_pair)
        case (stop ac bc)
        then show ?thesis using s0 s1 by (simp add: strcmp_bytes.simps)
      next
        case s2: (same c2 x2 y2)
        note s2 = s2 [simplified add.assoc, simplified]
        from s2(6,7) show ?thesis
        proof (cases rule: cstr_pair)
          case (stop ac bc)
          then show ?thesis using s0 s1 s2 by (simp add: strcmp_bytes.simps)
        next
          case s3: (same c3 x3 y3)
          note s3 = s3 [simplified add.assoc, simplified]
          have "strcmp_bytes m a b = strcmp_bytes m (a + 4) (b + 4)"
            using s0 s1 s2 s3 by (subst strcmp_bytes.simps) simp
          also have "\<dots> = Some (cstr_diff x3 y3)"
            using 1(1) s0(4) s1(4) s2(4) s3(4,6,7) by simp
          finally show ?thesis using s0(4,5) s1(4,5) s2(4,5) s3(4,5) by simp
        qed
      qed
    qed
  qed
qed

lemma strcmp_ok:
  assumes "page_mapped m" "cstr m a xs" "cstr m b ys" "a \<noteq> b"
  shows "strcmp m a b = Some (cstr_diff xs ys)"
  using strcmp_align_ok [OF assms(2,3)]
proof
  assume "strcmp_align m a b = Some (Inl (cstr_diff xs ys))"
  then show ?thesis using assms(4) by (simp add: strcmp_def)
next
  assume "\<exists>a' b' xs' ys'. strcmp_align m a b = Some (Inr (a', b')) \<and> a' AND 3 = 0 \<and>
       cstr m a' xs' \<and> cstr m b' ys' \<and> cstr_diff xs' ys' = cstr_diff xs ys"
  then obtain a1 b1 xs1 ys1 where a: "strcmp_align m a b = Some (Inr (a1, b1))" "a1 AND 3 = 0"
    "cstr m a1 xs1" "cstr m b1 ys1" "cstr_diff xs1 ys1 = cstr_diff xs ys" by blast
  then obtain a2 b2 xs2 ys2 where "strcmp_words m a1 b1 = Some (a2, b2)"
    "cstr m a2 xs2" "cstr m b2 ys2" "cstr_diff xs2 ys2 = cstr_diff xs1 ys1"
    using strcmp_words_ok [OF assms(1) a(2-4)] by blast
  then show ?thesis using a assms(4) strcmp_bytes_ok by (simp add: strcmp_def)
qed

lemma cstr_unique: "cstr m a xs \<Longrightarrow> cstr m a ys \<Longrightarrow> xs = ys"
  by (induction xs arbitrary: a ys; case_tac ys) auto

lemma cstr_nonzero: "cstr m a xs \<Longrightarrow> 0 \<notin> set xs"
  by (induction xs arbitrary: a) auto

lemma cstr_diff_eq_0: "0 \<notin> set xs \<Longrightarrow> 0 \<notin> set ys \<Longrightarrow> cstr_diff xs ys = 0 \<longleftrightarrow> xs = ys"
  by (induction xs ys rule: cstr_diff.induct) (auto simp: uint_0_iff simp flip: word_uint_eq_iff)

lemma cstr_diff_less_0:
  "0 \<notin> set xs \<Longrightarrow> 0 \<notin> set ys \<Longrightarrow> cstr_diff xs ys < 0 \<longleftrightarrow> (xs, ys) \<in> lexord {(x, y). x < y}"
  by (induction xs ys rule: cstr_diff.induct) (auto simp: word_less_def word_neq_0_conv)

lemma strncmp_loop_ok:
  "cstr m a xs \<Longrightarrow> cstr m b ys \<Longrightarrow> strncmp_loop m a b n = Some (cstr_diff (take n xs) (take n ys))"
  apply (induction n arbitrary: a b xs ys)
   apply simp
  subgoal for n a b xs ys by (cases xs; cases ys) auto
  done

section \<open>Bounded copies\<close>

lemma bind_if: "(if b then x else y) \<bind> f = (if b then x \<bind> f else y \<bind> f)" for x :: "'a option"
  by simp

text \<open>The four-fold copy loop followed by the byte loop is the byte loop.\<close>

lemma strlcpy_copy_bytes: "strlcpy_copy src m d s n = strlcpy_bytes src m d s (unat n)"
proof (induction "unat n" arbitrary: m d s n rule: less_induct)
  case less
  show ?case
  proof (cases "4 \<le> n")
    case False
    then show ?thesis by (simp add: strlcpy_copy_def strlcpy_quads.simps)
  next
    case True
    then have n: "unat (n - 4) < unat n" "unat n = Suc (Suc (Suc (Suc (unat (n - 4)))))"
      by (auto simp: word_le_nat_alt unat_sub)
    note IH = less.hyps [OF n(1), unfolded strlcpy_copy_def]
    show ?thesis
      unfolding strlcpy_copy_def n(2) using True
      by (subst strlcpy_quads.simps) (simp add: IH add.assoc diff_add_eq Let_def bind_if cong: if_cong)
  qed
qed

lemma put_Nil [simp]: "put m d [] = m"
  by (simp add: put_def)

lemma put_Cons:
  assumes "length xs < 4294967296"
  shows "put (m(d := Some x)) (d + 1) xs = put m d (x # xs)"
proof
  fix a
  show "put (m(d := Some x)) (d + 1) xs a = put m d (x # xs) a"
  proof (cases "a = d")
    case True
    have "unat (- 1 :: u32) = 4294967295" by (simp add: unsigned_minus_1_eq_mask mask_eq_exp_minus_1)
    then show ?thesis using assms True by (simp add: put_def)
  next
    case False
    then have "a - d \<noteq> 0" by simp
    from unat_minus_one [OF this] this
    have "unat (a - (d + 1)) = unat (a - d) - 1" "unat (a - d) \<noteq> 0"
      by (simp_all add: diff_diff_add unat_eq_zero)
    then show ?thesis using False by (auto simp: put_def nth_Cons')
  qed
qed

text \<open>A string to copy and the window it is copied to.\<close>

definition window :: "mem \<Rightarrow> u32 \<Rightarrow> nat \<Rightarrow> u32 \<Rightarrow> u8 list \<Rightarrow> bool" where
  "window m d N s xs \<longleftrightarrow> cstr m s xs \<and> mapped m d N \<and> (\<forall>j \<le> length xs. N \<le> unat (s + word_of_nat j - d))"

lemma cstr_frame:
  "\<forall>j \<le> length xs. m' (s + word_of_nat j) = m (s + word_of_nat j) \<Longrightarrow> cstr m' s xs = cstr m s xs"
proof (induction xs arbitrary: s)
  case (Cons x xs)
  have "\<forall>j \<le> length xs. m' (s + 1 + word_of_nat j) = m (s + 1 + word_of_nat j)"
  proof (intro allI impI)
    fix j assume "j \<le> length xs"
    then show "m' (s + 1 + word_of_nat j) = m (s + 1 + word_of_nat j)"
      using Cons.prems [rule_format, of "Suc j"] by (simp add: add.assoc)
  qed
  then show ?case using Cons.IH [of "s + 1"] Cons.prems [rule_format, of 0] by simp
qed simp

lemma mapped_Suc: "mapped m d (Suc N) \<longleftrightarrow> m d \<noteq> None \<and> mapped m (d + 1) N"
  unfolding mapped_def by (auto simp: less_Suc_eq_0_disj add.assoc)

lemma mapped_upd: "mapped m d N \<Longrightarrow> mapped (m(a := Some v)) d N"
  by (auto simp: mapped_def)

lemma window_step:
  assumes w: "window m d (Suc N) s (x # xs)"
  shows "window (m(d := Some v)) (d + 1) N (s + 1) xs" "m d \<noteq> None" "m s = Some x" "x \<noteq> 0"
proof -
  show "m d \<noteq> None" "m s = Some x" "x \<noteq> 0" using w by (auto simp: window_def mapped_Suc)
  have far: "Suc N \<le> unat (s + 1 + word_of_nat j - d)" if "j \<le> length xs" for j
    using w that by (auto simp: window_def add.assoc dest!: spec [of _ "Suc j"])
  then have "(m(d := Some v)) (s + 1 + word_of_nat j) = m (s + 1 + word_of_nat j)" if "j \<le> length xs" for j
    using that by fastforce
  then have "cstr (m(d := Some v)) (s + 1) xs"
    using w cstr_frame [of xs "m(d := Some v)" "s + 1" m] by (auto simp: window_def)
  moreover have "N \<le> unat (s + 1 + word_of_nat j - (d + 1))" if "j \<le> length xs" for j
  proof -
    have e: "s + 1 + word_of_nat j - (d + 1) = s + 1 + word_of_nat j - d - 1" by simp
    have "s + 1 + word_of_nat j - d \<noteq> 0" using far [OF that] by auto
    from unat_minus_one [OF this] show ?thesis unfolding e using far [OF that] by linarith
  qed
  ultimately show "window (m(d := Some v)) (d + 1) N (s + 1) xs"
    using w by (simp add: window_def mapped_Suc mapped_upd)
qed

lemma strlcpy_bytes_ok:
  assumes "window m d (Suc N) s xs" "N < 4294967295"
  shows "strlcpy_bytes src m d s N =
    (if length xs < N then Some (Inl (put m d (xs @ [0]), s + word_of_nat (length xs) - src))
     else Some (Inr (put m d (take N xs), d + word_of_nat N, s + word_of_nat N)))"
  using assms
proof (induction N arbitrary: m d s xs)
  case (Suc N)
  show ?case
  proof (cases xs)
    case Nil
    then have "m s = Some 0" "m d \<noteq> None" using Suc.prems(1) by (auto simp: window_def mapped_Suc)
    then show ?thesis using Nil put_Cons [of "[]" m d 0] by (auto simp: st8_def)
  next
    case (Cons x ys)
    note w = window_step [OF Suc.prems(1) [unfolded Cons]]
    have "strlcpy_bytes src m d s (Suc N) = strlcpy_bytes src (m(d := Some x)) (d + 1) (s + 1) N"
      using w(2-4) by (auto simp: st8_def)
    also have "\<dots> = (if length ys < N then Some (Inl (put (m(d := Some x)) (d + 1) (ys @ [0]), s + 1 + word_of_nat (length ys) - src))
       else Some (Inr (put (m(d := Some x)) (d + 1) (take N ys), d + 1 + word_of_nat N, s + 1 + word_of_nat N)))"
      using Suc.prems(2) by (intro Suc.IH w(1)) simp
    also have "\<dots> = (if length ys < N then Some (Inl (put m d (x # ys @ [0]), s + word_of_nat (Suc (length ys)) - src))
       else Some (Inr (put m d (x # take N ys), d + word_of_nat (Suc N), s + word_of_nat (Suc N))))"
      using Suc.prems(2) by (simp add: put_Cons add.assoc del: fun_upd_apply)
    finally show ?thesis using Cons by simp
  qed
qed simp


lemma put_mapped: "mapped m d (length xs) \<Longrightarrow> put m d xs a = None \<longleftrightarrow> m a = None"
proof -
  assume m: "mapped m d (length xs)"
  have "m a \<noteq> None" if "unat (a - d) < length xs"
    using m that by (auto simp: mapped_def dest!: spec [of _ "unat (a - d)"])
  then show ?thesis by (auto simp: put_def)
qed

lemma page_mapped_put: "page_mapped m \<Longrightarrow> mapped m d (length xs) \<Longrightarrow> page_mapped (put m d xs)"
  unfolding page_mapped_def by (simp only: put_mapped)

lemma put_snoc:
  assumes "mapped m d (Suc (length xs))" "length xs < 4294967295"
  shows "st8 (put m d xs) (d + word_of_nat (length xs)) v = Some (put m d (xs @ [v]))"
proof -
  have "filled m d (xs @ [v]) {..<length xs} = put m d xs"
    by (auto simp: filled_def put_def nth_append fun_eq_iff)
  moreover have "insert (length xs) {..<length xs} = {..<length (xs @ [v])}" by auto
  ultimately show ?thesis
    using st8_filled [OF assms(1), of "length xs" "xs @ [v]" "{..<length xs}"] assms(2)
    by (simp add: filled_all [symmetric])
qed

lemma cstr_drop: "cstr m s xs \<Longrightarrow> k \<le> length xs \<Longrightarrow> cstr m (s + word_of_nat k) (drop k xs)"
proof (induction k arbitrary: s xs)
  case (Suc k)
  then obtain x ys where "xs = x # ys" by (cases xs) auto
  then show ?case using Suc.IH [of "s + 1" ys] Suc.prems by (simp add: add.assoc)
qed simp

lemma strlcpy_scan_ok:
  assumes "page_mapped m" "p AND 3 = 0" "cstr m p xs"
  shows "strlcpy_scan m src p = Some (p + word_of_nat (length xs) - src)"
  using assms(2,3)
proof (induction "length xs" arbitrary: p xs rule: less_induct)
  case less
  from assms(1) less.prems show ?case
  proof (cases rule: aligned_word)
    case (last v)
    then show ?thesis by (simp add: strlcpy_scan.simps diff_add_eq)
  next
    case (more v zs)
    then have "strlcpy_scan m src p = strlcpy_scan m src (p + 4)" by (subst strlcpy_scan.simps) simp
    also have "\<dots> = Some (p + 4 + word_of_nat (length zs) - src)" using more by (intro less.hyps) simp_all
    finally show ?thesis using more(6) by simp
  qed
qed

lemma strlcpy_rest_ok:
  assumes "page_mapped m" "cstr m s xs"
  shows "strlcpy_rest m src s = Some (m, s + word_of_nat (length xs) - src)"
  using strlen_align_ok [OF assms(2), of src]
proof
  assume "\<exists>p ys. strlen_align m src s = Some (Inr p) \<and> p AND 3 = 0 \<and> cstr m p ys \<and>
    p + word_of_nat (length ys) = s + word_of_nat (length xs)"
  then obtain p ys where "strlen_align m src s = Some (Inr p)" "p AND 3 = 0" "cstr m p ys"
    "p + word_of_nat (length ys) = s + word_of_nat (length xs)" by blast
  then show ?thesis using strlcpy_scan_ok [OF assms(1)] by (simp add: strlcpy_rest_def)
qed (simp add: strlcpy_rest_def)

text \<open>The string is still there behind what a copy has stored.\<close>

lemma window_put:
  assumes "window m d N s xs" "length ys \<le> N"
  shows "cstr (put m d ys) s xs" "mapped m d (length ys)"
proof -
  have "put m d ys (s + word_of_nat j) = m (s + word_of_nat j)" if "j \<le> length xs" for j
    using assms that by (auto simp: window_def put_def)
  then show "cstr (put m d ys) s xs" using assms(1) cstr_frame [of xs "put m d ys" s m] by (auto simp: window_def)
  show "mapped m d (length ys)" using assms by (auto simp: window_def mapped_def)
qed

text \<open>What the copy loops leave for a window of \<open>N + 1\<close> places.\<close>

lemma strlcpy_copy_cases:
  assumes w: "window m d (Suc (unat n)) s xs" and n: "unat n < 4294967295"
  obtains
    (all) "length xs < unat n" "strlcpy_copy s m d s n = Some (Inl (put m d (take (unat n) xs @ [0]), word_of_nat (length xs)))"
  | (cut) m1 d1 s1 where "unat n \<le> length xs" "strlcpy_copy s m d s n = Some (Inr (m1, d1, s1))"
      "st8 m1 d1 0 = Some (put m d (take (unat n) xs @ [0]))"
      "cstr (put m d (take (unat n) xs @ [0])) s1 (drop (unat n) xs)"
      "s1 + word_of_nat (length xs - unat n) - s = word_of_nat (length xs)"
proof -
  note copy = strlcpy_copy_bytes [of s m d s n] strlcpy_bytes_ok [OF w n, of s]
  show ?thesis
  proof (cases "length xs < unat n")
    case True
    then show ?thesis using copy all by simp
  next
    case False
    let ?t = "take (unat n) xs"
    have t: "length ?t = unat n" using False by simp
    have "cstr (put m d (?t @ [0])) s xs" using window_put [OF w, of "?t @ [0]"] t by simp
    then have "cstr (put m d (?t @ [0])) (s + word_of_nat (unat n)) (drop (unat n) xs)"
      using False by (intro cstr_drop) auto
    moreover have "st8 (put m d ?t) (d + word_of_nat (unat n)) 0 = Some (put m d (?t @ [0]))"
      using put_snoc [of m d ?t 0] w t n by (simp add: window_def)
    ultimately show ?thesis using copy False cut by (simp add: of_nat_diff)
  qed
qed

lemma window_page: "window m d N s xs \<Longrightarrow> length ys \<le> N \<Longrightarrow> page_mapped m \<Longrightarrow> page_mapped (put m d ys)"
  using window_put(2) page_mapped_put by blast

lemma strlcpy_ok:
  assumes p: "page_mapped m" and w: "window m dst (unat n) src xs"
  shows "strlcpy m dst src n =
    Some (if n = 0 then m else put m dst (take (unat n - 1) xs @ [0]), word_of_nat (length xs))"
proof (cases "n = 0")
  case True
  then show ?thesis using strlcpy_rest_ok [OF p, of src xs src] w by (simp add: strlcpy_def window_def)
next
  case False
  have "0 < unat n" using False by (simp add: unat_gt_0)
  then have n: "unat n = Suc (unat (n - 1))" "unat (n - 1) < 4294967295" "0 < n" "unat n - 1 = unat (n - 1)"
    using unat_minus_one [OF False] unat_u32_less [of n] by (auto simp: word_less_nat_alt)
  note w' = w [unfolded n(1)]
  from w' n(2) show ?thesis
  proof (cases rule: strlcpy_copy_cases)
    case all
    then show ?thesis using n False by (simp add: strlcpy_def)
  next
    case (cut m1 d1 s1)
    have "page_mapped (put m dst (take (unat (n - 1)) xs @ [0]))" by (rule window_page [OF w' _ p]) simp
    note strlcpy_rest_ok [OF this cut(4), of src]
    then show ?thesis using cut n False by (simp add: strlcpy_def)
  qed
qed

lemma strlcat_scan_ok:
  assumes "cstr m s xs"
  shows "strlcat_scan m s = Some (s + word_of_nat (length xs))"
  using assms
proof (induction xs arbitrary: s rule: length_induct)
  case (1 xs)
  consider "xs = []" | x where "xs = [x]" | x y where "xs = [x, y]" | x y z where "xs = [x, y, z]"
    | (more) x y z w zs where "xs = x # y # z # w # zs"
    by (cases xs; cases "tl xs"; cases "tl (tl xs)"; cases "tl (tl (tl xs))") auto
  then show ?case
  proof cases
    case more
    then have "strlcat_scan m s = strlcat_scan m (s + 4)"
      using 1(2) by (subst strlcat_scan.simps) (simp add: add.assoc)
    also have "\<dots> = Some (s + 4 + word_of_nat (length zs))" using 1(1) [rule_format, of zs "s + 4"] 1(2) more by (simp add: add.assoc)
    finally show ?thesis using more by (simp add: add.assoc)
  qed (use 1(2) in \<open>simp_all add: strlcat_scan.simps add.assoc\<close>)
qed

text \<open>The length of a string in a buffer, which is the buffer's size when it has no terminator.\<close>

definition buf_len :: "u8 list \<Rightarrow> nat" where
  "buf_len ds = length (takeWhile (\<lambda>c. c \<noteq> 0) ds)"

lemma buf_len_simps [simp]: "buf_len [] = 0" "buf_len (c # ds) = (if c = 0 then 0 else Suc (buf_len ds))"
  by (simp_all add: buf_len_def)

lemma buf_len_le: "buf_len ds \<le> length ds"
  by (simp add: buf_len_def length_takeWhile_le)

lemma strlcat_find_bytes_ok:
  "holds m d ds \<Longrightarrow> strlcat_find_bytes m d (length ds) = Some (d + word_of_nat (buf_len ds), length ds - buf_len ds)"
  by (induction ds arbitrary: d) (auto simp: holds_Cons add.assoc)

lemma strlcat_find_ok:
  assumes "holds m d ds" "length ds = unat n"
  shows "(do { (d, n) \<leftarrow> strlcat_find_words m d n; strlcat_find_bytes m d (unat n) }) =
    Some (d + word_of_nat (buf_len ds), length ds - buf_len ds)"
  using assms
proof (induction "length ds" arbitrary: d ds n rule: less_induct)
  case less
  show ?case
  proof (cases "4 \<le> n")
    case False
    then have "strlcat_find_words m d n = Some (d, n)" by (simp add: strlcat_find_words.simps)
    then show ?thesis using strlcat_find_bytes_ok [OF less.prems(1)] less.prems(2) by simp
  next
    case True
    then have n: "unat (n - 4) = unat n - 4" "4 \<le> unat n" by (auto simp: word_le_nat_alt unat_sub)
    obtain b0 b1 b2 b3 es where ds: "ds = b0 # b1 # b2 # b3 # es"
      using n(2) less.prems(2) by (auto simp: numeral_eq_Suc Suc_le_length_iff dest!: sym [of "length ds"])
    have ld: "ld32 m d = Some (le32 b0 b1 b2 b3)" and es: "holds m (d + 4) es"
      using less.prems(1) ds by (auto simp: holds_Cons ld32_def add.assoc)
    show ?thesis
    proof (cases "has_zero (le32 b0 b1 b2 b3) = 0")
      case zero: True
      then have "strlcat_find_words m d n = strlcat_find_words m (d + 4) (n - 4)"
        using True ld by (subst strlcat_find_words.simps) simp
      moreover have "(do { (d, n) \<leftarrow> strlcat_find_words m (d + 4) (n - 4); strlcat_find_bytes m d (unat n) }) =
          Some (d + 4 + word_of_nat (buf_len es), length es - buf_len es)"
        using es less.prems(2) n ds by (intro less.hyps) auto
      ultimately show ?thesis using zero ds by (simp add: has_zero_iff add.assoc)
    next
      case False
      then have z: "strlcat_find_words m d n = Some (d + zero_pos (le32 b0 b1 b2 b3), n - zero_pos (le32 b0 b1 b2 b3))"
        using True ld by (subst strlcat_find_words.simps) simp
      have u: "unat (n - 1) = Suc (Suc (Suc (length es)))" "unat (n - 2) = Suc (Suc (length es))"
        "unat (n - 3) = Suc (length es)" "unat n = Suc (Suc (Suc (Suc (length es))))"
        using n less.prems(2) ds by (auto simp: unat_sub word_le_nat_alt)
      show ?thesis using z False less.prems(1) ds
        by (auto simp: has_zero_iff zero_pos_le32 u holds_Cons add.assoc)
    qed
  qed
qed

lemma window_behind:
  assumes ds: "holds m d ds" and s: "cstr m s xs" "\<forall>j \<le> length xs. length ds \<le> unat (s + word_of_nat j - d)"
    and k: "k \<le> length ds"
  shows "window m (d + word_of_nat k) (length ds - k) s xs"
proof -
  have "m (d + word_of_nat k + word_of_nat i) \<noteq> None" if "i < length ds - k" for i
    using ds that k by (auto simp: holds_def add.assoc simp flip: of_nat_add)
  moreover have "length ds - k \<le> unat (s + word_of_nat j - (d + word_of_nat k))" if "j \<le> length xs" for j
  proof -
    have far: "length ds \<le> unat (s + word_of_nat j - d)" using s(2) that by blast
    have "unat (word_of_nat k :: u32) = k"
      using far k unat_u32_less [of "s + word_of_nat j - d"] by (simp add: unat_of_nat)
    then have "unat (s + word_of_nat j - d - word_of_nat k) = unat (s + word_of_nat j - d) - k"
      using far k by (simp add: unat_sub word_le_nat_alt)
    then show ?thesis using far by (simp add: diff_diff_add)
  qed
  ultimately show ?thesis using s(1) by (auto simp: window_def mapped_def)
qed

lemma strlcat_ok:
  assumes ds: "holds m dst ds" "length ds = unat n"
    and s: "cstr m src xs" "\<forall>j \<le> length xs. unat n \<le> unat (src + word_of_nat j - dst)"
  shows "strlcat m dst src n =
    Some (if buf_len ds = length ds then m
          else put m (dst + word_of_nat (buf_len ds)) (take (length ds - buf_len ds - 1) xs @ [0]),
          word_of_nat (buf_len ds + length xs))"
proof -
  let ?L = "buf_len ds" and ?d = "dst + word_of_nat (buf_len ds)" and ?k = "length ds - buf_len ds"
  have L: "?L \<le> length ds" by (rule buf_len_le)
  obtain d1 n1 where find: "strlcat_find_words m dst n = Some (d1, n1)" "strlcat_find_bytes m d1 (unat n1) = Some (?d, ?k)"
    using strlcat_find_ok [OF ds] by (cases "strlcat_find_words m dst n") auto
  show ?thesis
  proof (cases "?k = 0")
    case True
    then have "?L = length ds" using L by simp
    then show ?thesis using find strlcat_scan_ok [OF s(1)] ds(2) by (simp add: strlcat_def add_diff_eq)
  next
    case False
    then have ne: "?L \<noteq> length ds" by simp
    define w where "w = (word_of_nat ?k - 1 :: u32)"
    have "unat (word_of_nat ?k :: u32) = ?k" using ds(2) unat_u32_less [of n] by (simp add: unat_of_nat)
    then have k: "?k = Suc (unat w)" "unat w < 4294967295"
      using False unat_minus_one [of "word_of_nat ?k :: u32"] unat_u32_less [of "word_of_nat ?k"]
      by (auto simp: w_def unat_eq_zero [symmetric] simp del: of_nat_diff)
    have "window m ?d (Suc (unat w)) src xs" using window_behind [OF ds(1) s(1) _ L] s(2) ds(2) k(1) by simp
    then show ?thesis using k(2)
    proof (cases rule: strlcpy_copy_cases)
      case all
      then show ?thesis using find k ne by (simp add: strlcat_def w_def [symmetric] Let_def)
    next
      case (cut m1 d1 s1)
      from strlcat_scan_ok [OF cut(4)] cut(1,2,3,5) show ?thesis
        using find k ne by (simp add: strlcat_def w_def [symmetric] Let_def)
    qed
  qed
qed


section \<open>Properties\<close>

text \<open>
  C23: \<open>strlen\<close> returns the length of the string at every alignment, and its word reads past the
  terminator stay inside the terminator's page.
\<close>

theorem strlen_correct:
  assumes "page_mapped m" "cstr m s xs"
  shows "strlen m s = Some (word_of_nat (length xs))"
  using assms by (rule strlen_ok)

definition wit_page :: "(u32 \<times> u8 list) list \<Rightarrow> mem" where
  "wit_page bs = (\<lambda>a. if unat a div 4096 = 1
     then (case find (\<lambda>(b, xs). unat (a - b) < length xs) bs of
             Some (b, xs) \<Rightarrow> Some (xs ! unat (a - b)) | None \<Rightarrow> Some 0)
     else None)"

lemma wit_page_mapped: "page_mapped (wit_page bs)"
  by (auto simp: page_mapped_def wit_page_def split: option.splits if_splits)

lemma wit_page_maps:
  assumes "4096 \<le> unat a" "unat a + n \<le> 8192"
  shows "mapped (wit_page bs) a n"
proof -
  have "unat (a + word_of_nat i) div 4096 = 1" if "i < n" for i
    using assms that unat_add_small [of a i] by (intro div_nat_eqI) auto
  then show ?thesis by (auto simp: mapped_def wit_page_def split: option.splits)
qed

theorem strlen_correct_witness:
  "strlen (wit_page [(0x1FFA, [104, 101, 108, 108, 111])]) 0x1FFA = Some (word_of_nat (length [104, 101, 108, 108, 111 :: u8]))"
  by (rule strlen_correct [OF wit_page_mapped]) (simp add: wit_page_def)

text \<open>
  C24: \<open>strcmp\<close> returns a value whose sign orders the two strings lexicographically by
  their bytes and that is zero exactly when they are equal, at all alignments and up to the ends of their pages.
\<close>

theorem strcmp_correct:
  assumes "page_mapped m" "cstr m a xs" "cstr m b ys"
  shows "\<exists>r. strcmp m a b = Some r \<and> (r = 0 \<longleftrightarrow> xs = ys) \<and> (r < 0 \<longleftrightarrow> (xs, ys) \<in> lexord {(x, y). x < y})"
proof (cases "a = b")
  case True
  then have "xs = ys" using cstr_unique assms(2,3) by simp
  then show ?thesis using True cstr_diff_less_0 [of xs xs] cstr_diff_eq_0 [of xs xs] cstr_nonzero [OF assms(2)]
    by (simp add: strcmp_def)
next
  case False
  then show ?thesis
    using strcmp_ok [OF assms False] cstr_diff_eq_0 [of xs ys] cstr_diff_less_0 [of xs ys]
      cstr_nonzero [OF assms(2)] cstr_nonzero [OF assms(3)] by simp
qed

theorem strcmp_correct_witness:
  "\<exists>r. strcmp (wit_page [(0x1001, [97, 98, 99, 100, 101]), (0x1FFB, [97, 98, 120])]) 0x1001 0x1FFB = Some r \<and>
     (r = 0 \<longleftrightarrow> [97, 98, 99, 100, 101 :: u8] = [97, 98, 120]) \<and>
     (r < 0 \<longleftrightarrow> ([97, 98, 99, 100, 101 :: u8], [97, 98, 120]) \<in> lexord {(x, y). x < y})"
  by (rule strcmp_correct [OF wit_page_mapped]) (simp_all add: wit_page_def)

text \<open>
  C25: \<open>strlcpy\<close> into a buffer of \<open>n\<close> places away from the source stores the longest prefix that leaves room for the
  terminator, terminates it, changes nothing else, and returns the length of the source; with \<open>n = 0\<close> it
  stores nothing.
\<close>

theorem strlcpy_correct:
  assumes "page_mapped m" "cstr m src xs" "mapped m dst (unat n)"
    "\<forall>j \<le> length xs. unat n \<le> unat (src + word_of_nat j - dst)"
  shows "strlcpy m dst src n =
    Some (if n = 0 then m else put m dst (take (unat n - 1) xs @ [0]), word_of_nat (length xs))"
  using assms by (intro strlcpy_ok) (auto simp: window_def)

theorem strlcpy_correct_witness:
  "strlcpy (wit_page [(0x1001, [97, 98, 99])]) 0x1100 0x1001 3 =
     Some (if (3 :: u32) = 0 then wit_page [(0x1001, [97, 98, 99])]
           else put (wit_page [(0x1001, [97, 98, 99])]) 0x1100 (take (unat (3 :: u32) - 1) [97, 98, 99] @ [0]),
           word_of_nat (length [97, 98, 99 :: u8]))"
  by (rule strlcpy_correct [OF wit_page_mapped])
    (simp_all add: wit_page_maps, simp_all add: wit_page_def le_Suc_eq)

text \<open>
  \<open>strlcat\<close> appends to the string in a buffer of \<open>n\<close> places what fits, terminates it, changes nothing else, and
  returns the length it wanted: that of the buffer's string, or \<open>n\<close> when the buffer holds no terminator, plus that
  of the source.
\<close>

theorem strlcat_correct:
  assumes "holds m dst ds" "length ds = unat n" "cstr m src xs"
    "\<forall>j \<le> length xs. unat n \<le> unat (src + word_of_nat j - dst)"
  shows "strlcat m dst src n =
    Some (if buf_len ds = length ds then m
          else put m (dst + word_of_nat (buf_len ds)) (take (length ds - buf_len ds - 1) xs @ [0]),
          word_of_nat (buf_len ds + length xs))"
  using assms by (rule strlcat_ok)

theorem strlcat_correct_witness:
  "strlcat (wit_page [(0x1001, [97, 98, 99]), (0x1100, [65, 66])]) 0x1100 0x1001 4 =
     Some (if buf_len [65, 66, 0, 0] = length [65, 66, 0, 0 :: u8] then wit_page [(0x1001, [97, 98, 99]), (0x1100, [65, 66])]
           else put (wit_page [(0x1001, [97, 98, 99]), (0x1100, [65, 66])]) (0x1100 + word_of_nat (buf_len [65, 66, 0, 0]))
             (take (length [65, 66, 0, 0 :: u8] - buf_len [65, 66, 0, 0] - 1) [97, 98, 99] @ [0]),
           word_of_nat (buf_len [65, 66, 0, 0] + length [97, 98, 99 :: u8]))"
  by (rule strlcat_correct) (simp_all add: holds_Cons wit_page_def le_Suc_eq)

text \<open>
  \<open>strdup\<close> returns a new block that holds a copy of the string with its terminator, given an allocator that
  returns a mapped block away from the string and leaves the string alone; when the
  allocator has no memory the result is null and nothing is stored.
\<close>

theorem strdup_correct:
  assumes "page_mapped m" "cstr m s xs" "s \<noteq> 0" "length xs < 2 ^ 32 - 1"
    "kmalloc m (word_of_nat (length xs) + 1) = (m', out)"
    "out \<noteq> 0 \<longrightarrow> holds m' s xs \<and> mapped m' out (length xs + 1) \<and>
       word_of_nat (length xs) \<le> s - out \<and> word_of_nat (length xs) \<le> out - s"
  shows "strdup kmalloc m s =
    Some (if out = 0 then (m', 0) else (put m' out (xs @ [0]), out))"
proof (cases "out = 0")
  case True
  then show ?thesis using assms(3,5) strlen_ok [OF assms(1,2)] by (simp add: strdup_def)
next
  case False
  let ?n = "word_of_nat (length xs) :: u32"
  have n: "length xs = unat ?n" using assms(4) by (simp add: unat_of_nat)
  have h: "holds m' s xs" "mapped m' out (length xs + 1)" "?n \<le> s - out" "?n \<le> out - s" using assms(6) False by auto
  note far = disjoint_blocks [OF h(3,4) [unfolded word_le_nat_alt]]
  have "memcpy_body m' out s ?n = Some (put m' out xs)"
  proof (rule memcpy_body_ok)
    show "copies m' out s xs ?n" using h(1,2) n by (simp add: copies_def mapped_def)
    show "forward out s (unat ?n)" using far by (auto simp: forward_def dest: less_le_trans)
    show "4 \<le> unat (s + word_of_nat j - out)" if "32 < unat ?n" "j < unat ?n" for j
      using far [OF that(2)] that(1) by simp
  qed
  moreover have "st8 (put m' out xs) (out + ?n) 0 = Some (put m' out (xs @ [0]))"
    using h(2) assms(4) by (intro put_snoc) simp_all
  ultimately show ?thesis
    using assms(3,5) False strlen_ok [OF assms(1,2)] by (simp add: strdup_def memcpy_def)
qed

theorem strdup_correct_witness:
  "strdup (\<lambda>m n. (m, 0x1800)) (wit_page [(0x1001, [97, 98, 99])]) 0x1001 =
     Some (if (0x1800 :: u32) = 0 then (wit_page [(0x1001, [97, 98, 99])], 0)
           else (put (wit_page [(0x1001, [97, 98, 99])]) 0x1800 ([97, 98, 99] @ [0]), 0x1800))"
  by (rule strdup_correct [OF wit_page_mapped])
    (simp_all add: wit_page_maps, simp_all add: holds_Cons wit_page_def)

end
