(* ===== verification/Dlist.thy ===== *)
theory Dlist
  imports Prelude
begin

text \<open>
  \<open>src/src/lib/dlist.h\<close>: circular doubly linked lists of nodes embedded in larger objects. A node is an address; the
  heap maps the addresses of nodes to their two links, and an access through an address that is no node, such as the
  null pointer, is \<open>None\<close>. \<open>dlist h head xs\<close> states that the list at \<open>head\<close> has the nodes \<open>xs\<close>; the operations are
  shown to implement the operations on \<open>xs\<close> and to leave other lists alone.
\<close>

section \<open>Nodes and the heap\<close>

record dlist_head =
  dl_next :: u32
  dl_prev :: u32

type_synonym dheap = "u32 \<Rightarrow> dlist_head option"

definition get_next :: "dheap \<Rightarrow> u32 \<Rightarrow> u32 option" where
  "get_next h a = map_option dl_next (h a)"

definition get_prev :: "dheap \<Rightarrow> u32 \<Rightarrow> u32 option" where
  "get_prev h a = map_option dl_prev (h a)"

definition set_next :: "dheap \<Rightarrow> u32 \<Rightarrow> u32 \<Rightarrow> dheap option" where
  "set_next h a v = (case h a of None \<Rightarrow> None | Some n \<Rightarrow> Some (h(a \<mapsto> n\<lparr>dl_next := v\<rparr>)))"

definition set_prev :: "dheap \<Rightarrow> u32 \<Rightarrow> u32 \<Rightarrow> dheap option" where
  "set_prev h a v = (case h a of None \<Rightarrow> None | Some n \<Rightarrow> Some (h(a \<mapsto> n\<lparr>dl_prev := v\<rparr>)))"

section \<open>The operations\<close>

definition dlist_init :: "dheap \<Rightarrow> u32 \<Rightarrow> dheap option" where
  "dlist_init h l = do { h \<leftarrow> set_next h l l; set_prev h l l }"

definition dlist_node_linked :: "dheap \<Rightarrow> u32 \<Rightarrow> bool option" where
  "dlist_node_linked h node =
     (if node = 0 then Some False
      else do {
        n \<leftarrow> get_next h node;
        if n = 0 then Some False else do { p \<leftarrow> get_prev h node; Some (p \<noteq> 0) }
      })"

definition dlist_empty :: "dheap \<Rightarrow> u32 \<Rightarrow> bool option" where
  "dlist_empty h head = do { n \<leftarrow> get_next h head; Some (n = head) }"

definition dlist_add_between :: "dheap \<Rightarrow> u32 \<Rightarrow> u32 \<Rightarrow> u32 \<Rightarrow> dheap option" where
  "dlist_add_between h new_node prv nxt = do {
     h \<leftarrow> set_prev h nxt new_node;
     h \<leftarrow> set_next h new_node nxt;
     h \<leftarrow> set_prev h new_node prv;
     set_next h prv new_node
   }"

definition dlist_add :: "dheap \<Rightarrow> u32 \<Rightarrow> u32 \<Rightarrow> dheap option" where
  "dlist_add h new_node head = do { n \<leftarrow> get_next h head; dlist_add_between h new_node head n }"

definition dlist_add_tail :: "dheap \<Rightarrow> u32 \<Rightarrow> u32 \<Rightarrow> dheap option" where
  "dlist_add_tail h new_node head = do { p \<leftarrow> get_prev h head; dlist_add_between h new_node p head }"

definition dlist_del_between :: "dheap \<Rightarrow> u32 \<Rightarrow> u32 \<Rightarrow> dheap option" where
  "dlist_del_between h prv nxt = do { h \<leftarrow> set_prev h nxt prv; set_next h prv nxt }"

definition dlist_del :: "dheap \<Rightarrow> u32 \<Rightarrow> dheap option" where
  "dlist_del h entry = do {
     p \<leftarrow> get_prev h entry;
     n \<leftarrow> get_next h entry;
     h \<leftarrow> dlist_del_between h p n;
     h \<leftarrow> set_next h entry 0;
     set_prev h entry 0
   }"

text \<open>
  \<open>dlist_unlink_consistent_checked\<close>; the unchecked variant is the one without a validity test. A test for node
  validity is a function on addresses, absent when the caller passes null.
\<close>

definition dlist_unlink_consistent_checked ::
  "(u32 \<Rightarrow> bool) option \<Rightarrow> dheap \<Rightarrow> u32 \<Rightarrow> (dheap \<times> bool) option" where
  "dlist_unlink_consistent_checked node_valid h node =
     (if node = 0 then Some (h, False)
      else do {
        prv \<leftarrow> get_prev h node;
        nxt \<leftarrow> get_next h node;
        if prv = 0 \<or> nxt = 0 then Some (h, False)
        else if (case node_valid of None \<Rightarrow> False | Some v \<Rightarrow> \<not> v prv \<or> \<not> v nxt) then Some (h, False)
        else do {
          pn \<leftarrow> get_next h prv;
          if pn \<noteq> node then Some (h, False)
          else do {
            np \<leftarrow> get_prev h nxt;
            if np \<noteq> node then Some (h, False)
            else do {
              h \<leftarrow> set_next h prv nxt;
              h \<leftarrow> set_prev h nxt prv;
              h \<leftarrow> set_next h node 0;
              h \<leftarrow> set_prev h node 0;
              Some (h, True)
            }
          }
        }
      })"

definition dlist_unlink_consistent :: "dheap \<Rightarrow> u32 \<Rightarrow> (dheap \<times> bool) option" where
  "dlist_unlink_consistent h node =
     (if node = 0 then Some (h, False)
      else do {
        prv \<leftarrow> get_prev h node;
        nxt \<leftarrow> get_next h node;
        if prv = 0 \<or> nxt = 0 then Some (h, False)
        else do {
          pn \<leftarrow> get_next h prv;
          if pn \<noteq> node then Some (h, False)
          else do {
            np \<leftarrow> get_prev h nxt;
            if np \<noteq> node then Some (h, False)
            else do {
              h \<leftarrow> set_next h prv nxt;
              h \<leftarrow> set_prev h nxt prv;
              h \<leftarrow> set_next h node 0;
              h \<leftarrow> set_prev h node 0;
              Some (h, True)
            }
          }
        }
      })"

partial_function (option) remove_scan :: "dheap \<Rightarrow> u32 \<Rightarrow> u32 \<Rightarrow> u32 \<Rightarrow> (dheap \<times> bool) option" where
  "remove_scan h head node it =
     (if it = 0 \<or> it = head then Some (h, False)
      else do {
        nxt \<leftarrow> get_next h it;
        if it = node then do {
          p \<leftarrow> get_prev h it;
          h \<leftarrow> (if p \<noteq> 0 \<and> nxt \<noteq> 0 then do { h \<leftarrow> set_prev h nxt p; set_next h p nxt } else Some h);
          h \<leftarrow> set_next h it 0;
          h \<leftarrow> set_prev h it 0;
          Some (h, True)
        }
        else remove_scan h head node nxt
      })"

definition dlist_remove_node_if_present :: "dheap \<Rightarrow> u32 \<Rightarrow> u32 \<Rightarrow> (dheap \<times> bool) option" where
  "dlist_remove_node_if_present h head node =
     (if head = 0 \<or> node = 0 then Some (h, False)
      else do {
        (h, r) \<leftarrow> dlist_unlink_consistent h node;
        if r then Some (h, True)
        else do { it \<leftarrow> get_next h head; remove_scan h head node it }
      })"

text \<open>
  The checked variant also returns the message it passed to \<open>on_corrupt\<close>, if any.
\<close>

partial_function (option) remove_scan_checked ::
  "(u32 \<Rightarrow> bool) option \<Rightarrow> dheap \<Rightarrow> u32 \<Rightarrow> u32 \<Rightarrow> u32 \<Rightarrow> (dheap \<times> bool \<times> string option) option" where
  "remove_scan_checked node_valid h head node it =
     (let invalid = (\<lambda>a. case node_valid of None \<Rightarrow> False | Some v \<Rightarrow> \<not> v a)
      in if it = 0 \<or> it = head then Some (h, False, None)
      else do {
        nxt \<leftarrow> get_next h it;
        if invalid it then Some (h, False, Some ''DLIST: corrupted list (invalid iter)'')
        else if it = node then do {
          p \<leftarrow> get_prev h it;
          if p \<noteq> 0 \<and> nxt \<noteq> 0 \<and> (invalid p \<or> invalid nxt)
          then Some (h, False, Some ''DLIST: corrupted list (invalid links)'')
          else do {
            h \<leftarrow> (if p \<noteq> 0 \<and> nxt \<noteq> 0 then do { h \<leftarrow> set_prev h nxt p; set_next h p nxt } else Some h);
            h \<leftarrow> set_next h it 0;
            h \<leftarrow> set_prev h it 0;
            Some (h, True, None)
          }
        }
        else if nxt \<noteq> 0 \<and> nxt \<noteq> head \<and> invalid nxt
        then Some (h, False, Some ''DLIST: corrupted list (invalid next)'')
        else remove_scan_checked node_valid h head node nxt
      })"

definition dlist_remove_node_if_present_checked ::
  "(u32 \<Rightarrow> bool) option \<Rightarrow> dheap \<Rightarrow> u32 \<Rightarrow> u32 \<Rightarrow> (dheap \<times> bool \<times> string option) option" where
  "dlist_remove_node_if_present_checked node_valid h head node =
     (if head = 0 \<or> node = 0 then Some (h, False, None)
      else do {
        (h, r) \<leftarrow> dlist_unlink_consistent_checked node_valid h node;
        if r then Some (h, True, None)
        else do { it \<leftarrow> get_next h head; remove_scan_checked node_valid h head node it }
      })"

section \<open>The list of a heap\<close>

definition linked :: "dheap \<Rightarrow> u32 \<Rightarrow> u32 \<Rightarrow> bool" where
  "linked h a b \<longleftrightarrow> get_next h a = Some b \<and> get_prev h b = Some a"

fun chain :: "dheap \<Rightarrow> u32 \<Rightarrow> u32 list \<Rightarrow> u32 \<Rightarrow> bool" where
  "chain h a [] b \<longleftrightarrow> linked h a b"
| "chain h a (x # xs) b \<longleftrightarrow> linked h a x \<and> chain h x xs b"

definition dlist :: "dheap \<Rightarrow> u32 \<Rightarrow> u32 list \<Rightarrow> bool" where
  "dlist h head xs \<longleftrightarrow> chain h head xs head \<and> distinct (head # xs) \<and> 0 \<notin> set (head # xs)"

definition unlinked :: "dheap \<Rightarrow> u32 \<Rightarrow> bool" where
  "unlinked h a \<longleftrightarrow> a \<noteq> 0 \<and> get_next h a = Some 0 \<and> get_prev h a = Some 0"

lemma after_set_next:
  assumes "set_next h a v = Some h'"
  shows "get_next h' b = (if b = a then Some v else get_next h b)" "get_prev h' b = get_prev h b"
  using assms by (auto simp: set_next_def get_next_def get_prev_def split: option.splits)

lemma after_set_prev:
  assumes "set_prev h a v = Some h'"
  shows "get_prev h' b = (if b = a then Some v else get_prev h b)" "get_next h' b = get_next h b"
  using assms by (auto simp: set_prev_def get_next_def get_prev_def split: option.splits)

lemma set_defined:
  "get_next h a \<noteq> None \<Longrightarrow> \<exists>h'. set_next h a v = Some h'"
  "get_prev h a \<noteq> None \<Longrightarrow> \<exists>h'. set_prev h a v = Some h'"
  by (auto simp: set_next_def set_prev_def get_next_def get_prev_def split: option.splits)

lemma get_same: "get_next h a = None \<longleftrightarrow> get_prev h a = None"
  by (simp add: get_next_def get_prev_def)

lemma chain_append: "chain h a (xs @ y # ys) b \<longleftrightarrow> chain h a xs y \<and> chain h y ys b"
  by (induction xs arbitrary: a) auto

text \<open>A chain depends only on the outgoing links of its first nodes and the incoming links of its last ones.\<close>

lemma chain_cong:
  assumes "\<And>x. x \<in> set (a # xs) \<Longrightarrow> get_next h' x = get_next h x"
    "\<And>x. x \<in> set (xs @ [b]) \<Longrightarrow> get_prev h' x = get_prev h x"
  shows "chain h' a xs b = chain h a xs b"
  using assms by (induction xs arbitrary: a) (auto simp: linked_def)

lemma chain_last: "chain h a xs b \<Longrightarrow> get_prev h b = Some (last (a # xs))"
  by (induction xs arbitrary: a) (auto simp: linked_def)

lemma chain_first: "chain h a xs b \<Longrightarrow> get_next h a = Some (hd (xs @ [b]))"
  by (cases xs) (auto simp: linked_def)

lemma chain_defined: "chain h a xs b \<Longrightarrow> x \<in> set (a # xs) \<Longrightarrow> get_next h x \<noteq> None \<and> get_prev h x \<noteq> None \<or> x = a"
  by (induction xs arbitrary: a) (auto simp: linked_def get_same)

lemma chain_split:
  "chain h a (xs @ ys) b \<Longrightarrow> p = last (a # xs) \<Longrightarrow> n = hd (ys @ [b]) \<Longrightarrow>
   linked h p n \<and> (xs \<noteq> [] \<longrightarrow> chain h a (butlast xs) p) \<and> (ys \<noteq> [] \<longrightarrow> chain h n (tl ys) b)"
  by (cases xs rule: rev_cases; cases ys) (auto simp: chain_append)

lemma chain_join:
  "linked h p n \<Longrightarrow> p = last (a # xs) \<Longrightarrow> n = hd (ys @ [b]) \<Longrightarrow>
   (xs \<noteq> [] \<Longrightarrow> chain h a (butlast xs) p) \<Longrightarrow> (ys \<noteq> [] \<Longrightarrow> chain h n (tl ys) b) \<Longrightarrow> chain h a (xs @ ys) b"
  by (cases xs rule: rev_cases; cases ys) (auto simp: chain_append)

lemma chain_last_next: "chain h a xs b \<Longrightarrow> get_next h (last (a # xs)) = Some b"
  by (induction xs arbitrary: a) (auto simp: linked_def)

lemma chain_first_prev: "chain h a xs b \<Longrightarrow> get_prev h (hd (xs @ [b])) = Some a"
  by (cases xs) (auto simp: linked_def)

text \<open>The nodes before and behind a place of a list.\<close>

abbreviation before :: "u32 \<Rightarrow> u32 list \<Rightarrow> u32" where
  "before head xs \<equiv> last (head # xs)"

abbreviation behind :: "u32 \<Rightarrow> u32 list \<Rightarrow> u32" where
  "behind head ys \<equiv> hd (ys @ [head])"

lemma dlist_insert_links:
  assumes d: "dlist h head (xs @ ys)" and new: "new \<notin> set (head # xs @ ys)" "new \<noteq> 0"
    and N: "\<And>b. get_next h' b = (if b = new then Some (behind head ys) else if b = before head xs then Some new else get_next h b)"
    and P: "\<And>b. get_prev h' b = (if b = new then Some (before head xs) else if b = behind head ys then Some new else get_prev h b)"
  shows "dlist h' head (xs @ new # ys)"
proof -
  let ?p = "before head xs" and ?n = "behind head ys"
  have c: "chain h head (xs @ ys) head" and dist: "distinct (head # xs @ ys)" using d by (auto simp: dlist_def)
  note s = chain_split [OF c refl refl]
  have pn: "?p \<in> set (head # xs)" "?n \<in> set (ys @ [head])" by (simp, cases ys, auto)
  have "chain h' head (butlast xs) ?p" if "xs \<noteq> []"
  proof -
    have "chain h' head (butlast xs) ?p = chain h head (butlast xs) ?p"
      using that dist new pn by (cases xs rule: rev_cases; cases ys) (auto intro!: chain_cong simp: N P)
    then show ?thesis using s that by simp
  qed
  moreover have "chain h' ?n (tl ys) head" if "ys \<noteq> []"
  proof -
    have "chain h' ?n (tl ys) head = chain h ?n (tl ys) head"
      using that dist new pn by (cases xs rule: rev_cases; cases ys) (auto intro!: chain_cong simp: N P)
    then show ?thesis using s that by simp
  qed
  moreover have "linked h' ?p new" "linked h' new ?n" using new pn by (auto simp: linked_def N P)
  ultimately have "chain h' head (xs @ new # ys) head"
    by (cases xs rule: rev_cases; cases ys) (auto simp: chain_append)
  then show ?thesis using d new by (auto simp: dlist_def)
qed

lemma dlist_remove_links:
  assumes d: "dlist h head (xs @ y # ys)"
    and N: "\<And>b. get_next h' b = (if b = y then Some 0 else if b = before head xs then Some (behind head ys) else get_next h b)"
    and P: "\<And>b. get_prev h' b = (if b = y then Some 0 else if b = behind head ys then Some (before head xs) else get_prev h b)"
  shows "dlist h' head (xs @ ys)" "unlinked h' y"
proof -
  let ?p = "before head xs" and ?n = "behind head ys"
  have c: "chain h head xs y" "chain h y ys head" and dist: "distinct (head # xs @ y # ys)"
    using d by (auto simp: dlist_def chain_append)
  have "chain h' head (xs @ ys) head"
  proof (rule chain_join [OF _ refl refl])
    show "linked h' ?p ?n" using dist by (cases xs rule: rev_cases; cases ys) (auto simp: linked_def N P)
    show "chain h' head (butlast xs) ?p" if "xs \<noteq> []"
    proof -
      have "chain h' head (butlast xs) ?p = chain h head (butlast xs) ?p"
        using that dist by (cases xs rule: rev_cases; cases ys) (auto intro!: chain_cong simp: N P)
      then show ?thesis using c(1) that by (cases xs rule: rev_cases) (auto simp: chain_append)
    qed
    show "chain h' ?n (tl ys) head" if "ys \<noteq> []"
    proof -
      have "chain h' ?n (tl ys) head = chain h ?n (tl ys) head"
        using that dist by (cases xs rule: rev_cases; cases ys) (auto intro!: chain_cong simp: N P)
      then show ?thesis using c(2) that by (cases ys) auto
    qed
  qed
  then show "dlist h' head (xs @ ys)" using d by (auto simp: dlist_def)
  show "unlinked h' y" using d by (auto simp: unlinked_def N P dlist_def)
qed


text \<open>A heap that differs from another one only in the links of the nodes in \<open>S\<close>.\<close>

definition frame :: "dheap \<Rightarrow> dheap \<Rightarrow> u32 set \<Rightarrow> bool" where
  "frame h h' S \<longleftrightarrow> (\<forall>b. b \<notin> S \<longrightarrow> get_next h' b = get_next h b \<and> get_prev h' b = get_prev h b) \<and>
     (\<forall>b. get_next h b \<noteq> None \<longrightarrow> get_next h' b \<noteq> None)"

lemma frame_dlist: "frame h h' S \<Longrightarrow> dlist h head xs \<Longrightarrow> set (head # xs) \<inter> S = {} \<Longrightarrow> dlist h' head xs"
proof -
  assume f: "frame h h' S" and d: "dlist h head xs" and "set (head # xs) \<inter> S = {}"
  then have "get_next h' x = get_next h x \<and> get_prev h' x = get_prev h x" if "x \<in> set (head # xs)" for x
    using that by (auto simp: frame_def disjoint_iff)
  then have "chain h' head xs head = chain h head xs head" by (intro chain_cong) auto
  then show ?thesis using d by (simp add: dlist_def)
qed

lemma frame_unlinked: "frame h h' S \<Longrightarrow> unlinked h a \<Longrightarrow> a \<notin> S \<Longrightarrow> unlinked h' a"
  by (auto simp: frame_def unlinked_def)

lemma frame_trans: "frame h h1 S \<Longrightarrow> frame h1 h2 S' \<Longrightarrow> S \<union> S' \<subseteq> T \<Longrightarrow> frame h h2 T"
  unfolding frame_def by (intro conjI allI impI) (metis UnCI subset_iff)+

lemma dlist_neighbours:
  assumes "dlist h head (xs @ y # ys)"
  shows "get_prev h y = Some (before head xs)" "get_next h y = Some (behind head ys)"
    "get_next h (before head xs) = Some y" "get_prev h (behind head ys) = Some y"
    "before head xs \<noteq> 0" "behind head ys \<noteq> 0" "y \<noteq> 0" "before head xs \<noteq> y" "behind head ys \<noteq> y"
proof -
  have c: "chain h head xs y" "chain h y ys head" and d: "distinct (head # xs @ y # ys)" "0 \<notin> set (head # xs @ y # ys)"
    using assms by (auto simp: dlist_def chain_append)
  show "get_prev h y = Some (before head xs)" "get_next h (before head xs) = Some y"
    using chain_last [OF c(1)] chain_last_next [OF c(1)] by auto
  show "get_next h y = Some (behind head ys)" "get_prev h (behind head ys) = Some y"
    using chain_first [OF c(2)] chain_first_prev [OF c(2)] by auto
  have "before head xs \<in> set (head # xs)" "behind head ys \<in> set (head # ys)" by (simp, cases ys, auto)
  then show "before head xs \<noteq> 0" "behind head ys \<noteq> 0" "y \<noteq> 0" "before head xs \<noteq> y" "behind head ys \<noteq> y"
    using d by auto
qed

lemma dlist_ends:
  assumes "dlist h head xs"
  shows "get_next h head = Some (behind head xs)" "get_prev h head = Some (before head xs)"
    "get_next h (before head xs) = Some head" "get_prev h (behind head xs) = Some head"
  using assms chain_last chain_first chain_last_next chain_first_prev unfolding dlist_def by blast+

lemma dlist_empty_ok: "dlist h head xs \<Longrightarrow> dlist_empty h head = Some (xs = [])"
  using dlist_ends(1) [of h head xs] by (cases xs) (auto simp: dlist_empty_def dlist_def)

lemma dlist_init_ok:
  assumes "get_next h l \<noteq> None" "l \<noteq> 0"
  shows "\<exists>h'. dlist_init h l = Some h' \<and> dlist h' l [] \<and> frame h h' {l}"
proof -
  obtain h1 where h1: "set_next h l l = Some h1" using set_defined(1) [OF assms(1)] by blast
  then have "get_prev h1 l \<noteq> None" using assms(1) by (simp add: after_set_next [OF h1] get_same)
  then obtain h2 where h2: "set_prev h1 l l = Some h2" using set_defined(2) by blast
  show ?thesis
    using h1 h2 assms by (auto simp: dlist_init_def dlist_def linked_def frame_def after_set_next [OF h1] after_set_prev [OF h2])
qed

lemma add_between_links:
  assumes "get_next h p \<noteq> None" "get_next h n \<noteq> None" "get_next h new \<noteq> None" "new \<noteq> p" "new \<noteq> n"
  shows "\<exists>h'. dlist_add_between h new p n = Some h' \<and>
    (\<forall>b. get_next h' b = (if b = new then Some n else if b = p then Some new else get_next h b)) \<and>
    (\<forall>b. get_prev h' b = (if b = new then Some p else if b = n then Some new else get_prev h b))"
proof -
  obtain h1 where h1: "set_prev h n new = Some h1" using set_defined(2) [of h n] assms(2) by (auto simp: get_same)
  then obtain h2 where h2: "set_next h1 new n = Some h2"
    using set_defined(1) [of h1 new] assms(3) by (auto simp: after_set_prev [OF h1])
  then obtain h3 where h3: "set_prev h2 new p = Some h3"
    using set_defined(2) [of h2 new] assms(3,5)
    by (auto simp: after_set_prev [OF h1] after_set_next [OF h2] get_same)
  then obtain h4 where h4: "set_next h3 p new = Some h4"
    using set_defined(1) [of h3 p] assms(1,4) by (auto simp: after_set_prev [OF h1] after_set_next [OF h2] after_set_prev [OF h3])
  show ?thesis
    using h1 h2 h3 h4 assms(4,5)
    by (auto simp: dlist_add_between_def after_set_prev [OF h1] after_set_next [OF h2] after_set_prev [OF h3] after_set_next [OF h4])
qed

lemma dlist_add_tail_ok:
  assumes d: "dlist h head xs" and new: "new \<notin> set (head # xs)" "new \<noteq> 0" "get_next h new \<noteq> None"
  shows "\<exists>h'. dlist_add_tail h new head = Some h' \<and> dlist h' head (xs @ [new]) \<and> frame h h' (set (new # head # xs))"
proof -
  have "before head xs \<in> set (head # xs)" by simp
  then obtain h' where "dlist_add_between h new (before head xs) head = Some h'"
    and l: "\<forall>b. get_next h' b = (if b = new then Some head else if b = before head xs then Some new else get_next h b)"
      "\<forall>b. get_prev h' b = (if b = new then Some (before head xs) else if b = head then Some new else get_prev h b)"
    using add_between_links [of h "before head xs" head new] dlist_ends [OF d] new by auto
  moreover have "dlist h' head (xs @ [new])"
    using dlist_insert_links [of h head xs "[]" new h'] d new l by simp
  moreover have "frame h h' (set (new # head # xs))" using l by (auto simp: frame_def)
  ultimately show ?thesis using dlist_ends(2) [OF d] by (auto simp: dlist_add_tail_def)
qed

lemma dlist_add_ok:
  assumes d: "dlist h head xs" and new: "new \<notin> set (head # xs)" "new \<noteq> 0" "get_next h new \<noteq> None"
  shows "\<exists>h'. dlist_add h new head = Some h' \<and> dlist h' head (new # xs) \<and> frame h h' (set (new # head # xs))"
proof -
  have "behind head xs \<in> set (head # xs)" by (cases xs) auto
  then obtain h' where "dlist_add_between h new head (behind head xs) = Some h'"
    and l: "\<forall>b. get_next h' b = (if b = new then Some (behind head xs) else if b = head then Some new else get_next h b)"
      "\<forall>b. get_prev h' b = (if b = new then Some head else if b = behind head xs then Some new else get_prev h b)"
    using add_between_links [of h head "behind head xs" new] dlist_ends [OF d] new by (auto simp: get_same)
  moreover have "dlist h' head (new # xs)"
    using dlist_insert_links [of h head "[]" xs new h'] d new l by simp
  moreover have "frame h h' (set (new # head # xs))" using l \<open>behind head xs \<in> _\<close> by (auto simp: frame_def)
  ultimately show ?thesis using dlist_ends(1) [OF d] by (auto simp: dlist_add_def)
qed


lemma del_between_links:
  assumes "get_next h p \<noteq> None" "get_next h n \<noteq> None" "get_next h y \<noteq> None" "y \<noteq> p" "y \<noteq> n"
  shows "\<exists>h1 h2 h3 h4. set_prev h n p = Some h1 \<and> set_next h1 p n = Some h2 \<and>
    set_next h2 y 0 = Some h3 \<and> set_prev h3 y 0 = Some h4 \<and>
    (\<forall>b. get_next h4 b = (if b = y then Some 0 else if b = p then Some n else get_next h b)) \<and>
    (\<forall>b. get_prev h4 b = (if b = y then Some 0 else if b = n then Some p else get_prev h b))"
proof -
  obtain h1 where h1: "set_prev h n p = Some h1" using set_defined(2) [of h n] assms(2) by (auto simp: get_same)
  then obtain h2 where h2: "set_next h1 p n = Some h2"
    using set_defined(1) [of h1 p] assms(1) by (auto simp: after_set_prev [OF h1])
  then obtain h3 where h3: "set_next h2 y 0 = Some h3"
    using set_defined(1) [of h2 y] assms(3,4) by (auto simp: after_set_prev [OF h1] after_set_next [OF h2])
  then obtain h4 where h4: "set_prev h3 y 0 = Some h4"
    using set_defined(2) [of h3 y] assms(3,4,5)
    by (auto simp: after_set_prev [OF h1] after_set_next [OF h2] after_set_next [OF h3] get_same)
  show ?thesis
    using h1 h2 h3 h4 assms(4,5)
    by (auto simp: after_set_prev [OF h1] after_set_next [OF h2] after_set_next [OF h3] after_set_prev [OF h4])
qed

lemma links_commute: "x\<lparr>dl_prev := w, dl_next := v\<rparr> = x\<lparr>dl_next := v, dl_prev := w\<rparr>" for x :: dlist_head
  by (cases x) simp

lemma set_prev_next_swap:
  assumes "set_prev h b w = Some h1" "set_next h1 a v = Some h2"
  shows "\<exists>h3. set_next h a v = Some h3 \<and> set_prev h3 b w = Some h2"
  using assms by (auto simp: set_next_def set_prev_def fun_upd_twist links_commute split: option.splits if_splits)

text \<open>Every removal makes the same four stores.\<close>

lemma remove_stores:
  assumes d: "dlist h head (xs @ y # ys)"
  obtains h1 h2 h3 h4 where "set_prev h (behind head ys) (before head xs) = Some h1"
    "set_next h1 (before head xs) (behind head ys) = Some h2" "set_next h2 y 0 = Some h3" "set_prev h3 y 0 = Some h4"
    "dlist h4 head (xs @ ys)" "unlinked h4 y" "frame h h4 (set (head # xs @ y # ys))"
proof -
  let ?p = "before head xs" and ?n = "behind head ys"
  note nb = dlist_neighbours [OF d]
  have defined: "get_next h ?p \<noteq> None" "get_next h ?n \<noteq> None" "get_next h y \<noteq> None"
    unfolding nb(2,3) get_same [of h ?n] nb(4) by simp_all
  obtain h1 h2 h3 h4 where s: "set_prev h ?n ?p = Some h1" "set_next h1 ?p ?n = Some h2"
      "set_next h2 y 0 = Some h3" "set_prev h3 y 0 = Some h4"
    and l: "\<forall>b. get_next h4 b = (if b = y then Some 0 else if b = ?p then Some ?n else get_next h b)"
      "\<forall>b. get_prev h4 b = (if b = y then Some 0 else if b = ?n then Some ?p else get_prev h b)"
    using del_between_links [OF defined nb(8) [symmetric] nb(9) [symmetric]] by blast
  have "?p \<in> set (head # xs)" "?n \<in> set (head # ys)" by (simp, cases ys, auto)
  then have "frame h h4 (set (head # xs @ y # ys))" using l by (auto simp: frame_def)
  with that [OF s] dlist_remove_links [OF d] l show ?thesis by blast
qed

lemma dlist_del_ok:
  assumes "dlist h head (xs @ y # ys)"
  shows "\<exists>h'. dlist_del h y = Some h' \<and> dlist h' head (xs @ ys) \<and> unlinked h' y \<and> frame h h' (set (head # xs @ y # ys))"
  using dlist_neighbours [OF assms]
  by (rule_tac remove_stores [OF assms]) (auto simp: dlist_del_def dlist_del_between_def)

lemma dlist_unlink_consistent_ok:
  assumes "dlist h head (xs @ y # ys)"
  shows "\<exists>h'. dlist_unlink_consistent h y = Some (h', True) \<and> dlist h' head (xs @ ys) \<and> unlinked h' y \<and>
    frame h h' (set (head # xs @ y # ys))"
proof (rule remove_stores [OF assms])
  fix h1 h2 h3 h4
  assume s: "set_prev h (behind head ys) (before head xs) = Some h1"
    "set_next h1 (before head xs) (behind head ys) = Some h2" "set_next h2 y 0 = Some h3" "set_prev h3 y 0 = Some h4"
    and r: "dlist h4 head (xs @ ys)" "unlinked h4 y" "frame h h4 (set (head # xs @ y # ys))"
  obtain g where "set_next h (before head xs) (behind head ys) = Some g" "set_prev g (behind head ys) (before head xs) = Some h2"
    using set_prev_next_swap [OF s(1,2)] by blast
  then show ?thesis using s(3,4) r dlist_neighbours [OF assms] by (simp add: dlist_unlink_consistent_def)
qed

lemma dlist_unlink_unlinked: "unlinked h y \<Longrightarrow> dlist_unlink_consistent h y = Some (h, False)"
  by (simp add: dlist_unlink_consistent_def unlinked_def)

lemma dlist_unlink_checked:
  "dlist_unlink_consistent_checked None h y = dlist_unlink_consistent h y"
  by (simp add: dlist_unlink_consistent_checked_def dlist_unlink_consistent_def cong: if_cong)

lemma remove_scan_absent:
  assumes "node \<notin> set xs" "0 \<notin> set xs"
  shows "chain h a xs head \<Longrightarrow> head \<notin> set xs \<Longrightarrow> remove_scan h head node (hd (xs @ [head])) = Some (h, False)"
  using assms
proof (induction xs arbitrary: a)
  case Nil
  then show ?case by (simp add: remove_scan.simps)
next
  case (Cons x xs)
  then have "get_next h x = Some (hd (xs @ [head]))" using chain_first by auto
  then show ?case using Cons by (subst remove_scan.simps) auto
qed

lemma dlist_remove_absent:
  assumes "dlist h head xs" "unlinked h node" "node \<notin> set xs"
  shows "dlist_remove_node_if_present h head node = Some (h, False)"
  using assms remove_scan_absent [of node xs h head head] dlist_ends(1) [OF assms(1)] dlist_unlink_unlinked [OF assms(2)]
  by (auto simp: dlist_remove_node_if_present_def dlist_def unlinked_def)

lemma dlist_remove_present:
  assumes "dlist h head (xs @ y # ys)"
  shows "\<exists>h'. dlist_remove_node_if_present h head y = Some (h', True) \<and> dlist h' head (xs @ ys) \<and> unlinked h' y"
  using dlist_unlink_consistent_ok [OF assms] assms dlist_neighbours(7) [OF assms]
  by (auto simp: dlist_remove_node_if_present_def dlist_def)

section \<open>Properties\<close>

text \<open>
  C26: appending a node and unlinking any node of a list have the effect on the list of nodes that their names promise,
  an unlinked node has null links, and a list with other nodes is untouched by both.
\<close>

theorem dlist_append_unlink:
  assumes "dlist h head xs" "new \<notin> set (head # xs)" "new \<noteq> 0" "get_next h new \<noteq> None"
    "dlist h head' zs" "set (head' # zs) \<inter> set (new # head # xs) = {}" "xs @ [new] = us @ y # vs"
  shows "\<exists>h1 h2. dlist_add_tail h new head = Some h1 \<and> dlist h1 head (xs @ [new]) \<and>
    dlist_unlink_consistent h1 y = Some (h2, True) \<and> dlist h2 head (us @ vs) \<and> unlinked h2 y \<and> dlist h2 head' zs"
proof -
  obtain h1 where h1: "dlist_add_tail h new head = Some h1" "dlist h1 head (xs @ [new])" "frame h h1 (set (new # head # xs))"
    using dlist_add_tail_ok [OF assms(1-4)] by blast
  obtain h2 where h2: "dlist_unlink_consistent h1 y = Some (h2, True)" "dlist h2 head (us @ vs)" "unlinked h2 y"
      "frame h1 h2 (set (head # us @ y # vs))"
    using dlist_unlink_consistent_ok [of h1 head us y vs] h1(2) assms(7) by auto
  have "set (head # us @ y # vs) = set (new # head # xs)" using arg_cong [OF assms(7), of set] by auto
  then have "frame h h2 (set (new # head # xs))" by (intro frame_trans [OF h1(3) h2(4)]) simp
  then have "dlist h2 head' zs" using assms(5,6) by (rule frame_dlist)
  with h1 h2 show ?thesis by blast
qed

definition wit_heap :: dheap where
  "wit_heap = [0x10 \<mapsto> \<lparr>dl_next = 0x10, dl_prev = 0x10\<rparr>, 0x20 \<mapsto> \<lparr>dl_next = 0, dl_prev = 0\<rparr>,
     0x30 \<mapsto> \<lparr>dl_next = 0x30, dl_prev = 0x30\<rparr>]"

theorem dlist_append_unlink_witness:
  "\<exists>h1 h2. dlist_add_tail wit_heap 0x20 0x10 = Some h1 \<and> dlist h1 0x10 ([] @ [0x20]) \<and>
    dlist_unlink_consistent h1 0x20 = Some (h2, True) \<and> dlist h2 0x10 ([] @ []) \<and> unlinked h2 0x20 \<and> dlist h2 0x30 []"
  by (rule dlist_append_unlink)
    (simp_all add: wit_heap_def dlist_def linked_def get_next_def get_prev_def)

end
