(* ===== verification/Waitqueue.thy ===== *)
theory Waitqueue
  imports Dlist
begin

text \<open>
  \<open>src/src/kernel/waitq/waitqueue.c\<close>: queues of sleeping tasks, built on the intrusive lists of \<open>Dlist\<close>, and the two
  functions of \<open>src/src/kernel/proc.cpp\<close> that they call, \<open>proc_change_state\<close> and \<open>proc_wake\<close>. The address of a task
  is identified with the address of its embedded \<open>sem_node\<close>, so that \<open>container_of\<close> is the identity. The lists of
  sleeping and of runnable tasks are not part of the state: \<open>runnable\<close> records the calls of \<open>sched_add\<close> in order.
  All operations run with the lock of the queue held, as their names say.
\<close>

section \<open>Tasks\<close>

datatype task_state = TASK_UNUSED | TASK_RUNNABLE | TASK_RUNNING | TASK_STOPPED | TASK_ZOMBIE | TASK_WAITING

datatype task_block_kind = TASK_BLOCK_NONE | TASK_BLOCK_SEM | TASK_BLOCK_FUTEX

record task =
  blocked_on_sem :: u32
  blocked_kind :: task_block_kind
  task_state :: task_state

record world =
  nodes :: dheap
  tasks :: "u32 \<Rightarrow> task"
  runnable :: "u32 list"

abbreviation upd_task :: "u32 \<Rightarrow> (task \<Rightarrow> task) \<Rightarrow> world \<Rightarrow> world" where
  "upd_task t f w \<equiv> w\<lparr>tasks := (tasks w)(t := f (tasks w t))\<rparr>"

definition proc_change_state :: "world \<Rightarrow> u32 \<Rightarrow> task_state \<Rightarrow> world \<times> int" where
  "proc_change_state w t new_state =
     (if t = 0 then (w, -1)
      else let old_state = task_state (tasks w t)
      in if old_state = TASK_UNUSED then (w, -1)
      else if old_state = TASK_ZOMBIE \<and> new_state \<noteq> TASK_ZOMBIE then (w, -1)
      else let ok = (case new_state of
               TASK_UNUSED \<Rightarrow> False
             | TASK_ZOMBIE \<Rightarrow> True
             | TASK_WAITING \<Rightarrow> old_state = TASK_RUNNING \<or> old_state = TASK_WAITING
             | TASK_RUNNABLE \<Rightarrow> old_state = TASK_WAITING \<or> old_state = TASK_RUNNING \<or>
                 old_state = TASK_RUNNABLE \<or> old_state = TASK_STOPPED
             | TASK_RUNNING \<Rightarrow> old_state = TASK_RUNNABLE \<or> old_state = TASK_RUNNING \<or> old_state = TASK_WAITING
             | TASK_STOPPED \<Rightarrow> True)
      in if ok then (upd_task t (task_state_update (\<lambda>_. new_state)) w, 0) else (w, -1))"

text \<open>A task that still waits on a queue is not made runnable.\<close>

definition proc_wake :: "world \<Rightarrow> u32 \<Rightarrow> world" where
  "proc_wake w t =
     (if t = 0 then w
      else if task_state (tasks w t) = TASK_ZOMBIE \<or> task_state (tasks w t) = TASK_UNUSED then w
      else if blocked_on_sem (tasks w t) \<noteq> 0 then w
      else if task_state (tasks w t) = TASK_WAITING \<or> task_state (tasks w t) = TASK_STOPPED
      then (upd_task t (task_state_update (\<lambda>_. TASK_RUNNABLE)) w)\<lparr>runnable := runnable w @ [t]\<rparr>
      else w)"

section \<open>The queue\<close>

record waitqueue =
  waiters :: u32
  blocked_on :: u32
  kind :: task_block_kind

definition waitqueue_reset_task_wait_state :: "world \<Rightarrow> u32 \<Rightarrow> world option" where
  "waitqueue_reset_task_wait_state w t = do {
     h \<leftarrow> set_next (nodes w) t 0;
     h \<leftarrow> set_prev h t 0;
     Some (upd_task t (\<lambda>k. k\<lparr>blocked_on_sem := 0, blocked_kind := TASK_BLOCK_NONE\<rparr>) (w\<lparr>nodes := h\<rparr>))
   }"

definition waitqueue_init :: "world \<Rightarrow> u32 \<Rightarrow> u32 \<Rightarrow> task_block_kind \<Rightarrow> (world \<times> waitqueue ptr) option" where
  "waitqueue_init w q on k =
     (if q = 0 then Some (w, None)
      else do {
        h \<leftarrow> dlist_init (nodes w) q;
        Some (w\<lparr>nodes := h\<rparr>, Some \<lparr>waiters = q, blocked_on = on, kind = k\<rparr>)
      })"

text \<open>\<open>Inl\<close> is a kernel panic.\<close>

definition waitqueue_wait_prepare_locked :: "world \<Rightarrow> waitqueue ptr \<Rightarrow> u32 \<Rightarrow> (string + world \<times> int) option" where
  "waitqueue_wait_prepare_locked w qp t =
     (case qp of None \<Rightarrow> Some (Inr (w, -1)) | Some q \<Rightarrow>
      if t = 0 then Some (Inr (w, -1))
      else do {
        n \<leftarrow> get_next (nodes w) t;
        p \<leftarrow> get_prev (nodes w) t;
        if n \<noteq> 0 \<or> p \<noteq> 0 then Some (Inl (''WAITQ: task is already linked'' @ [CHR 0x0A]))
        else do {
          let w = upd_task t (\<lambda>k. k\<lparr>blocked_on_sem := blocked_on q, blocked_kind := kind q\<rparr>) w;
          h \<leftarrow> dlist_add_tail (nodes w) t (waiters q);
          let (w, r) = proc_change_state (w\<lparr>nodes := h\<rparr>) t TASK_WAITING;
          if r \<noteq> 0 then do {
            h \<leftarrow> dlist_del (nodes w) t;
            w \<leftarrow> waitqueue_reset_task_wait_state (w\<lparr>nodes := h\<rparr>) t;
            Some (Inr (w, -1))
          }
          else Some (Inr (w, 0))
        }
      })"

definition waitqueue_wait_cancel_locked :: "world \<Rightarrow> waitqueue ptr \<Rightarrow> u32 \<Rightarrow> world option" where
  "waitqueue_wait_cancel_locked w qp t =
     (case qp of None \<Rightarrow> Some w | Some q \<Rightarrow>
      if t = 0 then Some w
      else if blocked_on_sem (tasks w t) \<noteq> blocked_on q \<or> blocked_kind (tasks w t) \<noteq> kind q then Some w
      else do {
        (h, r) \<leftarrow> dlist_unlink_consistent (nodes w) t;
        if r then waitqueue_reset_task_wait_state (w\<lparr>nodes := h\<rparr>) t else Some (w\<lparr>nodes := h\<rparr>)
      })"

text \<open>Taking the first task off a list: the queue's own, or one that was detached.\<close>

definition waitqueue_detached_list_pop :: "world \<Rightarrow> u32 \<Rightarrow> (world \<times> u32) option" where
  "waitqueue_detached_list_pop w l =
     (if l = 0 then Some (w, 0)
      else do {
        e \<leftarrow> dlist_empty (nodes w) l;
        if e then Some (w, 0)
        else do {
          t \<leftarrow> get_next (nodes w) l;
          h \<leftarrow> dlist_del (nodes w) t;
          w \<leftarrow> waitqueue_reset_task_wait_state (w\<lparr>nodes := h\<rparr>) t;
          Some (w, t)
        }
      })"

definition waitqueue_dequeue_locked :: "world \<Rightarrow> waitqueue ptr \<Rightarrow> (world \<times> u32) option" where
  "waitqueue_dequeue_locked w qp =
     (case qp of None \<Rightarrow> Some (w, 0) | Some q \<Rightarrow> do {
        e \<leftarrow> dlist_empty (nodes w) (waiters q);
        if e then Some (w, 0)
        else do {
          t \<leftarrow> get_next (nodes w) (waiters q);
          h \<leftarrow> dlist_del (nodes w) t;
          w \<leftarrow> waitqueue_reset_task_wait_state (w\<lparr>nodes := h\<rparr>) t;
          Some (w, t)
        }
      })"

definition waitqueue_detach_all_locked :: "world \<Rightarrow> waitqueue ptr \<Rightarrow> u32 \<Rightarrow> world option" where
  "waitqueue_detach_all_locked w qp out_list =
     (case qp of None \<Rightarrow> Some w | Some q \<Rightarrow>
      if out_list = 0 then Some w
      else do {
        h \<leftarrow> dlist_init (nodes w) out_list;
        e \<leftarrow> dlist_empty h (waiters q);
        if e then Some (w\<lparr>nodes := h\<rparr>)
        else do {
          n \<leftarrow> get_next h (waiters q);
          h \<leftarrow> set_next h out_list n;
          p \<leftarrow> get_prev h (waiters q);
          h \<leftarrow> set_prev h out_list p;
          h \<leftarrow> set_prev h n out_list;
          h \<leftarrow> set_next h p out_list;
          h \<leftarrow> dlist_init h (waiters q);
          Some (w\<lparr>nodes := h\<rparr>)
        }
      })"

partial_function (option) waitqueue_wake_detached_list :: "world \<Rightarrow> u32 \<Rightarrow> world option" where
  "waitqueue_wake_detached_list w l =
     (if l = 0 then Some w
      else do {
        (w, t) \<leftarrow> waitqueue_detached_list_pop w l;
        if t = 0 then Some w else waitqueue_wake_detached_list (proc_wake w t) l
      })"

definition waitqueue_wake_task :: "world \<Rightarrow> u32 \<Rightarrow> world" where
  "waitqueue_wake_task w t = proc_wake w t"

definition waitqueue_wake_one_locked :: "world \<Rightarrow> waitqueue ptr \<Rightarrow> (world \<times> int) option" where
  "waitqueue_wake_one_locked w qp =
     (if qp = None then Some (w, 0)
      else do {
        (w, t) \<leftarrow> waitqueue_dequeue_locked w qp;
        if t = 0 then Some (w, 0) else Some (proc_wake w t, 1)
      })"

partial_function (option) wake_all_loop :: "waitqueue \<Rightarrow> world \<Rightarrow> u32 \<Rightarrow> (world \<times> u32) option" where
  "wake_all_loop q w woken = do {
     e \<leftarrow> dlist_empty (nodes w) (waiters q);
     if e then Some (w, woken)
     else do {
       (w, t) \<leftarrow> waitqueue_dequeue_locked w (Some q);
       if t = 0 then Some (w, woken) else wake_all_loop q (proc_wake w t) (woken + 1)
     }
   }"

definition waitqueue_wake_all_locked :: "world \<Rightarrow> waitqueue ptr \<Rightarrow> (world \<times> u32) option" where
  "waitqueue_wake_all_locked w qp =
     (case qp of None \<Rightarrow> Some (w, 0) | Some q \<Rightarrow> wake_all_loop q w 0)"

section \<open>Queues as lists of tasks\<close>

definition waits :: "world \<Rightarrow> waitqueue \<Rightarrow> u32 list \<Rightarrow> bool" where
  "waits w q ts \<longleftrightarrow> dlist (nodes w) (waiters q) ts \<and> blocked_on q \<noteq> 0 \<and>
     (\<forall>t \<in> set ts. blocked_on_sem (tasks w t) = blocked_on q \<and> blocked_kind (tasks w t) = kind q)"

text \<open>A task that is on no list and can go to sleep.\<close>

definition idle :: "world \<Rightarrow> waitqueue \<Rightarrow> u32 \<Rightarrow> bool" where
  "idle w q t \<longleftrightarrow> unlinked (nodes w) t \<and> t \<noteq> waiters q \<and>
     (task_state (tasks w t) = TASK_RUNNING \<or> task_state (tasks w t) = TASK_WAITING)"

abbreviation reset_task :: "u32 \<Rightarrow> world \<Rightarrow> world" where
  "reset_task t w \<equiv> upd_task t (\<lambda>k. k\<lparr>blocked_on_sem := 0, blocked_kind := TASK_BLOCK_NONE\<rparr>) w"

lemma reset_unlinked:
  assumes "unlinked (nodes w) t"
  shows "waitqueue_reset_task_wait_state w t = Some (reset_task t w)"
proof -
  obtain n where n: "nodes w t = Some n" "dl_next n = 0" "dl_prev n = 0"
    using assms by (auto simp: unlinked_def get_next_def get_prev_def)
  then have "n\<lparr>dl_next := 0\<rparr> = n" "n\<lparr>dl_prev := 0\<rparr> = n" by (cases n, simp)+
  moreover have "(nodes w)(t \<mapsto> n) = nodes w" using n(1) by auto
  ultimately show ?thesis
    using n(1) by (simp add: waitqueue_reset_task_wait_state_def set_next_def set_prev_def)
qed

lemma unlinked_notin: "dlist h head xs \<Longrightarrow> unlinked h t \<Longrightarrow> t \<noteq> head \<Longrightarrow> t \<notin> set (head # xs)"
proof
  assume d: "dlist h head xs" and u: "unlinked h t" "t \<noteq> head" "t \<in> set (head # xs)"
  then obtain us vs where "xs = us @ t # vs" using split_list [of t xs] by auto
  then show False using dlist_neighbours(1,5) [of h head us t vs] d u(1) by (simp add: unlinked_def)
qed

text \<open>Going to sleep appends the task.\<close>

lemma prepare_ok:
  assumes q: "waits w q ts" and t: "idle w q t"
  shows "\<exists>w'. waitqueue_wait_prepare_locked w (Some q) t = Some (Inr (w', 0)) \<and> waits w' q (ts @ [t]) \<and>
    task_state (tasks w' t) = TASK_WAITING \<and> runnable w' = runnable w \<and>
    (\<forall>u. u \<noteq> t \<longrightarrow> tasks w' u = tasks w u) \<and> frame (nodes w) (nodes w') (set (t # waiters q # ts))"
proof -
  have t': "t \<notin> set (waiters q # ts)" "t \<noteq> 0" "get_next (nodes w) t = Some 0" "get_prev (nodes w) t = Some 0"
    using unlinked_notin [of "nodes w" "waiters q" ts t] q t by (auto simp: waits_def idle_def unlinked_def)
  obtain h where "dlist_add_tail (nodes w) t (waiters q) = Some h" "dlist h (waiters q) (ts @ [t])"
      "frame (nodes w) h (set (t # waiters q # ts))"
    using dlist_add_tail_ok [of "nodes w" "waiters q" ts t] q t' by (auto simp: waits_def)
  then show ?thesis
    using q t t' by (auto simp: waitqueue_wait_prepare_locked_def proc_change_state_def idle_def waits_def)
qed

text \<open>A task that cannot go to sleep, because it is dying, is taken off again.\<close>

lemma change_waiting_fails:
  "\<not> (task_state (tasks w t) = TASK_RUNNING \<or> task_state (tasks w t) = TASK_WAITING) \<Longrightarrow>
   proc_change_state w t TASK_WAITING = (w, -1)"
  by (simp add: proc_change_state_def Let_def)

lemma prepare_fails:
  assumes q: "waits w q ts" and t: "unlinked (nodes w) t" "t \<noteq> waiters q"
    and s: "\<not> (task_state (tasks w t) = TASK_RUNNING \<or> task_state (tasks w t) = TASK_WAITING)"
  shows "\<exists>w'. waitqueue_wait_prepare_locked w (Some q) t = Some (Inr (w', -1)) \<and> waits w' q ts \<and>
    unlinked (nodes w') t \<and> blocked_on_sem (tasks w' t) = 0 \<and> task_state (tasks w' t) = task_state (tasks w t)"
proof -
  have t': "t \<notin> set (waiters q # ts)" "t \<noteq> 0" "get_next (nodes w) t = Some 0" "get_prev (nodes w) t = Some 0"
    using unlinked_notin [of "nodes w" "waiters q" ts t] q t by (auto simp: waits_def unlinked_def)
  obtain h where h: "dlist_add_tail (nodes w) t (waiters q) = Some h" "dlist h (waiters q) (ts @ [t])"
    using dlist_add_tail_ok [of "nodes w" "waiters q" ts t] q t' by (auto simp: waits_def)
  obtain h' where h': "dlist_del h t = Some h'" "dlist h' (waiters q) ts" "unlinked h' t"
    using dlist_del_ok [of h "waiters q" ts t "[]"] h(2) by auto
  show ?thesis
    using q t t' s h h'
    by (auto simp: waitqueue_wait_prepare_locked_def change_waiting_fails waits_def reset_unlinked Let_def)
qed

lemma dequeue_ok:
  assumes q: "waits w q (t # ts)"
  shows "\<exists>w'. waitqueue_dequeue_locked w (Some q) = Some (w', t) \<and> waits w' q ts \<and> unlinked (nodes w') t \<and>
    tasks w' = (tasks w)(t := (tasks w t)\<lparr>blocked_on_sem := 0, blocked_kind := TASK_BLOCK_NONE\<rparr>) \<and>
    runnable w' = runnable w \<and> frame (nodes w) (nodes w') (set (waiters q # t # ts))"
proof -
  have d: "dlist (nodes w) (waiters q) (t # ts)" using q by (simp add: waits_def)
  obtain h where h: "dlist_del (nodes w) t = Some h" "dlist h (waiters q) ts" "unlinked h t"
      "frame (nodes w) h (set (waiters q # t # ts))"
    using dlist_del_ok [of "nodes w" "waiters q" "[]" t ts] d by auto
  have "t \<notin> set ts" using d by (simp add: dlist_def)
  then show ?thesis
    using h dlist_empty_ok [OF d] dlist_ends(1) [OF d] q
    by (auto simp: waitqueue_dequeue_locked_def reset_unlinked waits_def)
qed

lemma dequeue_empty: "waits w q [] \<Longrightarrow> waitqueue_dequeue_locked w (Some q) = Some (w, 0)"
  using dlist_empty_ok [of "nodes w" "waiters q" "[]"] by (simp add: waitqueue_dequeue_locked_def waits_def)

lemma cancel_ok:
  assumes q: "waits w q (us @ t # vs)"
  shows "\<exists>w'. waitqueue_wait_cancel_locked w (Some q) t = Some w' \<and> waits w' q (us @ vs) \<and>
    unlinked (nodes w') t \<and> blocked_on_sem (tasks w' t) = 0"
proof -
  have d: "dlist (nodes w) (waiters q) (us @ t # vs)" using q by (simp add: waits_def)
  obtain h where h: "dlist_unlink_consistent (nodes w) t = Some (h, True)" "dlist h (waiters q) (us @ vs)" "unlinked h t"
    using dlist_unlink_consistent_ok [OF d] by blast
  have "t \<notin> set (us @ vs)" "t \<noteq> 0" using d by (auto simp: dlist_def)
  then show ?thesis
    using h q by (auto simp: waitqueue_wait_cancel_locked_def reset_unlinked waits_def)
qed

text \<open>A task that was already taken off is left alone.\<close>

lemma cancel_absent:
  "waits w q ts \<Longrightarrow> blocked_on_sem (tasks w t) = 0 \<Longrightarrow> waitqueue_wait_cancel_locked w (Some q) t = Some w"
  by (simp add: waitqueue_wait_cancel_locked_def waits_def)


lemma proc_wake_waiting:
  assumes "t \<noteq> 0" "task_state (tasks w t) = TASK_WAITING" "blocked_on_sem (tasks w t) = 0"
  shows "proc_wake w t =
    (upd_task t (task_state_update (\<lambda>_. TASK_RUNNABLE)) w)\<lparr>runnable := runnable w @ [t]\<rparr>"
  using assms by (simp add: proc_wake_def)

lemma proc_wake_simps [simp]:
  "nodes (proc_wake w t) = nodes w" "u \<noteq> t \<Longrightarrow> tasks (proc_wake w t) u = tasks w u"
  "blocked_on_sem (tasks (proc_wake w t) u) = blocked_on_sem (tasks w u)"
  "blocked_kind (tasks (proc_wake w t) u) = blocked_kind (tasks w u)"
  by (auto simp: proc_wake_def)

text \<open>Waking the whole queue takes the tasks off in order and makes them runnable in order.\<close>

lemma wake_all_loop_ok:
  "waits w q ts \<Longrightarrow> \<forall>t \<in> set ts. task_state (tasks w t) = TASK_WAITING \<Longrightarrow>
   \<exists>w'. wake_all_loop q w k = Some (w', k + word_of_nat (length ts)) \<and> waits w' q [] \<and>
     runnable w' = runnable w @ ts \<and> (\<forall>t \<in> set ts. task_state (tasks w' t) = TASK_RUNNABLE \<and> blocked_on_sem (tasks w' t) = 0) \<and>
     (\<forall>u. u \<notin> set ts \<longrightarrow> tasks w' u = tasks w u)"
proof (induction ts arbitrary: w k)
  case Nil
  then show ?case
    using dlist_empty_ok [of "nodes w" "waiters q" "[]"] by (simp add: wake_all_loop.simps waits_def)
next
  case (Cons t ts)
  obtain w1 where w1: "waitqueue_dequeue_locked w (Some q) = Some (w1, t)" "waits w1 q ts"
      "tasks w1 = (tasks w)(t := (tasks w t)\<lparr>blocked_on_sem := 0, blocked_kind := TASK_BLOCK_NONE\<rparr>)"
      "runnable w1 = runnable w"
    using dequeue_ok [OF Cons.prems(1)] by blast
  have d: "dlist (nodes w) (waiters q) (t # ts)" using Cons.prems(1) by (simp add: waits_def)
  then have t: "t \<noteq> 0" "t \<notin> set ts" "\<forall>u \<in> set ts. u \<noteq> t" by (auto simp: dlist_def)
  let ?w = "proc_wake w1 t"
  have wk: "?w = (upd_task t (task_state_update (\<lambda>_. TASK_RUNNABLE)) w1)\<lparr>runnable := runnable w1 @ [t]\<rparr>"
    using Cons.prems(2) w1(3) t(1) by (intro proc_wake_waiting) auto
  have "waits ?w q ts" using w1(2) by (simp add: waits_def)
  moreover have "\<forall>u \<in> set ts. task_state (tasks ?w u) = TASK_WAITING" using Cons.prems(2) w1(3) t by simp
  ultimately obtain w' where w': "wake_all_loop q ?w (k + 1) = Some (w', k + 1 + word_of_nat (length ts))" "waits w' q []"
      "runnable w' = runnable ?w @ ts" "\<forall>t \<in> set ts. task_state (tasks w' t) = TASK_RUNNABLE \<and> blocked_on_sem (tasks w' t) = 0"
      "\<forall>u. u \<notin> set ts \<longrightarrow> tasks w' u = tasks ?w u"
    using Cons.IH [of ?w "k + 1"] by blast
  have "wake_all_loop q w k = wake_all_loop q ?w (k + 1)"
    using w1(1) t(1) dlist_empty_ok [OF d] by (subst wake_all_loop.simps) simp
  moreover have "tasks w' t = tasks ?w t" using w'(5) t(2) by blast
  ultimately show ?case
    using w' w1(3,4) wk t(2) by (intro exI [of _ w']) (auto simp: add.assoc)
qed

text \<open>Detaching moves the whole list to another head in one step.\<close>

lemma detach_links:
  assumes d: "dlist h q (x # xs)" and out: "out \<notin> set (q # x # xs)" "out \<noteq> 0"
    and N: "\<And>b. get_next h' b = (if b = q then Some q else if b = last (x # xs) then Some out
        else if b = out then Some x else get_next h b)"
    and P: "\<And>b. get_prev h' b = (if b = q then Some q else if b = x then Some out
        else if b = out then Some (last (x # xs)) else get_prev h b)"
  shows "dlist h' out (x # xs)" "dlist h' q []"
proof -
  have c: "chain h x xs q" "linked h q x" and dist: "distinct (q # x # xs)" "0 \<notin> set (q # x # xs)"
    using d by (auto simp: dlist_def)
  have "last (x # xs) \<in> set (x # xs)" by simp
  then have l: "last (x # xs) \<noteq> q" "last (x # xs) \<noteq> out" using dist out by auto
  have "chain h' x xs out"
  proof (cases xs rule: rev_cases)
    case Nil
    then show ?thesis using l out dist by (auto simp: linked_def N P)
  next
    case (snoc ys y)
    have "chain h x ys y" using c(1) snoc by (simp add: chain_append)
    moreover have "chain h' x ys y = chain h x ys y"
      using snoc dist out by (intro chain_cong) (auto simp: N P)
    moreover have "linked h' y out" using snoc l out dist by (auto simp: linked_def N P)
    ultimately show ?thesis using snoc by (simp add: chain_append)
  qed
  moreover have "linked h' out x" using l out dist by (auto simp: linked_def N P)
  ultimately show "dlist h' out (x # xs)" using dist out by (auto simp: dlist_def)
  show "dlist h' q []" using dist by (auto simp: dlist_def linked_def N P)
qed


lemma detach_stores:
  assumes d: "dlist h q (x # xs)" and out: "out \<notin> set (q # x # xs)" "dlist h out []"
  shows "\<exists>h1 h2 h3 h4 h5. set_next h out x = Some h1 \<and> get_prev h1 q = Some (last (x # xs)) \<and>
    set_prev h1 out (last (x # xs)) = Some h2 \<and> set_prev h2 x out = Some h3 \<and>
    set_next h3 (last (x # xs)) out = Some h4 \<and> dlist_init h4 q = Some h5 \<and>
    dlist h5 out (x # xs) \<and> dlist h5 q [] \<and> frame h h5 (set (out # q # x # xs))"
proof -
  let ?l = "last (x # xs)"
  have dist: "distinct (q # x # xs)" "q \<noteq> 0" "out \<noteq> 0" using d out by (auto simp: dlist_def)
  note e = dlist_ends [OF d, simplified] and eo = dlist_ends [OF out(2), simplified]
  have lin: "?l \<in> set (x # xs)" by simp
  have ln: "get_next h ?l = Some q" using dlist_ends(3) [OF d] by simp
  have l: "?l \<noteq> out" "?l \<noteq> q" using dist out lin by (auto simp del: last.simps)
  obtain h1 where h1: "set_next h out x = Some h1" using set_defined(1) [of h out] eo by auto
  note a1 = after_set_next [OF h1]
  obtain h2 where h2: "set_prev h1 out ?l = Some h2" using set_defined(2) [of h1 out] eo by (auto simp: a1)
  note a2 = after_set_prev [OF h2]
  obtain h3 where h3: "set_prev h2 x out = Some h3"
    using set_defined(2) [of h2 x out] e(4) out by (auto simp: a1 a2 get_same)
  note a3 = after_set_prev [OF h3]
  obtain h4 where h4: "set_next h3 ?l out = Some h4"
    using set_defined(1) [of h3 ?l out] ln l by (auto simp: a1 a2 a3 simp del: last.simps)
  note a4 = after_set_next [OF h4]
  have "get_next h4 q \<noteq> None" using e(1) l out by (auto simp: a1 a2 a3 a4 simp del: last.simps)
  then obtain h5' where h5': "set_next h4 q q = Some h5'" using set_defined(1) by blast
  note a5' = after_set_next [OF h5']
  have "get_prev h5' q \<noteq> None" using get_same [of h5' q] by (simp add: a5')
  then obtain h5 where h5: "set_prev h5' q q = Some h5" using set_defined(2) by blast
  note a5 = after_set_prev [OF h5]
  have i: "dlist_init h4 q = Some h5" using h5' h5 by (simp add: dlist_init_def)
  have N: "get_next h5 b = (if b = q then Some q else if b = ?l then Some out else if b = out then Some x else get_next h b)" for b
    using l by (simp add: a1 a2 a3 a4 a5' a5 del: last.simps)
  have P: "get_prev h5 b = (if b = q then Some q else if b = x then Some out else if b = out then Some ?l else get_prev h b)" for b
    by (simp add: a1 a2 a3 a4 a5' a5 del: last.simps)
  note r = detach_links [OF d out(1) dist(3) N P]
  moreover have "frame h h5 (set (out # q # x # xs))"
    using lin by (auto simp: frame_def N P simp del: last.simps)
  moreover have "get_prev h1 q = Some ?l" using dlist_ends(2) [OF d] by (simp add: a1)
  ultimately show ?thesis using h1 h2 h3 h4 i by blast
qed

lemma detach_all_ok:
  assumes q: "waits w q ts" and out: "out \<notin> set (waiters q # ts)" "out \<noteq> 0" "get_next (nodes w) out \<noteq> None"
  shows "\<exists>w'. waitqueue_detach_all_locked w (Some q) out = Some w' \<and> waits w' q [] \<and> dlist (nodes w') out ts \<and>
    tasks w' = tasks w \<and> runnable w' = runnable w"
proof -
  obtain h where h: "dlist_init (nodes w) out = Some h" "dlist h out []" "frame (nodes w) h {out}"
    using dlist_init_ok [OF out(3,2)] by blast
  have d: "dlist h (waiters q) ts" using frame_dlist [OF h(3)] q out(1) by (auto simp: waits_def)
  show ?thesis
  proof (cases ts)
    case Nil
    then show ?thesis using q h d dlist_empty_ok [OF d] out(2) by (simp add: waitqueue_detach_all_locked_def waits_def)
  next
    case (Cons x xs)
    note e = dlist_empty_ok [OF d] dlist_ends(1) [OF d]
    show ?thesis
      using detach_stores [OF d [unfolded Cons] out(1) [unfolded Cons] h(2)] q h(1) e out(2) Cons
      by (auto simp: waitqueue_detach_all_locked_def waits_def simp del: last.simps)
  qed
qed

lemma pop_ok:
  assumes d: "dlist (nodes w) l (t # ts)"
  shows "\<exists>w'. waitqueue_detached_list_pop w l = Some (w', t) \<and> dlist (nodes w') l ts \<and> unlinked (nodes w') t \<and>
    tasks w' = (tasks w)(t := (tasks w t)\<lparr>blocked_on_sem := 0, blocked_kind := TASK_BLOCK_NONE\<rparr>) \<and> runnable w' = runnable w"
proof -
  obtain h where h: "dlist_del (nodes w) t = Some h" "dlist h l ts" "unlinked h t"
    using dlist_del_ok [of "nodes w" l "[]" t ts] d by auto
  then show ?thesis
    using dlist_empty_ok [OF d] dlist_ends(1) [OF d] d
    by (auto simp: waitqueue_detached_list_pop_def reset_unlinked dlist_def)
qed

lemma wake_detached_ok:
  "dlist (nodes w) l ts \<Longrightarrow> \<forall>t \<in> set ts. task_state (tasks w t) = TASK_WAITING \<Longrightarrow>
   \<exists>w'. waitqueue_wake_detached_list w l = Some w' \<and> dlist (nodes w') l [] \<and> runnable w' = runnable w @ ts"
proof (induction ts arbitrary: w)
  case Nil
  then have "l \<noteq> 0" by (simp add: dlist_def)
  then show ?case
    using dlist_empty_ok [OF Nil(1)] Nil(1)
    by (simp add: waitqueue_wake_detached_list.simps waitqueue_detached_list_pop_def)
next
  case (Cons t ts)
  have t: "t \<noteq> 0" "t \<notin> set ts" "l \<noteq> 0" using Cons.prems(1) by (auto simp: dlist_def)
  obtain w1 where w1: "waitqueue_detached_list_pop w l = Some (w1, t)" "dlist (nodes w1) l ts"
      "tasks w1 = (tasks w)(t := (tasks w t)\<lparr>blocked_on_sem := 0, blocked_kind := TASK_BLOCK_NONE\<rparr>)" "runnable w1 = runnable w"
    using pop_ok [OF Cons.prems(1)] by blast
  let ?w = "proc_wake w1 t"
  have wk: "?w = (upd_task t (task_state_update (\<lambda>_. TASK_RUNNABLE)) w1)\<lparr>runnable := runnable w1 @ [t]\<rparr>"
    using Cons.prems(2) w1(3) t(1) by (intro proc_wake_waiting) auto
  have "dlist (nodes ?w) l ts" "\<forall>u \<in> set ts. task_state (tasks ?w u) = TASK_WAITING"
    using w1 Cons.prems(2) t(2) by (auto simp: wk)
  then obtain w' where "waitqueue_wake_detached_list ?w l = Some w'" "dlist (nodes w') l []" "runnable w' = runnable ?w @ ts"
    using Cons.IH by blast
  then show ?case using w1(1,4) t wk by (subst waitqueue_wake_detached_list.simps) simp
qed


text \<open>
  A detached list is emptied without the lock of the queue. A waiter whose timeout expires in the meantime cancels its
  wait with the lock held, which unlinks it from the detached list: when that happens after the pop has read
  the first task, its \<open>dlist_del\<close> writes through a null pointer.
\<close>

lemma pop_races_cancel:
  assumes d: "dlist h l (t # ts)" and null: "h 0 = None"
  shows "get_next h l = Some t" "\<exists>h'. dlist_unlink_consistent h t = Some (h', True) \<and> dlist_del h' t = None"
proof -
  show "get_next h l = Some t" using dlist_ends(1) [OF d] by simp
  obtain h' where h': "dlist_unlink_consistent h t = Some (h', True)" "unlinked h' t" "frame h h' (set (l # t # ts))"
    using dlist_unlink_consistent_ok [of h l "[]" t ts] d by auto
  have "get_next h' 0 = get_next h 0" using h'(3) d by (auto simp: frame_def dlist_def)
  then have "h' 0 = None" using null by (simp add: get_next_def)
  then have "dlist_del h' t = None" using h'(2) by (simp add: dlist_del_def dlist_del_between_def unlinked_def set_prev_def)
  with h'(1) show "\<exists>h'. dlist_unlink_consistent h t = Some (h', True) \<and> dlist_del h' t = None" by blast
qed

section \<open>The contract of a queue of waiters\<close>

text \<open>
  What a lock relies on: tasks can be added and are handed out again in the order they came. The laws are
  stated for a representation \<open>rep\<close> of the queue as a list of tasks.
\<close>

fun deq_all :: "('w \<Rightarrow> ('w \<times> u32) option) \<Rightarrow> nat \<Rightarrow> 'w \<Rightarrow> ('w \<times> u32 list) option" where
  "deq_all deq 0 w = Some (w, [])"
| "deq_all deq (Suc n) w = do { (w, t) \<leftarrow> deq w; (w, ts) \<leftarrow> deq_all deq n w; Some (w, t # ts) }"

locale waiter_queue =
  fixes rep :: "'w \<Rightarrow> u32 list \<Rightarrow> bool"
    and ready :: "'w \<Rightarrow> u32 \<Rightarrow> bool"
    and enq :: "'w \<Rightarrow> u32 \<Rightarrow> 'w option"
    and deq :: "'w \<Rightarrow> ('w \<times> u32) option"
  assumes enq_law: "rep w ts \<Longrightarrow> ready w t \<Longrightarrow>
      \<exists>w'. enq w t = Some w' \<and> rep w' (ts @ [t]) \<and> (\<forall>u. u \<noteq> t \<and> ready w u \<longrightarrow> ready w' u)"
    and deq_law: "rep w (t # ts) \<Longrightarrow> \<exists>w'. deq w = Some (w', t) \<and> rep w' ts"
    and deq_empty: "rep w [] \<Longrightarrow> deq w = Some (w, 0)"
begin

lemma enq_all:
  "rep w ts \<Longrightarrow> \<forall>t \<in> set us. ready w t \<Longrightarrow> distinct us \<Longrightarrow>
   \<exists>w'. foldl (\<lambda>a t. a \<bind> (\<lambda>w. enq w t)) (Some w) us = Some w' \<and> rep w' (ts @ us)"
proof (induction us arbitrary: w ts)
  case (Cons u us)
  then obtain w1 where w1: "enq w u = Some w1" "rep w1 (ts @ [u])" "\<forall>v. v \<noteq> u \<and> ready w v \<longrightarrow> ready w1 v"
    using enq_law [of w ts u] by auto
  then have "\<forall>t \<in> set us. ready w1 t" using Cons.prems(2,3) by auto
  with Cons.IH [OF w1(2)] Cons.prems(3) obtain w' where
    "foldl (\<lambda>a t. a \<bind> (\<lambda>w. enq w t)) (Some w1) us = Some w'" "rep w' ((ts @ [u]) @ us)" by auto
  then show ?case using w1(1) by auto
qed auto

lemma deq_all_fifo: "rep w (ts @ us) \<Longrightarrow> \<exists>w'. deq_all deq (length ts) w = Some (w', ts) \<and> rep w' us"
proof (induction ts arbitrary: w)
  case (Cons t ts)
  then show ?case using deq_law [of w t "ts @ us"] by fastforce
qed simp

end

definition wq_enq :: "waitqueue \<Rightarrow> world \<Rightarrow> u32 \<Rightarrow> world option" where
  "wq_enq q w t = do {
     r \<leftarrow> waitqueue_wait_prepare_locked w (Some q) t;
     case r of Inl _ \<Rightarrow> None | Inr (w, _) \<Rightarrow> Some w
   }"

interpretation wqi: waiter_queue
  "\<lambda>w. waits w q" "\<lambda>w. idle w q" "wq_enq q" "\<lambda>w. waitqueue_dequeue_locked w (Some q)" for q
proof
  fix w ts t
  assume "waits w q ts" and t: "idle w q t"
  then obtain w' where w': "waitqueue_wait_prepare_locked w (Some q) t = Some (Inr (w', 0))" "waits w' q (ts @ [t])"
      "\<forall>u. u \<noteq> t \<longrightarrow> tasks w' u = tasks w u" "frame (nodes w) (nodes w') (set (t # waiters q # ts))"
    using prepare_ok by blast
  have "idle w' q u" if "u \<noteq> t" "idle w q u" for u
  proof -
    have "u \<notin> set (t # waiters q # ts)"
      using that unlinked_notin [of "nodes w" "waiters q" ts u] \<open>waits w q ts\<close> by (auto simp: idle_def waits_def)
    then show ?thesis using that w'(3) frame_unlinked [OF w'(4)] by (auto simp: idle_def)
  qed
  with w' show "\<exists>w'. wq_enq q w t = Some w' \<and> waits w' q (ts @ [t]) \<and> (\<forall>u. u \<noteq> t \<and> idle w q u \<longrightarrow> idle w' q u)"
    by (auto simp: wq_enq_def)
qed (use dequeue_ok dequeue_empty in blast)+

section \<open>Properties\<close>

text \<open>
  C27: tasks that go to sleep on a queue one after the other, in any number, are dequeued in exactly that order. A task
  that cancels its wait, wherever it stands in the queue, is taken out with its wait state reset, and the others are still
  dequeued in the order they came.
\<close>

theorem waitqueue_fifo:
  assumes "waits w q []" "\<forall>t \<in> set ts. idle w q t" "distinct ts"
  shows "\<exists>w1 w2. foldl (\<lambda>a t. a \<bind> (\<lambda>w. wq_enq q w t)) (Some w) ts = Some w1 \<and> waits w1 q ts \<and>
    deq_all (\<lambda>w. waitqueue_dequeue_locked w (Some q)) (length ts) w1 = Some (w2, ts) \<and> waits w2 q [] \<and>
    (\<forall>us t vs. ts = us @ t # vs \<longrightarrow> (\<exists>w3 w4. waitqueue_wait_cancel_locked w1 (Some q) t = Some w3 \<and>
       waits w3 q (us @ vs) \<and> unlinked (nodes w3) t \<and> blocked_on_sem (tasks w3 t) = 0 \<and>
       deq_all (\<lambda>w. waitqueue_dequeue_locked w (Some q)) (length (us @ vs)) w3 = Some (w4, us @ vs) \<and> waits w4 q []))"
proof -
  obtain w1 where w1: "foldl (\<lambda>a t. a \<bind> (\<lambda>w. wq_enq q w t)) (Some w) ts = Some w1" "waits w1 q ts"
    using wqi.enq_all [OF assms] by auto
  have drain: "\<exists>w'. deq_all (\<lambda>w. waitqueue_dequeue_locked w (Some q)) (length xs) v = Some (w', xs) \<and> waits w' q []"
    if "waits v q xs" for v xs using wqi.deq_all_fifo [of v q xs "[]"] that by simp
  then have "\<exists>w3 w4. waitqueue_wait_cancel_locked w1 (Some q) t = Some w3 \<and>
       waits w3 q (us @ vs) \<and> unlinked (nodes w3) t \<and> blocked_on_sem (tasks w3 t) = 0 \<and>
       deq_all (\<lambda>w. waitqueue_dequeue_locked w (Some q)) (length (us @ vs)) w3 = Some (w4, us @ vs) \<and> waits w4 q []"
    if "ts = us @ t # vs" for us t vs using cancel_ok w1(2) that by blast
  then show ?thesis using w1 drain [OF w1(2)] by blast
qed

definition wit_queue :: waitqueue where
  "wit_queue = \<lparr>waiters = 0x10, blocked_on = 0x8, kind = TASK_BLOCK_SEM\<rparr>"

definition wit_world :: world where
  "wit_world = \<lparr>nodes = [0x10 \<mapsto> \<lparr>dl_next = 0x10, dl_prev = 0x10\<rparr>, 0x20 \<mapsto> \<lparr>dl_next = 0, dl_prev = 0\<rparr>,
       0x30 \<mapsto> \<lparr>dl_next = 0, dl_prev = 0\<rparr>, 0x40 \<mapsto> \<lparr>dl_next = 0, dl_prev = 0\<rparr>],
     tasks = (\<lambda>_. \<lparr>blocked_on_sem = 0, blocked_kind = TASK_BLOCK_NONE, task_state = TASK_RUNNING\<rparr>), runnable = []\<rparr>"

theorem waitqueue_fifo_witness:
  "\<exists>w1 w2 w3 w4. foldl (\<lambda>a t. a \<bind> (\<lambda>w. wq_enq wit_queue w t)) (Some wit_world) [0x30, 0x20, 0x40] = Some w1 \<and>
    deq_all (\<lambda>w. waitqueue_dequeue_locked w (Some wit_queue)) 3 w1 = Some (w2, [0x30, 0x20, 0x40]) \<and>
    waitqueue_wait_cancel_locked w1 (Some wit_queue) 0x20 = Some w3 \<and>
    deq_all (\<lambda>w. waitqueue_dequeue_locked w (Some wit_queue)) 2 w3 = Some (w4, [0x30, 0x40]) \<and> waits w4 wit_queue []"
proof -
  have "waits wit_world wit_queue []" "\<forall>t \<in> set [0x30, 0x20, 0x40]. idle wit_world wit_queue t" "distinct [0x30, 0x20, 0x40 :: u32]"
    by (simp_all add: waits_def idle_def unlinked_def dlist_def linked_def get_next_def get_prev_def wit_queue_def wit_world_def)
  note fifo = waitqueue_fifo [OF this]
  have "[0x30, 0x20, 0x40] = [0x30] @ 0x20 # [0x40 :: u32]" "length [0x30, 0x20, 0x40 :: u32] = 3"
    "length ([0x30] @ [0x40 :: u32]) = 2" "[0x30] @ [0x40] = [0x30, 0x40 :: u32]" by simp_all
  then show ?thesis using fifo by metis
qed

text \<open>
  C28: waking all waiters returns their number, empties the queue, and makes the waiting tasks runnable in the order
  they came, with their wait state reset; no other task changes.
\<close>

theorem waitqueue_wake_all:
  assumes "waits w q ts" "\<forall>t \<in> set ts. task_state (tasks w t) = TASK_WAITING"
  shows "\<exists>w'. waitqueue_wake_all_locked w (Some q) = Some (w', word_of_nat (length ts)) \<and> waits w' q [] \<and>
    runnable w' = runnable w @ ts \<and>
    (\<forall>t \<in> set ts. task_state (tasks w' t) = TASK_RUNNABLE \<and> blocked_on_sem (tasks w' t) = 0) \<and>
    (\<forall>u. u \<notin> set ts \<longrightarrow> tasks w' u = tasks w u)"
  using wake_all_loop_ok [OF assms, of 0] by (simp add: waitqueue_wake_all_locked_def)

definition wit_sleep :: world where
  "wit_sleep = \<lparr>nodes = [0x10 \<mapsto> \<lparr>dl_next = 0x20, dl_prev = 0x20\<rparr>, 0x20 \<mapsto> \<lparr>dl_next = 0x10, dl_prev = 0x10\<rparr>],
     tasks = (\<lambda>_. \<lparr>blocked_on_sem = 0x8, blocked_kind = TASK_BLOCK_SEM, task_state = TASK_WAITING\<rparr>), runnable = []\<rparr>"

theorem waitqueue_wake_all_witness:
  "\<exists>w'. waitqueue_wake_all_locked wit_sleep (Some wit_queue) = Some (w', word_of_nat (length [0x20 :: u32])) \<and>
    waits w' wit_queue [] \<and> runnable w' = runnable wit_sleep @ [0x20] \<and>
    (\<forall>t \<in> set [0x20]. task_state (tasks w' t) = TASK_RUNNABLE \<and> blocked_on_sem (tasks w' t) = 0) \<and>
    (\<forall>u. u \<notin> set [0x20] \<longrightarrow> tasks w' u = tasks wit_sleep u)"
  by (rule waitqueue_wake_all)
    (simp_all add: waits_def dlist_def linked_def get_next_def get_prev_def wit_queue_def wit_sleep_def)

end
