(* ===== verification/Steps.thy ===== *)
theory Steps
  imports Prelude
begin

text \<open>
  Transition systems for code that several tasks run at once. A task is the address of its descriptor; each step of
  a system is one atomic access to the shared state by one task, with a program counter per task that says where
  it is. The scheduler chooses which task makes the next step.
\<close>

section \<open>Tasks\<close>

text \<open>
  Task descriptors are aligned to a cache line of 64 bytes (\<open>task_t\<close> in \<open>src/src/kernel/proc.h\<close>), so that the lowest
  bits of their addresses are zero and there are fewer than \<open>2 ^ 26\<close> of them.
\<close>

definition is_task :: "u32 \<Rightarrow> bool" where
  "is_task t \<longleftrightarrow> t \<noteq> 0 \<and> t AND 63 = 0"

lemma is_task_mod: "is_task t \<longleftrightarrow> t \<noteq> 0 \<and> unat t mod 64 = 0"
proof -
  have "unat (t AND 63) = unat t mod 64" using unat_and_mask [of t 6] by (simp add: mask_eq_exp_minus_1)
  then show ?thesis unfolding is_task_def by (metis unat_eq_zero)
qed

lemma is_task_even: "is_task t \<Longrightarrow> t AND 1 = 0"
proof -
  assume "is_task t"
  then have "(t AND 63) AND 1 = 0" unfolding is_task_def by (metis and_zero_eq zero_and_eq)
  then show ?thesis unfolding and.assoc by simp
qed

lemma card_tasks: "card {t. is_task t} < 2 ^ 26"
proof -
  have "(\<lambda>t. unat t div 64) ` {t. is_task t} \<subseteq> {1..<2 ^ 26}"
  proof (rule image_subsetI)
    fix t :: u32
    assume "t \<in> {t. is_task t}"
    then have "0 < unat t" "64 * (unat t div 64) = unat t"
      using mult_div_mod_eq [of 64 "unat t"] by (simp_all add: is_task_mod unat_gt_0)
    moreover have "unat t < 2 ^ LENGTH(32)" by (rule unsigned_less)
    ultimately show "unat t div 64 \<in> {1..<2 ^ 26}" by simp
  qed
  moreover have "inj_on (\<lambda>t :: u32. unat t div 64) {t. is_task t}"
    by (rule inj_onI, rule word_unat_eq_iff [THEN iffD2]) (simp add: is_task_mod, metis div_mod_decomp)
  ultimately have "card {t. is_task t} \<le> card {1..<2 ^ 26 :: nat}" by (blast intro: card_inj_on_le)
  then show ?thesis by simp
qed

text \<open>The number of tasks at certain places.\<close>

definition census :: "(u32 \<Rightarrow> 'p \<Rightarrow> bool) \<Rightarrow> (u32 \<Rightarrow> 'p) \<Rightarrow> nat" where
  "census P f = card {t. P t (f t)}"

lemma census_same: "P t p = P t (f t) \<Longrightarrow> census P (f(t := p)) = census P f"
  unfolding census_def by (rule arg_cong [where f = card]) auto

lemma census_in: "\<not> P t (f t) \<Longrightarrow> P t p \<Longrightarrow> census P (f(t := p)) = Suc (census P f)"
proof -
  assume "\<not> P t (f t)" "P t p"
  then have "{u. P u ((f(t := p)) u)} = insert t {u. P u (f u)}" by auto
  then show ?thesis using \<open>\<not> P t (f t)\<close> by (simp add: census_def)
qed

lemma census_out: "P t (f t) \<Longrightarrow> \<not> P t p \<Longrightarrow> census P f = Suc (census P (f(t := p)))"
  using census_in [of P t "f(t := p)" "f t"] by simp

lemma census_0: "census P f = 0 \<longleftrightarrow> (\<forall>t. \<not> P t (f t))"
  by (simp add: census_def)

lemma census_tasks: "(\<And>t. P t (f t) \<Longrightarrow> is_task t) \<Longrightarrow> census P f < 2 ^ 26"
  unfolding census_def by (rule le_less_trans [OF card_mono card_tasks]) auto

section \<open>Spin locks\<close>

text \<open>
  A spin lock is the task that holds it, if any. The tasks at the places where the code holds the lock are exactly its holder.
\<close>

definition lock_inv :: "('p \<Rightarrow> bool) \<Rightarrow> u32 ptr \<Rightarrow> (u32 \<Rightarrow> 'p) \<Rightarrow> bool" where
  "lock_inv P l f \<longleftrightarrow> (\<forall>t. P (f t) \<longleftrightarrow> l = Some t)"

lemma lock_inv_rules:
  "lock_inv P l f \<Longrightarrow> P (f t) = P p \<Longrightarrow> lock_inv P l (f(t := p))"
  "lock_inv P None f \<Longrightarrow> P p \<Longrightarrow> lock_inv P (Some t) (f(t := p))"
  "lock_inv P l f \<Longrightarrow> P (f t) \<Longrightarrow> \<not> P p \<Longrightarrow> lock_inv P None (f(t := p))"
  by (auto simp: lock_inv_def)

lemma lock_inv_unique: "lock_inv P l f \<Longrightarrow> P (f t) \<Longrightarrow> P (f u) \<Longrightarrow> t = u"
  by (simp add: lock_inv_def)

section \<open>Wait queues\<close>

text \<open>
  A wait queue is the list of its tasks, which the theory \<open>Waitqueue\<close> shows its operations to implement; the tasks in it are
  at the places where the code has put them to sleep and not yet cancelled the wait.
\<close>

definition queue_inv :: "('p \<Rightarrow> bool) \<Rightarrow> u32 list \<Rightarrow> (u32 \<Rightarrow> 'p) \<Rightarrow> bool" where
  "queue_inv P q f \<longleftrightarrow> distinct q \<and> (\<forall>t \<in> set q. P (f t))"

lemma queue_inv_not_in: "queue_inv P q f \<Longrightarrow> \<not> P (f t) \<Longrightarrow> t \<notin> set q"
  by (auto simp: queue_inv_def)

lemma queue_inv_keep: "queue_inv P q f \<Longrightarrow> P (f t) \<longrightarrow> P p \<Longrightarrow> queue_inv P q (f(t := p))"
  by (auto simp: queue_inv_def)

lemma queue_inv_enqueue: "queue_inv P q f \<Longrightarrow> t \<notin> set q \<Longrightarrow> P p \<Longrightarrow> queue_inv P (q @ [t]) (f(t := p))"
  by (auto simp: queue_inv_def)

lemma queue_inv_cancel: "queue_inv P q f \<Longrightarrow> queue_inv P (filter (\<lambda>u. u \<noteq> t) q) (f(t := p))"
  by (auto simp: queue_inv_def)

lemma queue_inv_dequeue: "queue_inv P (u # q) f \<Longrightarrow> \<not> P (f t) \<Longrightarrow> queue_inv P q (f(t := p))"
  by (auto simp: queue_inv_def)

lemma queue_inv_empty: "queue_inv P [] f"
  by (simp add: queue_inv_def)

lemma queue_inv_outside: "queue_inv P q f \<Longrightarrow> t \<notin> set q \<Longrightarrow> queue_inv P q (f(t := p))"
  by (auto simp: queue_inv_def)

lemmas queue_inv_rules = queue_inv_keep queue_inv_outside queue_inv_enqueue queue_inv_cancel queue_inv_dequeue queue_inv_empty

section \<open>Invariants\<close>

text \<open>The interface of a system with an inductive invariant.\<close>

locale inductive_invariant =
  fixes step :: "'s \<Rightarrow> 's \<Rightarrow> bool"
    and inv :: "'s \<Rightarrow> bool"
  assumes step_inv: "inv s \<Longrightarrow> step s s' \<Longrightarrow> inv s'"
begin

lemma reach_inv: "step\<^sup>*\<^sup>* s s' \<Longrightarrow> inv s \<Longrightarrow> inv s'"
  by (induction rule: rtranclp_induct) (auto intro: step_inv)

end

text \<open>A lock: in the states of the invariant at most one task holds it exclusively.\<close>

locale exclusive_lock = inductive_invariant step inv
  for step :: "'s \<Rightarrow> 's \<Rightarrow> bool" and inv :: "'s \<Rightarrow> bool" +
  fixes holder :: "'s \<Rightarrow> 't \<Rightarrow> bool"
  assumes one_holder: "inv s \<Longrightarrow> holder s t \<Longrightarrow> holder s u \<Longrightarrow> t = u"
begin

lemma mutual_exclusion: "inv s \<Longrightarrow> step\<^sup>*\<^sup>* s s' \<Longrightarrow> holder s' t \<Longrightarrow> holder s' u \<Longrightarrow> t = u"
  using reach_inv one_holder by blast

end

text \<open>A lock with shared holders, who exclude the exclusive one.\<close>

locale shared_lock = exclusive_lock step inv holder
  for step :: "'s \<Rightarrow> 's \<Rightarrow> bool" and inv :: "'s \<Rightarrow> bool" and holder :: "'s \<Rightarrow> 't \<Rightarrow> bool" +
  fixes reader :: "'s \<Rightarrow> 't \<Rightarrow> bool"
  assumes no_reader: "inv s \<Longrightarrow> holder s t \<Longrightarrow> \<not> reader s u"
begin

lemma readers_writer_exclusion:
  "inv s \<Longrightarrow> step\<^sup>*\<^sup>* s s' \<Longrightarrow> holder s' t \<Longrightarrow> \<not> reader s' u \<and> (holder s' u \<longrightarrow> u = t)"
  using reach_inv one_holder no_reader by blast

end

end
