(* ===== verification/Mutex.thy ===== *)
theory Mutex
  imports Steps
begin

text \<open>
  \<open>src/src/kernel/locking/mutex.c\<close> as a transition system: every atomic access of \<open>mutex_lock\<close>, \<open>mutex_unlock\<close> and
  \<open>mutex_try_lock\<close> is a step. The word \<open>owner\<close> is the address of the owning task, whose lowest bit is the flag
  for waiters. The wait queue is the list of its tasks, which the theory \<open>Waitqueue\<close> justifies; the spin lock
  around it is the task that holds it. A task that has put itself to sleep is in the set \<open>asleep\<close> (its state is
  \<open>TASK_WAITING\<close>), and \<open>sched_yield\<close> returns only after it has left that set: through \<open>waitqueue_wake_task\<close>, or because
  some other part of the kernel makes it run again, which may happen at any time.
\<close>

section \<open>State\<close>

text \<open>The places in the code between two accesses to the shared state, with the local variables that are live there.\<close>

datatype mutex_pc =
    Idle
  | Try_lock
  | Lock_fast
  | Spin
  | Spin_cas
  | Slow_lock
  | Slow_load
  | Cas_free u32
  | Cas_flag u32
  | Enqueue
  | Slow_unlock
  | Yield
  | Relock
  | Cancel
  | Acquired
  | Held
  | Unlock_fast
  | Unlock_check
  | Unlock_lock
  | Unlock_store
  | Unlock_dequeue
  | Unlock_release "u32 ptr"
  | Unlock_wake u32
  | Panic

record mutex =
  owner :: u32
  wait_lock :: "u32 ptr"
  waitq :: "u32 list"
  asleep :: "u32 set"
  pc :: "u32 \<Rightarrow> mutex_pc"

abbreviation MUTEX_FLAG_WAITERS :: u32 where
  "MUTEX_FLAG_WAITERS \<equiv> 1"

definition mutex_init :: mutex where
  "mutex_init = \<lparr>owner = 0, wait_lock = None, waitq = [], asleep = {}, pc = (\<lambda>_. Idle)\<rparr>"

abbreviation mutex_goto :: "u32 \<Rightarrow> mutex_pc \<Rightarrow> mutex \<Rightarrow> mutex" where
  "mutex_goto t p m \<equiv> m\<lparr>pc := (pc m)(t := p)\<rparr>"

text \<open>
  The acquisition of the lock of the queue is a step that is possible when nobody holds it.
\<close>

section \<open>The code\<close>

text \<open>
  \<open>mutex_spin_on_owner\<close>: at most 1024 pauses, doubled up to 64. Each round observes the owner word and whether the owning
  task runs; the result is whether the lock was seen free. The observations are those of one call.
\<close>

fun mutex_spin_on_owner :: "(u32 \<times> bool) list \<Rightarrow> nat \<Rightarrow> nat \<Rightarrow> bool option" where
  "mutex_spin_on_owner obs i backoff =
     (if i \<ge> 1024 then Some False
      else case obs of
        [] \<Rightarrow> None
      | (owner_val, running) # obs' \<Rightarrow>
          if owner_val = 0 then Some True
          else if owner_val AND NOT MUTEX_FLAG_WAITERS \<noteq> 0 \<and> \<not> running then Some False
          else let backoff' = (if backoff < 64 then backoff * 2 else backoff)
               in mutex_spin_on_owner obs' (i + backoff') backoff')"

text \<open>The fast path of \<open>mutex_lock\<close>, and \<open>mutex_try_lock\<close>: one compare and exchange.\<close>

inductive mutex_lock_step :: "u32 \<Rightarrow> mutex \<Rightarrow> mutex \<Rightarrow> bool" where
  lock_acquired: "pc m t = Lock_fast \<Longrightarrow> owner m = 0 \<Longrightarrow> mutex_lock_step t m (mutex_goto t Held (m\<lparr>owner := t\<rparr>))"
| lock_busy: "pc m t = Lock_fast \<Longrightarrow> owner m \<noteq> 0 \<Longrightarrow> mutex_lock_step t m (mutex_goto t Spin m)"

inductive mutex_try_lock_step :: "u32 \<Rightarrow> mutex \<Rightarrow> mutex \<Rightarrow> bool" where
  try_acquired: "pc m t = Try_lock \<Longrightarrow> owner m = 0 \<Longrightarrow> mutex_try_lock_step t m (mutex_goto t Held (m\<lparr>owner := t\<rparr>))"
| try_busy: "pc m t = Try_lock \<Longrightarrow> owner m \<noteq> 0 \<Longrightarrow> mutex_try_lock_step t m (mutex_goto t Idle m)"

text \<open>
  \<open>mutex_lock_slowpath\<close>. Spinning ends with the lock seen free, which it then is at that moment, or without. A task that
  is dying cannot be enqueued and goes on without.
\<close>

inductive mutex_lock_slowpath_step :: "u32 \<Rightarrow> mutex \<Rightarrow> mutex \<Rightarrow> bool" where
  spin_free: "pc m t = Spin \<Longrightarrow> owner m = 0 \<Longrightarrow> mutex_lock_slowpath_step t m (mutex_goto t Spin_cas m)"
| spin_end: "pc m t = Spin \<Longrightarrow> mutex_lock_slowpath_step t m (mutex_goto t Slow_lock m)"
| spin_acquired: "pc m t = Spin_cas \<Longrightarrow> owner m = 0 \<Longrightarrow>
    mutex_lock_slowpath_step t m (mutex_goto t Held (m\<lparr>owner := t\<rparr>))"
| spin_lost: "pc m t = Spin_cas \<Longrightarrow> owner m \<noteq> 0 \<Longrightarrow> mutex_lock_slowpath_step t m (mutex_goto t Slow_lock m)"
| slow_lock: "pc m t = Slow_lock \<Longrightarrow> wait_lock m = None \<Longrightarrow>
    mutex_lock_slowpath_step t m (mutex_goto t Slow_load (m\<lparr>wait_lock := Some t\<rparr>))"
| load_free: "pc m t = Slow_load \<Longrightarrow> owner m = 0 \<Longrightarrow>
    new_owner = (if waitq m \<noteq> [] then t OR MUTEX_FLAG_WAITERS else t) \<Longrightarrow>
    mutex_lock_slowpath_step t m (mutex_goto t (Cas_free new_owner) m)"
| load_unflagged: "pc m t = Slow_load \<Longrightarrow> owner m \<noteq> 0 \<Longrightarrow> owner m AND MUTEX_FLAG_WAITERS = 0 \<Longrightarrow>
    mutex_lock_slowpath_step t m (mutex_goto t (Cas_flag (owner m)) m)"
| load_flagged: "pc m t = Slow_load \<Longrightarrow> owner m \<noteq> 0 \<Longrightarrow> owner m AND MUTEX_FLAG_WAITERS \<noteq> 0 \<Longrightarrow>
    mutex_lock_slowpath_step t m (mutex_goto t Enqueue m)"
| free_acquired: "pc m t = Cas_free new_owner \<Longrightarrow> owner m = 0 \<Longrightarrow>
    mutex_lock_slowpath_step t m (mutex_goto t Acquired (m\<lparr>owner := new_owner\<rparr>))"
| free_lost: "pc m t = Cas_free new_owner \<Longrightarrow> owner m \<noteq> 0 \<Longrightarrow>
    mutex_lock_slowpath_step t m (mutex_goto t Slow_load m)"
| flag_set: "pc m t = Cas_flag old \<Longrightarrow> owner m = old \<Longrightarrow>
    mutex_lock_slowpath_step t m (mutex_goto t Enqueue (m\<lparr>owner := old OR MUTEX_FLAG_WAITERS\<rparr>))"
| flag_lost: "pc m t = Cas_flag old \<Longrightarrow> owner m \<noteq> old \<Longrightarrow>
    mutex_lock_slowpath_step t m (mutex_goto t Slow_load m)"
| enqueue_linked: "pc m t = Enqueue \<Longrightarrow> t \<in> set (waitq m) \<Longrightarrow>
    mutex_lock_slowpath_step t m (mutex_goto t Panic m)"
| enqueue: "pc m t = Enqueue \<Longrightarrow> t \<notin> set (waitq m) \<Longrightarrow>
    mutex_lock_slowpath_step t m (mutex_goto t Slow_unlock (m\<lparr>waitq := waitq m @ [t], asleep := insert t (asleep m)\<rparr>))"
| enqueue_refused: "pc m t = Enqueue \<Longrightarrow> t \<notin> set (waitq m) \<Longrightarrow>
    mutex_lock_slowpath_step t m (mutex_goto t Slow_unlock m)"
| slow_unlock: "pc m t = Slow_unlock \<Longrightarrow>
    mutex_lock_slowpath_step t m (mutex_goto t Yield (m\<lparr>wait_lock := None\<rparr>))"
| yield_returns: "pc m t = Yield \<Longrightarrow> t \<notin> asleep m \<Longrightarrow> mutex_lock_slowpath_step t m (mutex_goto t Relock m)"
| relock: "pc m t = Relock \<Longrightarrow> wait_lock m = None \<Longrightarrow>
    mutex_lock_slowpath_step t m (mutex_goto t Cancel (m\<lparr>wait_lock := Some t\<rparr>))"
| cancel: "pc m t = Cancel \<Longrightarrow>
    mutex_lock_slowpath_step t m (mutex_goto t Slow_load (m\<lparr>waitq := filter (\<lambda>u. u \<noteq> t) (waitq m)\<rparr>))"
| slow_done: "pc m t = Acquired \<Longrightarrow>
    mutex_lock_slowpath_step t m (mutex_goto t Held (m\<lparr>wait_lock := None\<rparr>))"

text \<open>
  \<open>mutex_unlock\<close> and \<open>mutex_unlock_slowpath\<close>. The wake-up ends the sleep of the task, unless it is in the queue (again):
  \<open>proc_wake\<close> does nothing for a task whose \<open>blocked_on_sem\<close> is set.
\<close>

inductive mutex_unlock_step :: "u32 \<Rightarrow> mutex \<Rightarrow> mutex \<Rightarrow> bool" where
  unlock_released: "pc m t = Unlock_fast \<Longrightarrow> owner m = t \<Longrightarrow> mutex_unlock_step t m (mutex_goto t Idle (m\<lparr>owner := 0\<rparr>))"
| unlock_contended: "pc m t = Unlock_fast \<Longrightarrow> owner m \<noteq> t \<Longrightarrow> mutex_unlock_step t m (mutex_goto t Unlock_check m)"

inductive mutex_unlock_slowpath_step :: "u32 \<Rightarrow> mutex \<Rightarrow> mutex \<Rightarrow> bool" where
  unlock_foreign: "pc m t = Unlock_check \<Longrightarrow> owner m AND NOT MUTEX_FLAG_WAITERS \<noteq> t \<Longrightarrow>
    mutex_unlock_slowpath_step t m (mutex_goto t Panic m)"
| unlock_own: "pc m t = Unlock_check \<Longrightarrow> owner m AND NOT MUTEX_FLAG_WAITERS = t \<Longrightarrow>
    mutex_unlock_slowpath_step t m (mutex_goto t Unlock_lock m)"
| unlock_lock: "pc m t = Unlock_lock \<Longrightarrow> wait_lock m = None \<Longrightarrow>
    mutex_unlock_slowpath_step t m (mutex_goto t Unlock_store (m\<lparr>wait_lock := Some t\<rparr>))"
| unlock_store: "pc m t = Unlock_store \<Longrightarrow>
    mutex_unlock_slowpath_step t m (mutex_goto t Unlock_dequeue (m\<lparr>owner := 0\<rparr>))"
| unlock_none: "pc m t = Unlock_dequeue \<Longrightarrow> waitq m = [] \<Longrightarrow>
    mutex_unlock_slowpath_step t m (mutex_goto t (Unlock_release None) m)"
| unlock_dequeue: "pc m t = Unlock_dequeue \<Longrightarrow> waitq m = u # us \<Longrightarrow>
    mutex_unlock_slowpath_step t m (mutex_goto t (Unlock_release (Some u)) (m\<lparr>waitq := us\<rparr>))"
| unlock_release: "pc m t = Unlock_release u \<Longrightarrow>
    mutex_unlock_slowpath_step t m (mutex_goto t (case u of None \<Rightarrow> Idle | Some v \<Rightarrow> Unlock_wake v) (m\<lparr>wait_lock := None\<rparr>))"
| unlock_wake: "pc m t = Unlock_wake v \<Longrightarrow>
    mutex_unlock_slowpath_step t m
      (mutex_goto t Idle (m\<lparr>asleep := (if v \<in> set (waitq m) then asleep m else asleep m - {v})\<rparr>))"

text \<open>
  The system: a task that does not use the mutex may call \<open>mutex_lock\<close> or \<open>mutex_try_lock\<close>, a holder may call
  \<open>mutex_unlock\<close>, and a task inside a call goes on. Other parts of the kernel may end the sleep of any task.
\<close>

inductive mutex_step :: "mutex \<Rightarrow> mutex \<Rightarrow> bool" where
  call_lock: "is_task t \<Longrightarrow> pc m t = Idle \<Longrightarrow> mutex_step m (mutex_goto t Lock_fast m)"
| call_try: "is_task t \<Longrightarrow> pc m t = Idle \<Longrightarrow> mutex_step m (mutex_goto t Try_lock m)"
| call_unlock: "is_task t \<Longrightarrow> pc m t = Held \<Longrightarrow> mutex_step m (mutex_goto t Unlock_fast m)"
| in_lock: "is_task t \<Longrightarrow> mutex_lock_step t m m' \<Longrightarrow> mutex_step m m'"
| in_try: "is_task t \<Longrightarrow> mutex_try_lock_step t m m' \<Longrightarrow> mutex_step m m'"
| in_slowpath: "is_task t \<Longrightarrow> mutex_lock_slowpath_step t m m' \<Longrightarrow> mutex_step m m'"
| in_unlock: "is_task t \<Longrightarrow> mutex_unlock_step t m m' \<Longrightarrow> mutex_step m m'"
| in_unlock_slowpath: "is_task t \<Longrightarrow> mutex_unlock_slowpath_step t m m' \<Longrightarrow> mutex_step m m'"
| roused: "is_task t \<Longrightarrow> mutex_step m (m\<lparr>asleep := asleep m - {t}\<rparr>)"

section \<open>The owner word\<close>

abbreviation task_of :: "u32 \<Rightarrow> u32" where
  "task_of v \<equiv> v AND NOT 1"

abbreviation flagged :: "u32 \<Rightarrow> bool" where
  "flagged v \<equiv> v AND 1 \<noteq> 0"

lemma owner_word:
  assumes "t AND 1 = (0 :: u32)"
  shows "task_of t = t" "task_of (t OR 1) = t" "flagged (t OR 1)"
proof -
  have b: "\<not> bit t 0" using assms by (metis and.commute bit_1_0 bit_and_iff bit_0_eq bot_apply bot_bool_def)
  have "bit (task_of t) n = bit t n" "bit (task_of (t OR 1)) n = bit t n" if "n < 32" for n
    using b that by (cases n; simp add: bit_simps)+
  then show "task_of t = t" "task_of (t OR 1) = t" by (auto intro: bit_word_eqI)
  have "bit ((t OR 1) AND 1) 0" by (simp add: bit_simps)
  then show "flagged (t OR 1)" by (metis bit_0_eq bot_apply bot_bool_def)
qed

lemma task_of_0 [simp]: "task_of 0 = 0"
  by simp

lemma flagged_split: "v AND 1 = 0 \<Longrightarrow> task_of v = v" for v :: u32
  by (rule owner_word(1))

section \<open>The invariant\<close>

text \<open>The tasks that own the mutex, those that hold the lock of the queue, and those that may be in the queue.\<close>

fun mutex_owns :: "mutex_pc \<Rightarrow> bool" where
  "mutex_owns p = (p \<in> {Acquired, Held, Unlock_fast, Unlock_check, Unlock_lock, Unlock_store})"

fun mutex_locks :: "mutex_pc \<Rightarrow> bool" where
  "mutex_locks (Cas_free _) = True"
| "mutex_locks (Cas_flag _) = True"
| "mutex_locks (Unlock_release _) = True"
| "mutex_locks p = (p \<in> {Slow_load, Enqueue, Slow_unlock, Cancel, Acquired, Unlock_store, Unlock_dequeue})"

fun may_wait :: "mutex_pc \<Rightarrow> bool" where
  "may_wait p = (p \<in> {Slow_unlock, Yield, Relock, Cancel})"

text \<open>
  The owner word names the task in its critical section, the lock of the queue the task in its, and the tasks in the queue
  are those that wait or are about to.
\<close>

definition inv_owner :: "u32 \<Rightarrow> (u32 \<Rightarrow> mutex_pc) \<Rightarrow> bool" where
  "inv_owner v f \<longleftrightarrow> (\<forall>t. mutex_owns (f t) \<longleftrightarrow> task_of v = t \<and> t \<noteq> 0) \<and> (task_of v = 0 \<longrightarrow> v = 0)"

text \<open>What the local variables of a task say of the shared state.\<close>

fun mutex_local_ok :: "u32 \<Rightarrow> u32 list \<Rightarrow> u32 \<Rightarrow> mutex_pc \<Rightarrow> bool" where
  "mutex_local_ok v q t Panic = False"
| "mutex_local_ok v q t Idle = True"
| "mutex_local_ok v q t Enqueue = (is_task t \<and> flagged v)"
| "mutex_local_ok v q t (Cas_free w) = (is_task t \<and> w = (if q \<noteq> [] then t OR 1 else t))"
| "mutex_local_ok v q t (Cas_flag w) = (is_task t \<and> w \<noteq> 0 \<and> \<not> flagged w)"
| "mutex_local_ok v q t _ = is_task t"

definition mutex_inv_local :: "u32 \<Rightarrow> u32 list \<Rightarrow> (u32 \<Rightarrow> mutex_pc) \<Rightarrow> bool" where
  "mutex_inv_local v q f \<longleftrightarrow> (\<forall>t. mutex_local_ok v q t (f t))"

text \<open>
  The tasks that will look at the mutex again without being woken first: those in the slow path that are not in the queue,
  and an unlocking task that is about to take one off the queue.
\<close>

fun in_slow_path :: "mutex_pc \<Rightarrow> bool" where
  "in_slow_path (Cas_free _) = True"
| "in_slow_path (Cas_flag _) = True"
| "in_slow_path p = (p \<in> {Slow_lock, Slow_load, Enqueue, Slow_unlock, Yield, Relock, Cancel})"

definition mutex_active :: "u32 list \<Rightarrow> u32 \<Rightarrow> mutex_pc \<Rightarrow> bool" where
  "mutex_active q t p \<longleftrightarrow> (in_slow_path p \<and> t \<notin> set q) \<or> p = Unlock_dequeue"

definition mutex_inv_wake :: "u32 \<Rightarrow> u32 list \<Rightarrow> (u32 \<Rightarrow> mutex_pc) \<Rightarrow> bool" where
  "mutex_inv_wake v q f \<longleftrightarrow> q = [] \<or> flagged v \<or> (\<exists>t. mutex_active q t (f t))"

text \<open>A task sleeps only while it is in the queue or another one is on its way to wake it.\<close>

fun mutex_wakes :: "u32 \<Rightarrow> mutex_pc \<Rightarrow> bool" where
  "mutex_wakes t p = (p = Unlock_release (Some t) \<or> p = Unlock_wake t)"

definition mutex_inv_sleep :: "u32 list \<Rightarrow> u32 set \<Rightarrow> (u32 \<Rightarrow> mutex_pc) \<Rightarrow> bool" where
  "mutex_inv_sleep q a f \<longleftrightarrow>
     (\<forall>t \<in> a. (f t = Slow_unlock \<or> f t = Yield) \<and> (t \<in> set q \<or> (\<exists>u. mutex_wakes t (f u))))"

definition mutex_inv :: "mutex \<Rightarrow> bool" where
  "mutex_inv m \<longleftrightarrow> inv_owner (owner m) (pc m) \<and> lock_inv mutex_locks (wait_lock m) (pc m) \<and> queue_inv may_wait (waitq m) (pc m) \<and>
     mutex_inv_local (owner m) (waitq m) (pc m) \<and> mutex_inv_wake (owner m) (waitq m) (pc m) \<and>
     mutex_inv_sleep (waitq m) (asleep m) (pc m)"

section \<open>Preservation\<close>

lemmas mutex_step_elims = mutex_step.cases mutex_lock_step.cases mutex_try_lock_step.cases
  mutex_lock_slowpath_step.cases mutex_unlock_step.cases mutex_unlock_slowpath_step.cases

lemma queue_enqueue: "queue_inv may_wait q f \<Longrightarrow> f t = Enqueue \<Longrightarrow> t \<notin> set q"
  by (auto simp: queue_inv_def)

lemma owner_check: "inv_owner v f \<Longrightarrow> mutex_owns (f t) \<Longrightarrow> v AND - 2 = t"
  by (simp add: inv_owner_def del: mutex_owns.simps)

lemma local_cas_free: "mutex_inv_local v q f \<Longrightarrow> f t = Cas_free w \<Longrightarrow> w = (if q \<noteq> [] then t OR 1 else t)"
  by (metis mutex_inv_local_def mutex_local_ok.simps(4))

lemma local_cas_flag: "mutex_inv_local v q f \<Longrightarrow> f t = Cas_flag w \<Longrightarrow> w \<noteq> 0 \<and> w AND 1 = 0"
  by (metis mutex_inv_local_def mutex_local_ok.simps(5))

lemma mutex_inv_lock_step:
  "lock_inv mutex_locks (wait_lock m) (pc m) \<Longrightarrow> queue_inv may_wait (waitq m) (pc m) \<Longrightarrow> mutex_step m m' \<Longrightarrow>
    lock_inv mutex_locks (wait_lock m') (pc m')"
  by (elim mutex_step_elims; auto simp: lock_inv_rules dest: queue_enqueue split: option.splits)

lemma inv_owner_keep: "inv_owner v f \<Longrightarrow> mutex_owns (f t) = mutex_owns p \<Longrightarrow> inv_owner v (f(t := p))"
  by (simp add: inv_owner_def del: mutex_owns.simps)

lemma inv_owner_new:
  assumes "inv_owner 0 f" "is_task t" "mutex_owns p" "task_of v = t"
  shows "inv_owner v (f(t := p))"
  using assms by (auto simp: inv_owner_def is_task_def simp del: mutex_owns.simps)

lemma inv_owner_flag:
  assumes "inv_owner v f" "mutex_owns (f t) = mutex_owns p" "v \<noteq> 0" "v AND 1 = 0"
  shows "inv_owner (v OR 1) (f(t := p))"
  using assms owner_word [of v] by (simp add: inv_owner_def del: mutex_owns.simps)

lemma inv_owner_release: "inv_owner v f \<Longrightarrow> mutex_owns (f t) \<Longrightarrow> \<not> mutex_owns p \<Longrightarrow> inv_owner 0 (f(t := p))"
  by (simp add: inv_owner_def del: mutex_owns.simps)

lemmas inv_owner_rules = inv_owner_keep inv_owner_new inv_owner_flag inv_owner_release

lemma task_word: "is_task t \<Longrightarrow> t AND - 2 = t" "is_task t \<Longrightarrow> (t OR 1) AND - 2 = t"
  using owner_word [of t] is_task_even [of t] by simp_all

lemma inv_owner_step:
  "inv_owner (owner m) (pc m) \<Longrightarrow> mutex_inv_local (owner m) (waitq m) (pc m) \<Longrightarrow> mutex_step m m' \<Longrightarrow>
    inv_owner (owner m') (pc m')"
  by (elim mutex_step_elims; auto simp: inv_owner_rules task_word dest: local_cas_free local_cas_flag
      owner_check split: if_splits option.splits)

lemma mutex_inv_queue_step:
  "queue_inv may_wait (waitq m) (pc m) \<Longrightarrow> mutex_step m m' \<Longrightarrow> queue_inv may_wait (waitq m') (pc m')"
  by (elim mutex_step_elims; auto simp: queue_inv_rules split: option.splits)

lemma local_ok_cong:
  "mutex_local_ok v q t p \<Longrightarrow> (flagged v \<Longrightarrow> flagged v') \<Longrightarrow> mutex_local_ok v' q t p"
  "mutex_local_ok v q t p \<Longrightarrow> \<not> mutex_locks p \<Longrightarrow> mutex_local_ok v' q' t p"
  by (cases p; simp)+

lemma inv_local_owner:
  "mutex_inv_local v q f \<Longrightarrow> (flagged v \<Longrightarrow> flagged v') \<Longrightarrow> mutex_local_ok v' q t p \<Longrightarrow> mutex_inv_local v' q (f(t := p))"
  using local_ok_cong(1) [of v q _ _ v'] by (simp add: mutex_inv_local_def)

lemma mutex_inv_local_locked:
  assumes "mutex_inv_local v q f" "lock_inv mutex_locks l f" "mutex_locks (f t)" "mutex_local_ok v' q' t p"
  shows "mutex_inv_local v' q' (f(t := p))"
  using assms local_ok_cong(2) [of v q _ _ v' q'] by (fastforce simp: mutex_inv_local_def lock_inv_def)

lemma local_enqueue: "mutex_inv_local v q f \<Longrightarrow> f t = Enqueue \<Longrightarrow> v AND 1 \<noteq> 0"
  by (metis mutex_inv_local_def mutex_local_ok.simps(3))

lemma task_flagged: "is_task t \<Longrightarrow> t AND 1 = 0" "v AND 1 = 0 \<Longrightarrow> (v OR 1) AND 1 \<noteq> 0" for v :: u32
  using owner_word(3) [of v] is_task_even [of t] by simp_all

lemma mutex_inv_local_step:
  assumes "inv_owner (owner m) (pc m)" "lock_inv mutex_locks (wait_lock m) (pc m)" "queue_inv may_wait (waitq m) (pc m)"
    "mutex_inv_local (owner m) (waitq m) (pc m)" "mutex_step m m'"
  shows "mutex_inv_local (owner m') (waitq m') (pc m')"
  using assms(5,1-4)
  by (elim mutex_step_elims; auto simp: task_flagged dest: local_cas_free local_cas_flag owner_check queue_enqueue
      local_enqueue intro: inv_local_owner mutex_inv_local_locked split: if_splits option.splits)

lemma mutex_inv_wake_keep: "mutex_inv_wake v q f \<Longrightarrow> (mutex_active q t (f t) \<Longrightarrow> mutex_active q t p) \<Longrightarrow> mutex_inv_wake v q (f(t := p))"
  unfolding mutex_inv_wake_def by (metis fun_upd_apply)

lemma inv_wake_other: "mutex_inv_wake v q f \<Longrightarrow> \<not> mutex_active q t (f t) \<Longrightarrow> v AND 1 = 0 \<Longrightarrow> mutex_inv_wake v' q (f(t := p))"
  unfolding mutex_inv_wake_def by (metis fun_upd_apply)

lemma inv_wake_self: "mutex_active q t p \<Longrightarrow> mutex_inv_wake v q (f(t := p))"
  unfolding mutex_inv_wake_def by (metis fun_upd_apply)

lemma mutex_inv_wake_dequeue:
  "queue_inv may_wait (u # us) f \<Longrightarrow> \<not> may_wait (f t) \<Longrightarrow> mutex_inv_wake v us (f(t := p))"
  unfolding mutex_inv_wake_def queue_inv_def mutex_active_def by (rule disjI2, rule disjI2, rule exI [of _ u]) auto

lemma inv_wake_flagged: "v AND 1 \<noteq> 0 \<Longrightarrow> mutex_inv_wake v q f"
  by (simp add: mutex_inv_wake_def)

lemma mutex_inv_wake_empty: "mutex_inv_wake v [] f"
  by (simp add: mutex_inv_wake_def)

lemma inv_wake_cas: "mutex_inv_local v q f \<Longrightarrow> f t = Cas_free w \<Longrightarrow> is_task t \<Longrightarrow> mutex_inv_wake w q (f(t := p))"
  by (cases "q = []") (auto simp: mutex_inv_wake_def task_flagged dest: local_cas_free)

lemmas mutex_inv_wake_rules = inv_wake_cas mutex_inv_wake_keep inv_wake_other inv_wake_self mutex_inv_wake_dequeue inv_wake_flagged mutex_inv_wake_empty

lemma mutex_inv_wake_step:
  assumes "queue_inv may_wait (waitq m) (pc m)" "mutex_inv_local (owner m) (waitq m) (pc m)" "mutex_inv_wake (owner m) (waitq m) (pc m)"
    "mutex_step m m'"
  shows "mutex_inv_wake (owner m') (waitq m') (pc m')"
  using assms(4,1-3)
  by (elim mutex_step_elims; auto simp: mutex_active_def task_flagged dest: local_cas_free local_cas_flag queue_enqueue local_enqueue
      intro: mutex_inv_wake_rules split: if_splits option.splits)

lemma mutex_wakers: "\<exists>u. mutex_wakes v (f u) \<Longrightarrow> (mutex_wakes v (f t) \<Longrightarrow> mutex_wakes v p) \<Longrightarrow> \<exists>u. mutex_wakes v ((f(t := p)) u)"
  by (metis fun_upd_apply)

lemma mutex_inv_sleep_keep:
  assumes "mutex_inv_sleep q a f" "t \<notin> a \<or> p = Yield" "\<forall>v. mutex_wakes v (f t) \<longrightarrow> mutex_wakes v p"
  shows "mutex_inv_sleep q a (f(t := p))"
  using assms mutex_wakers [of _ f t p] unfolding mutex_inv_sleep_def by (metis fun_upd_apply)

lemma mutex_inv_sleep_not: "mutex_inv_sleep q a f \<Longrightarrow> f t \<noteq> Slow_unlock \<Longrightarrow> f t \<noteq> Yield \<Longrightarrow> t \<notin> a"
  by (auto simp: mutex_inv_sleep_def)

lemma mutex_inv_sleep_plain:
  "mutex_inv_sleep q a f \<Longrightarrow> f t \<noteq> Slow_unlock \<Longrightarrow> f t \<noteq> Yield \<Longrightarrow> \<forall>v. mutex_wakes v (f t) \<longrightarrow> mutex_wakes v p \<Longrightarrow>
    mutex_inv_sleep q a (f(t := p))"
  using mutex_inv_sleep_keep mutex_inv_sleep_not by blast

lemma mutex_inv_sleep_enqueue:
  assumes "mutex_inv_sleep q a f" "f t = Enqueue"
  shows "mutex_inv_sleep (q @ [t]) (insert t a) (f(t := Slow_unlock))"
proof -
  have "mutex_inv_sleep q a (f(t := Slow_unlock))" by (rule mutex_inv_sleep_plain) (use assms in simp_all)
  then show ?thesis unfolding mutex_inv_sleep_def by auto
qed

lemma mutex_inv_sleep_cancel:
  assumes "mutex_inv_sleep q a f" "f t = Cancel"
  shows "mutex_inv_sleep (filter (\<lambda>u. u \<noteq> t) q) a (f(t := Slow_load))"
proof -
  have "mutex_inv_sleep q a (f(t := Slow_load))" "t \<notin> a"
    by (rule mutex_inv_sleep_plain) (use assms mutex_inv_sleep_not [OF assms(1)] in simp_all)
  then show ?thesis unfolding mutex_inv_sleep_def set_filter mem_Collect_eq by metis
qed

lemma mutex_inv_sleep_dequeue:
  assumes "mutex_inv_sleep (u # us) a f" "f t = Unlock_dequeue"
  shows "mutex_inv_sleep us a (f(t := Unlock_release (Some u)))"
proof -
  have "mutex_inv_sleep (u # us) a (f(t := Unlock_release (Some u)))" by (rule mutex_inv_sleep_plain) (use assms in simp_all)
  then show ?thesis unfolding mutex_inv_sleep_def by (metis fun_upd_same mutex_wakes.elims(3) set_ConsD)
qed

lemma mutex_inv_sleep_wake:
  assumes "mutex_inv_sleep q a f" "f t = Unlock_wake v"
  shows "v \<in> set q \<Longrightarrow> mutex_inv_sleep q a (f(t := Idle))" "mutex_inv_sleep q (a - {v}) (f(t := Idle))"
proof -
  have t: "t \<notin> a" "mutex_wakes u (f t) \<longleftrightarrow> u = v" for u using mutex_inv_sleep_not [OF assms(1)] assms(2) by auto
  then have *: "(f(t := Idle)) u = f u" "u \<in> set q \<or> (\<exists>w. mutex_wakes u ((f(t := Idle)) w))"
    if "u \<in> a" "u = v \<Longrightarrow> v \<in> set q" for u
    using that assms(1) mutex_wakers [of u f t Idle] unfolding mutex_inv_sleep_def by (metis fun_upd_other, metis)
  then show "v \<in> set q \<Longrightarrow> mutex_inv_sleep q a (f(t := Idle))" "mutex_inv_sleep q (a - {v}) (f(t := Idle))"
    using assms(1) unfolding mutex_inv_sleep_def by (metis, metis DiffE singletonI)
qed

lemma mutex_inv_sleep_rouse: "mutex_inv_sleep q a f \<Longrightarrow> mutex_inv_sleep q (a - {t}) f"
  by (auto simp: mutex_inv_sleep_def)

lemmas mutex_inv_sleep_rules = mutex_inv_sleep_plain mutex_inv_sleep_keep mutex_inv_sleep_enqueue mutex_inv_sleep_cancel
  mutex_inv_sleep_dequeue mutex_inv_sleep_wake mutex_inv_sleep_rouse

lemma mutex_inv_sleep_step:
  "mutex_inv_sleep (waitq m) (asleep m) (pc m) \<Longrightarrow> mutex_step m m' \<Longrightarrow> mutex_inv_sleep (waitq m') (asleep m') (pc m')"
  by (elim mutex_step_elims; simp add: mutex_inv_sleep_rules split: option.split)

lemma mutex_init_inv: "mutex_inv mutex_init"
  by (simp add: mutex_inv_def mutex_init_def inv_owner_def lock_inv_def queue_inv_def mutex_inv_local_def mutex_inv_wake_def
      mutex_inv_sleep_def)

lemma mutex_inv_step: "mutex_inv m \<Longrightarrow> mutex_step m m' \<Longrightarrow> mutex_inv m'"
  unfolding mutex_inv_def by (intro conjI) (blast intro: inv_owner_step mutex_inv_lock_step mutex_inv_queue_step mutex_inv_local_step mutex_inv_wake_step mutex_inv_sleep_step)+

lemma mutex_inv_owner: "mutex_inv m \<Longrightarrow> mutex_owns (pc m t) \<longleftrightarrow> task_of (owner m) = t \<and> t \<noteq> 0"
  unfolding mutex_inv_def inv_owner_def by blast

interpretation mutex: exclusive_lock mutex_step mutex_inv "\<lambda>m t. mutex_owns (pc m t)"
  by unfold_locales (auto simp only: mutex_inv_owner intro: mutex_inv_step)

lemmas mutex_reach_inv = mutex.reach_inv [OF _ mutex_init_inv]

lemma flagged_word: "flagged v \<Longrightarrow> v = task_of v OR 1" for v :: u32
proof (rule bit_word_eqI)
  fix n :: nat
  assume "flagged v" and n: "n < LENGTH(32)"
  then have "bit v 0" by (metis and_one_eq bit_0 parity_cases zero_neq_one)
  then show "bit v n = bit (task_of v OR 1) n" using n by (cases n) (simp_all add: bit_simps)
qed

lemma mutex_inv_wake:
  assumes "mutex_inv m" "waitq m \<noteq> []"
  shows "(\<exists>t. mutex_owns (pc m t) \<and> owner m = t OR 1) \<or> (\<exists>t. mutex_active (waitq m) t (pc m t))"
proof (cases "flagged (owner m)")
  case True
  then have "mutex_owns (pc m (task_of (owner m)))"
    using assms(1) mutex_inv_owner [OF assms(1)] unfolding mutex_inv_def inv_owner_def by force
  then show ?thesis using flagged_word [OF True] by blast
next
  case False
  then show ?thesis using assms unfolding mutex_inv_def mutex_inv_wake_def by blast
qed

lemma mutex_inv_locks: "mutex_inv m \<Longrightarrow> mutex_locks (pc m t) \<Longrightarrow> mutex_locks (pc m u) \<Longrightarrow> t = u"
  unfolding mutex_inv_def lock_inv_def by force

lemma mutex_inv_asleep:
  "mutex_inv m \<Longrightarrow> t \<in> asleep m \<Longrightarrow>
    pc m t \<in> {Slow_unlock, Yield} \<and> (t \<in> set (waitq m) \<or> (\<exists>u. mutex_wakes t (pc m u)))"
  unfolding mutex_inv_def mutex_inv_sleep_def by blast

lemma mutex_inv_panic: "mutex_inv m \<Longrightarrow> pc m t \<noteq> Panic"
  by (metis mutex_inv_def mutex_inv_local_def mutex_local_ok.simps(1))

text \<open>
  C29: In every state the mutex can reach, at most one task is between the acquisition of the mutex and its release, the
  owner word holds exactly its address apart from the flag for waiters, and at most one task holds the lock of the wait queue.
\<close>

theorem mutex_mutual_exclusion:
  assumes "mutex_step\<^sup>*\<^sup>* mutex_init m"
  shows "(mutex_owns (pc m t) \<longleftrightarrow> owner m AND NOT MUTEX_FLAG_WAITERS = t \<and> t \<noteq> 0) \<and>
    (mutex_owns (pc m t) \<and> mutex_owns (pc m u) \<longrightarrow> t = u) \<and> (mutex_locks (pc m t) \<and> mutex_locks (pc m u) \<longrightarrow> t = u)"
  using mutex_inv_owner [OF mutex_reach_inv [OF assms]] mutex_inv_locks [OF mutex_reach_inv [OF assms]]
    mutex.mutual_exclusion [OF mutex_init_inv assms] by blast

text \<open>
  C30: No wake-up is lost. Whenever tasks wait in the queue, the mutex is owned with the flag for waiters set, so that its
  unlock goes through the slow path, or some task will look at the owner word again: it is in the slow path, not in the
  queue, and runs or is about to be woken, or it is an unlocking task that is about to take one off the queue. A task sleeps only
  while it is in the queue or an unlocking task that has taken it off is on its way to wake it. No task ever reaches a panic.
\<close>

theorem mutex_no_lost_wakeup:
  assumes "mutex_step\<^sup>*\<^sup>* mutex_init m"
  shows "(waitq m \<noteq> [] \<longrightarrow>
      (\<exists>t. mutex_owns (pc m t) \<and> owner m = t OR MUTEX_FLAG_WAITERS) \<or> (\<exists>t. pc m t = Unlock_dequeue) \<or>
      (\<exists>t. in_slow_path (pc m t) \<and> t \<notin> set (waitq m) \<and> (t \<notin> asleep m \<or> (\<exists>u. mutex_wakes t (pc m u))))) \<and>
    (t \<in> asleep m \<longrightarrow> pc m t \<in> {Slow_unlock, Yield} \<and> (t \<in> set (waitq m) \<or> (\<exists>u. mutex_wakes t (pc m u)))) \<and>
    pc m t \<noteq> Panic"
  using mutex_inv_wake mutex_inv_asleep mutex_inv_panic mutex_reach_inv [OF assms] unfolding mutex_active_def by blast

text \<open>Two tasks: one holds the mutex, the other one waits for it.\<close>

definition mutex_two_tasks :: "u32 \<Rightarrow> u32 ptr \<Rightarrow> u32 list \<Rightarrow> u32 set \<Rightarrow> mutex_pc \<Rightarrow> mutex_pc \<Rightarrow> mutex" where
  "mutex_two_tasks v l q a p p' = \<lparr>owner = v, wait_lock = l, waitq = q, asleep = a, pc = (\<lambda>_. Idle)(64 := p, 128 := p')\<rparr>"

lemma mutex_two_tasks_simps:
  "owner (mutex_two_tasks v l q a p p') = v" "wait_lock (mutex_two_tasks v l q a p p') = l" "waitq (mutex_two_tasks v l q a p p') = q"
  "pc (mutex_two_tasks v l q a p p') 64 = p" "pc (mutex_two_tasks v l q a p p') 128 = p'"
  "(mutex_two_tasks v l q a p p')\<lparr>owner := w\<rparr> = mutex_two_tasks w l q a p p'"
  "(mutex_two_tasks v l q a p p')\<lparr>wait_lock := l'\<rparr> = mutex_two_tasks v l' q a p p'"
  "asleep (mutex_two_tasks v l q a p p') = a" "(mutex_two_tasks v l q a p p')\<lparr>asleep := b\<rparr> = mutex_two_tasks v l q b p p'"
  "(mutex_two_tasks v l q a p p')\<lparr>waitq := q'\<rparr> = mutex_two_tasks v l q' a p p'"
  "(mutex_two_tasks v l q a p p')\<lparr>pc := (pc (mutex_two_tasks v l q a p p'))(64 := r)\<rparr> = mutex_two_tasks v l q a r p'"
  "(mutex_two_tasks v l q a p p')\<lparr>pc := (pc (mutex_two_tasks v l q a p p'))(128 := r)\<rparr> = mutex_two_tasks v l q a p r"
  "is_task 64" "is_task 128" "mutex_init = mutex_two_tasks 0 None [] {} Idle Idle"
  by (auto simp: mutex_two_tasks_def is_task_def mutex_init_def)

lemma two_tasks_held: "mutex_step\<^sup>*\<^sup>* mutex_init (mutex_two_tasks 64 None [] {} Held Idle)"
proof -
  have "mutex_step mutex_init (mutex_two_tasks 0 None [] {} Lock_fast Idle)"
    using call_lock [of 64 mutex_init] by (simp add: mutex_two_tasks_simps)
  moreover have "mutex_step (mutex_two_tasks 0 None [] {} Lock_fast Idle) (mutex_two_tasks 64 None [] {} Held Idle)"
    using in_lock [OF _ lock_acquired, of 64 "mutex_two_tasks 0 None [] {} Lock_fast Idle"] by (simp add: mutex_two_tasks_simps)
  ultimately show ?thesis by (blast intro: rtranclp.intros)
qed

lemma two_tasks_contended: "mutex_step\<^sup>*\<^sup>* mutex_init (mutex_two_tasks 65 None [128] {128} Held Yield)"
proof -
  let ?m = "\<lambda>v l q p. mutex_two_tasks v l q (set q) Held p"
  note slow = in_slowpath [where t = 128] and task = mutex_two_tasks_simps(14)
  have "mutex_step (?m 64 None [] Idle) (?m 64 None [] Lock_fast)"
    using call_lock [OF task, of "?m 64 None [] Idle"] by (simp add: mutex_two_tasks_simps)
  moreover have "mutex_step (?m 64 None [] Lock_fast) (?m 64 None [] Spin)"
    using in_lock [OF task lock_busy, of "?m 64 None [] Lock_fast"] by (simp add: mutex_two_tasks_simps)
  moreover have "mutex_step (?m 64 None [] Spin) (?m 64 None [] Slow_lock)"
    using slow [OF task spin_end, of "?m 64 None [] Spin"] by (simp add: mutex_two_tasks_simps)
  moreover have "mutex_step (?m 64 None [] Slow_lock) (?m 64 (Some 128) [] Slow_load)"
    using slow [OF task slow_lock, of "?m 64 None [] Slow_lock"] by (simp add: mutex_two_tasks_simps)
  moreover have "mutex_step (?m 64 (Some 128) [] Slow_load) (?m 64 (Some 128) [] (Cas_flag 64))"
    using slow [OF task load_unflagged, of "?m 64 (Some 128) [] Slow_load"] by (simp add: mutex_two_tasks_simps)
  moreover have "mutex_step (?m 64 (Some 128) [] (Cas_flag 64)) (?m 65 (Some 128) [] Enqueue)"
    using slow [OF task flag_set, of "?m 64 (Some 128) [] (Cas_flag 64)"] by (simp add: mutex_two_tasks_simps)
  moreover have "mutex_step (?m 65 (Some 128) [] Enqueue) (?m 65 (Some 128) [128] Slow_unlock)"
    using slow [OF task enqueue, of "?m 65 (Some 128) [] Enqueue"] by (simp add: mutex_two_tasks_simps)
  moreover have "mutex_step (?m 65 (Some 128) [128] Slow_unlock) (?m 65 None [128] Yield)"
    using slow [OF task slow_unlock, of "?m 65 (Some 128) [128] Slow_unlock"] by (simp add: mutex_two_tasks_simps)
  ultimately show ?thesis using two_tasks_held unfolding list.set by (meson rtranclp.rtrancl_into_rtrancl)
qed

theorem mutex_mutual_exclusion_witness:
  "owner (mutex_two_tasks 65 None [128] {128} Held Yield) AND NOT MUTEX_FLAG_WAITERS = 64 \<and> \<not> mutex_owns (pc (mutex_two_tasks 65 None [128] {128} Held Yield) 128)"
  using mutex_mutual_exclusion [OF two_tasks_contended, of 64] mutex_mutual_exclusion [OF two_tasks_contended, of 128 64]
  by (simp add: mutex_two_tasks_simps)

lemma two_tasks_handover: "mutex_step\<^sup>*\<^sup>* mutex_init (mutex_two_tasks 0 None [] {128} (Unlock_wake 128) Yield)"
proof -
  let ?m = "\<lambda>v l q p. mutex_two_tasks v l q {128} p Yield"
  note slow = in_unlock_slowpath [where t = 64] and task = mutex_two_tasks_simps(13)
  have "mutex_step (?m 65 None [128] Held) (?m 65 None [128] Unlock_fast)"
    using call_unlock [OF task, of "?m 65 None [128] Held"] by (simp add: mutex_two_tasks_simps)
  moreover have "mutex_step (?m 65 None [128] Unlock_fast) (?m 65 None [128] Unlock_check)"
    using in_unlock [OF task unlock_contended, of "?m 65 None [128] Unlock_fast"] by (simp add: mutex_two_tasks_simps)
  moreover have "mutex_step (?m 65 None [128] Unlock_check) (?m 65 None [128] Unlock_lock)"
    using slow [OF task unlock_own, of "?m 65 None [128] Unlock_check"] by (simp add: mutex_two_tasks_simps)
  moreover have "mutex_step (?m 65 None [128] Unlock_lock) (?m 65 (Some 64) [128] Unlock_store)"
    using slow [OF task unlock_lock, of "?m 65 None [128] Unlock_lock"] by (simp add: mutex_two_tasks_simps)
  moreover have "mutex_step (?m 65 (Some 64) [128] Unlock_store) (?m 0 (Some 64) [128] Unlock_dequeue)"
    using slow [OF task unlock_store, of "?m 65 (Some 64) [128] Unlock_store"] by (simp add: mutex_two_tasks_simps)
  moreover have "mutex_step (?m 0 (Some 64) [128] Unlock_dequeue) (?m 0 (Some 64) [] (Unlock_release (Some 128)))"
    using slow [OF task unlock_dequeue, of "?m 0 (Some 64) [128] Unlock_dequeue" 128 "[]"] by (simp add: mutex_two_tasks_simps)
  moreover have "mutex_step (?m 0 (Some 64) [] (Unlock_release (Some 128))) (?m 0 None [] (Unlock_wake 128))"
    using slow [OF task unlock_release, of "?m 0 (Some 64) [] (Unlock_release (Some 128))" "Some 128"]
    by (simp add: mutex_two_tasks_simps)
  ultimately show ?thesis using two_tasks_contended by (meson rtranclp.rtrancl_into_rtrancl)
qed

theorem mutex_no_lost_wakeup_witness:
  "(\<exists>u. mutex_wakes 128 (pc (mutex_two_tasks 0 None [] {128} (Unlock_wake 128) Yield) u)) \<and>
   (\<exists>t. mutex_owns (pc (mutex_two_tasks 65 None [128] {128} Held Yield) t) \<and> 65 = t OR MUTEX_FLAG_WAITERS)"
proof -
  have "\<not> in_slow_path (pc (mutex_two_tasks 65 None [128] {128} Held Yield) t)" if "t \<noteq> 128" for t
    using that by (simp add: mutex_two_tasks_def)
  moreover have "pc (mutex_two_tasks 65 None [128] {128} Held Yield) t \<noteq> Unlock_dequeue" for t
    by (simp add: mutex_two_tasks_def)
  ultimately show ?thesis
    using mutex_no_lost_wakeup [OF two_tasks_handover, of 128] mutex_no_lost_wakeup [OF two_tasks_contended]
    by (simp only: mutex_two_tasks_simps) force
qed

text \<open>Spinning always ends: the pauses add up to 1024 after a bounded number of rounds.\<close>

lemma mutex_spin_ends:
  "0 < backoff \<Longrightarrow> i + length obs \<ge> 1024 \<Longrightarrow> \<exists>b. mutex_spin_on_owner obs i backoff = Some b"
proof (induction obs arbitrary: i backoff)
  case (Cons o' obs)
  then show ?case
    by (subst mutex_spin_on_owner.simps) (auto simp: Let_def simp del: mutex_spin_on_owner.simps split: prod.splits)
qed (subst mutex_spin_on_owner.simps, auto)

end
