(* ===== verification/Rwspinlock.thy ===== *)
theory Rwspinlock
  imports Steps
begin

text \<open>
  The spinning readers-writer lock of \<open>src/src/kernel/locking/rwspinlock.c\<close> as a transition system. Bit 31 of the state
  word says that a writer holds the lock, bit 30 that one is about to, the others count the readers. The variants with
  suffix \<open>_safe\<close> save the processor flags and switch interrupts off before they acquire the lock, and switch them on again
  after its release if they were on.
\<close>

section \<open>State\<close>

datatype rwspin_pc =
    Idle
  | Read_load
  | Read_cas u32
  | Reading
  | Write_lock
  | Write_pending
  | Write_load
  | Write_cas
  | Writing
  | Write_unlock
  | Read_restore
  | Write_restore

text \<open>\<open>flags\<close> is the local variable of the callers of the variants with suffix \<open>_safe\<close>, \<open>eflags\<close> the processor flags of a task.\<close>

record rwspinlock =
  state :: u32
  wait_lock :: "u32 ptr"
  pc :: "u32 \<Rightarrow> rwspin_pc"
  flags :: "u32 \<Rightarrow> u32 ptr"
  eflags :: "u32 \<Rightarrow> u32"

abbreviation RW_STATE_WRITER_LOCKED :: u32 where
  "RW_STATE_WRITER_LOCKED \<equiv> 0x80000000"

abbreviation RW_STATE_WRITER_PENDING :: u32 where
  "RW_STATE_WRITER_PENDING \<equiv> 0x40000000"

abbreviation RW_STATE_READER_MASK :: u32 where
  "RW_STATE_READER_MASK \<equiv> 0x3FFFFFFF"

abbreviation EFLAGS_IF :: u32 where
  "EFLAGS_IF \<equiv> 0x200"

definition rwspinlock_init :: "(u32 \<Rightarrow> u32) \<Rightarrow> rwspinlock" where
  "rwspinlock_init e = \<lparr>state = 0, wait_lock = None, pc = (\<lambda>_. Idle), flags = (\<lambda>_. None), eflags = e\<rparr>"

abbreviation rwspin_goto :: "u32 \<Rightarrow> rwspin_pc \<Rightarrow> rwspinlock \<Rightarrow> rwspinlock" where
  "rwspin_goto t p m \<equiv> m\<lparr>pc := (pc m)(t := p)\<rparr>"

text \<open>\<open>irq_save\<close> returns the flags as they were, with interrupts off from then on; \<open>irq_enable\<close> switches them on.\<close>

definition irq_disable :: "u32 \<Rightarrow> u32" where
  "irq_disable e = e AND NOT EFLAGS_IF"

definition irq_enable :: "u32 \<Rightarrow> u32" where
  "irq_enable e = e OR EFLAGS_IF"

definition irq_save :: "u32 \<Rightarrow> rwspinlock \<Rightarrow> rwspinlock" where
  "irq_save t m = m\<lparr>flags := (flags m)(t \<mapsto> eflags m t), eflags := (eflags m)(t := irq_disable (eflags m t))\<rparr>"

text \<open>Where a task goes after the release: back to its caller, for the variants with suffix \<open>_safe\<close> through their epilogue.\<close>

definition return_to :: "rwspin_pc \<Rightarrow> u32 \<Rightarrow> rwspinlock \<Rightarrow> rwspin_pc" where
  "return_to p t m = (if flags m t = None then Idle else p)"

section \<open>The code\<close>

inductive rwspinlock_acquire_read_step :: "u32 \<Rightarrow> rwspinlock \<Rightarrow> rwspinlock \<Rightarrow> bool" where
  read_wait: "pc m t = Read_load \<Longrightarrow> state m AND (RW_STATE_WRITER_LOCKED OR RW_STATE_WRITER_PENDING) \<noteq> 0 \<Longrightarrow>
    rwspinlock_acquire_read_step t m m"
| read_load: "pc m t = Read_load \<Longrightarrow> state m AND (RW_STATE_WRITER_LOCKED OR RW_STATE_WRITER_PENDING) = 0 \<Longrightarrow>
    rwspinlock_acquire_read_step t m (rwspin_goto t (Read_cas (state m)) m)"
| read_acquired: "pc m t = Read_cas s \<Longrightarrow> state m = s \<Longrightarrow>
    rwspinlock_acquire_read_step t m (rwspin_goto t Reading (m\<lparr>state := s + 1\<rparr>))"
| read_lost: "pc m t = Read_cas s \<Longrightarrow> state m \<noteq> s \<Longrightarrow> rwspinlock_acquire_read_step t m (rwspin_goto t Read_load m)"

inductive rwspinlock_release_read_step :: "u32 \<Rightarrow> rwspinlock \<Rightarrow> rwspinlock \<Rightarrow> bool" where
  read_release: "pc m t = Reading \<Longrightarrow>
    rwspinlock_release_read_step t m (rwspin_goto t (return_to Read_restore t m) (m\<lparr>state := state m - 1\<rparr>))"

inductive rwspinlock_acquire_write_step :: "u32 \<Rightarrow> rwspinlock \<Rightarrow> rwspinlock \<Rightarrow> bool" where
  write_lock: "pc m t = Write_lock \<Longrightarrow> wait_lock m = None \<Longrightarrow>
    rwspinlock_acquire_write_step t m (rwspin_goto t Write_pending (m\<lparr>wait_lock := Some t\<rparr>))"
| write_pending: "pc m t = Write_pending \<Longrightarrow>
    rwspinlock_acquire_write_step t m (rwspin_goto t Write_load (m\<lparr>state := state m OR RW_STATE_WRITER_PENDING\<rparr>))"
| write_wait: "pc m t = Write_load \<Longrightarrow> state m AND RW_STATE_READER_MASK \<noteq> 0 \<Longrightarrow> rwspinlock_acquire_write_step t m m"
| write_load: "pc m t = Write_load \<Longrightarrow> state m AND RW_STATE_READER_MASK = 0 \<Longrightarrow>
    rwspinlock_acquire_write_step t m (rwspin_goto t Write_cas m)"
| write_acquired: "pc m t = Write_cas \<Longrightarrow> state m = RW_STATE_WRITER_PENDING \<Longrightarrow>
    rwspinlock_acquire_write_step t m (rwspin_goto t Writing (m\<lparr>state := RW_STATE_WRITER_LOCKED\<rparr>))"
| write_lost: "pc m t = Write_cas \<Longrightarrow> state m \<noteq> RW_STATE_WRITER_PENDING \<Longrightarrow>
    rwspinlock_acquire_write_step t m (rwspin_goto t Write_load m)"

inductive rwspinlock_release_write_step :: "u32 \<Rightarrow> rwspinlock \<Rightarrow> rwspinlock \<Rightarrow> bool" where
  write_release: "pc m t = Writing \<Longrightarrow>
    rwspinlock_release_write_step t m (rwspin_goto t Write_unlock (m\<lparr>state := state m AND NOT RW_STATE_WRITER_LOCKED\<rparr>))"
| write_unlock: "pc m t = Write_unlock \<Longrightarrow>
    rwspinlock_release_write_step t m (rwspin_goto t (return_to Write_restore t m) (m\<lparr>wait_lock := None\<rparr>))"

text \<open>The prologues and the epilogues of the variants with suffix \<open>_safe\<close>.\<close>

inductive rwspinlock_acquire_read_safe_step :: "u32 \<Rightarrow> rwspinlock \<Rightarrow> rwspinlock \<Rightarrow> bool" where
  read_safe: "pc m t = Idle \<Longrightarrow> rwspinlock_acquire_read_safe_step t m (rwspin_goto t Read_load (irq_save t m))"

inductive rwspinlock_acquire_write_safe_step :: "u32 \<Rightarrow> rwspinlock \<Rightarrow> rwspinlock \<Rightarrow> bool" where
  write_safe: "pc m t = Idle \<Longrightarrow> rwspinlock_acquire_write_safe_step t m (rwspin_goto t Write_lock (irq_save t m))"

inductive rwspinlock_release_read_safe_step :: "u32 \<Rightarrow> rwspinlock \<Rightarrow> rwspinlock \<Rightarrow> bool" where
  read_restore: "pc m t = Read_restore \<Longrightarrow> flags m t = Some fl \<Longrightarrow>
    e = (if fl AND EFLAGS_IF \<noteq> 0 then irq_enable (eflags m t) else eflags m t) \<Longrightarrow>
    rwspinlock_release_read_safe_step t m (rwspin_goto t Idle (m\<lparr>flags := (flags m)(t := None), eflags := (eflags m)(t := e)\<rparr>))"

inductive rwspinlock_release_write_safe_step :: "u32 \<Rightarrow> rwspinlock \<Rightarrow> rwspinlock \<Rightarrow> bool" where
  write_restore: "pc m t = Write_restore \<Longrightarrow> flags m t = Some fl \<Longrightarrow>
    e = (if fl AND EFLAGS_IF \<noteq> 0 then irq_enable (eflags m t) else eflags m t) \<Longrightarrow>
    rwspinlock_release_write_safe_step t m (rwspin_goto t Idle (m\<lparr>flags := (flags m)(t := None), eflags := (eflags m)(t := e)\<rparr>))"

inductive rwspinlock_step :: "rwspinlock \<Rightarrow> rwspinlock \<Rightarrow> bool" where
  call_read: "is_task t \<Longrightarrow> pc m t = Idle \<Longrightarrow> rwspinlock_step m (rwspin_goto t Read_load m)"
| call_write: "is_task t \<Longrightarrow> pc m t = Idle \<Longrightarrow> rwspinlock_step m (rwspin_goto t Write_lock m)"
| call_read_safe: "is_task t \<Longrightarrow> rwspinlock_acquire_read_safe_step t m m' \<Longrightarrow> rwspinlock_step m m'"
| call_write_safe: "is_task t \<Longrightarrow> rwspinlock_acquire_write_safe_step t m m' \<Longrightarrow> rwspinlock_step m m'"
| in_acquire_read: "is_task t \<Longrightarrow> rwspinlock_acquire_read_step t m m' \<Longrightarrow> rwspinlock_step m m'"
| in_release_read: "is_task t \<Longrightarrow> rwspinlock_release_read_step t m m' \<Longrightarrow> rwspinlock_step m m'"
| in_acquire_write: "is_task t \<Longrightarrow> rwspinlock_acquire_write_step t m m' \<Longrightarrow> rwspinlock_step m m'"
| in_release_write: "is_task t \<Longrightarrow> rwspinlock_release_write_step t m m' \<Longrightarrow> rwspinlock_step m m'"
| in_release_read_safe: "is_task t \<Longrightarrow> rwspinlock_release_read_safe_step t m m' \<Longrightarrow> rwspinlock_step m m'"
| in_release_write_safe: "is_task t \<Longrightarrow> rwspinlock_release_write_safe_step t m m' \<Longrightarrow> rwspinlock_step m m'"

section \<open>The state word\<close>

lemma reader_bits: "s AND (RW_STATE_WRITER_LOCKED OR RW_STATE_WRITER_PENDING) = 0 \<longleftrightarrow> unat s < 2 ^ 30"
proof -
  have "RW_STATE_WRITER_LOCKED OR RW_STATE_WRITER_PENDING = NOT (mask 30)" by (simp add: mask_eq_exp_minus_1)
  then show ?thesis using and_not_mask_eq_0 [of s 30] by (simp only:)
qed

lemma set_pending: "unat s < 2 ^ 30 \<Longrightarrow> unat (s OR RW_STATE_WRITER_PENDING) = unat s + 2 ^ 30"
proof -
  assume s: "unat s < 2 ^ 30"
  then have "(s AND NOT (mask 30)) AND RW_STATE_WRITER_PENDING = 0" using and_not_mask_eq_0 [of s 30] by simp
  then have "s AND RW_STATE_WRITER_PENDING = 0" unfolding and.assoc by (simp add: mask_eq_exp_minus_1)
  then have "s OR RW_STATE_WRITER_PENDING = s + RW_STATE_WRITER_PENDING" by (rule disjunctive_add_eq_or [symmetric])
  then show ?thesis using s by (simp add: unat_add_no_overflow)
qed

section \<open>The invariant\<close>

fun rwspin_locks :: "rwspin_pc \<Rightarrow> bool" where
  "rwspin_locks p = (p \<in> {Write_pending, Write_load, Write_cas, Writing, Write_unlock})"

text \<open>What the writer that holds the spin lock contributes to the state word.\<close>

fun writer_bits :: "rwspin_pc \<Rightarrow> nat" where
  "writer_bits Writing = 2 ^ 31"
| "writer_bits Write_load = 2 ^ 30"
| "writer_bits Write_cas = 2 ^ 30"
| "writer_bits p = 0"

definition writer_part :: "u32 ptr \<Rightarrow> (u32 \<Rightarrow> rwspin_pc) \<Rightarrow> nat" where
  "writer_part l f = (case l of None \<Rightarrow> 0 | Some w \<Rightarrow> writer_bits (f w))"

abbreviation readers :: "(u32 \<Rightarrow> rwspin_pc) \<Rightarrow> nat" where
  "readers \<equiv> census (\<lambda>_ p. p = Reading)"

text \<open>The state word is the number of readers plus the part of the writer, who is alone while it holds the lock.\<close>

definition rwspin_inv_state :: "u32 \<Rightarrow> u32 ptr \<Rightarrow> (u32 \<Rightarrow> rwspin_pc) \<Rightarrow> bool" where
  "rwspin_inv_state s l f \<longleftrightarrow> unat s = readers f + writer_part l f \<and> (writer_part l f = 2 ^ 31 \<longrightarrow> readers f = 0)"

definition rwspin_inv_local :: "(u32 \<Rightarrow> rwspin_pc) \<Rightarrow> bool" where
  "rwspin_inv_local f \<longleftrightarrow> (\<forall>t. (f t \<noteq> Idle \<longrightarrow> is_task t) \<and> (\<forall>s. f t = Read_cas s \<longrightarrow> unat s < 2 ^ 30))"

text \<open>Outside the variants with suffix \<open>_safe\<close> the processor flags are those of the start, inside interrupts are off.\<close>

abbreviation restores :: "rwspin_pc \<Rightarrow> bool" where
  "restores p \<equiv> p = Read_restore \<or> p = Write_restore"

fun flags_ok :: "u32 \<Rightarrow> u32 ptr \<Rightarrow> u32 \<Rightarrow> rwspin_pc \<Rightarrow> bool" where
  "flags_ok e0 None e p = (e = e0 \<and> \<not> restores p)"
| "flags_ok e0 (Some fl) e p = (fl = e0 \<and> e = irq_disable e0 \<and> p \<noteq> Idle)"

definition inv_flags :: "(u32 \<Rightarrow> u32) \<Rightarrow> (u32 \<Rightarrow> u32 ptr) \<Rightarrow> (u32 \<Rightarrow> u32) \<Rightarrow> (u32 \<Rightarrow> rwspin_pc) \<Rightarrow> bool" where
  "inv_flags e0 fl e f \<longleftrightarrow> (\<forall>t. flags_ok (e0 t) (fl t) (e t) (f t))"

definition rwspinlock_inv :: "(u32 \<Rightarrow> u32) \<Rightarrow> rwspinlock \<Rightarrow> bool" where
  "rwspinlock_inv e0 m \<longleftrightarrow> lock_inv rwspin_locks (wait_lock m) (pc m) \<and> rwspin_inv_state (state m) (wait_lock m) (pc m) \<and>
     rwspin_inv_local (pc m) \<and> inv_flags e0 (flags m) (eflags m) (pc m)"

section \<open>Preservation\<close>

lemmas rwspinlock_step_elims = rwspinlock_step.cases rwspinlock_acquire_read_step.cases rwspinlock_release_read_step.cases
  rwspinlock_acquire_write_step.cases rwspinlock_release_write_step.cases rwspinlock_acquire_read_safe_step.cases
  rwspinlock_acquire_write_safe_step.cases rwspinlock_release_read_safe_step.cases rwspinlock_release_write_safe_step.cases

lemma return_to_simps [simp]:
  "restores p \<Longrightarrow> rwspin_locks (return_to p t m) = False" "restores p \<Longrightarrow> return_to p t m \<noteq> Reading"
  "restores p \<Longrightarrow> writer_bits (return_to p t m) = 0" "restores p \<Longrightarrow> return_to p t m \<noteq> Read_cas s"
  by (auto simp: return_to_def)

lemma irq_save_simps [simp]:
  "state (irq_save t m) = state m" "wait_lock (irq_save t m) = wait_lock m" "pc (irq_save t m) = pc m"
  by (simp_all add: irq_save_def)

lemma rwspin_inv_lock_step:
  "lock_inv rwspin_locks (wait_lock m) (pc m) \<Longrightarrow> rwspinlock_step m m' \<Longrightarrow> lock_inv rwspin_locks (wait_lock m') (pc m')"
  by (elim rwspinlock_step_elims; auto simp: lock_inv_rules return_to_def)

lemma rwspin_inv_local_step: "rwspin_inv_local (pc m) \<Longrightarrow> rwspinlock_step m m' \<Longrightarrow> rwspin_inv_local (pc m')"
  using reader_bits [of "state m"] by (elim rwspinlock_step_elims; auto simp: rwspin_inv_local_def)

lemma bit_clear_set:
  "bit e k \<Longrightarrow> (e AND NOT (2 ^ k)) OR 2 ^ k = e" "\<not> bit e k \<Longrightarrow> e AND NOT (2 ^ k) = e" for e :: u32
  by (rule bit_word_eqI, auto simp: bit_simps)+

lemma irq_roundtrip: "(if e AND EFLAGS_IF \<noteq> 0 then irq_enable (irq_disable e) else irq_disable e) = e"
proof -
  have IF: "EFLAGS_IF = 2 ^ 9" by simp
  show ?thesis unfolding IF and_exp_eq_0_iff_not_bit irq_enable_def irq_disable_def
    by (cases "bit e 9") (simp_all only: bit_clear_set if_True if_False simp_thms)
qed

lemma inv_flags_keep: "inv_flags e0 fl e f \<Longrightarrow> flags_ok (e0 t) (fl t) (e t) p \<Longrightarrow> inv_flags e0 fl e (f(t := p))"
  by (simp add: inv_flags_def)

lemma inv_flags_upd:
  "inv_flags e0 fl e f \<Longrightarrow> flags_ok (e0 t) x y p \<Longrightarrow> inv_flags e0 (fl(t := x)) (e(t := y)) (f(t := p))"
  by (simp add: inv_flags_def)

lemma flags_ok_move:
  "inv_flags e0 fl e f \<Longrightarrow> \<not> restores (f t) \<Longrightarrow> \<not> restores p \<Longrightarrow> f t = Idle \<or> p \<noteq> Idle \<Longrightarrow> flags_ok (e0 t) (fl t) (e t) p"
  by (cases "fl t") (auto simp: inv_flags_def dest: spec [of _ t])

lemma flags_ok_return:
  "inv_flags e0 (flags m) (eflags m) (pc m) \<Longrightarrow> p \<noteq> Idle \<Longrightarrow> flags_ok (e0 t) (flags m t) (eflags m t) (return_to p t m)"
  by (cases "flags m t") (auto simp: inv_flags_def return_to_def dest: spec [of _ t])

lemma flags_ok_save:
  "inv_flags e0 fl e f \<Longrightarrow> f t = Idle \<Longrightarrow> p \<noteq> Idle \<Longrightarrow> flags_ok (e0 t) (Some (e t)) (irq_disable (e t)) p"
  by (cases "fl t") (auto simp: inv_flags_def dest: spec [of _ t])

lemma flags_ok_restore:
  "inv_flags e0 fl e f \<Longrightarrow> fl t = Some v \<Longrightarrow>
    flags_ok (e0 t) None (if v AND EFLAGS_IF \<noteq> 0 then irq_enable (e t) else e t) Idle"
  using irq_roundtrip [of "e0 t"] by (auto simp: inv_flags_def dest: spec [of _ t])

lemmas inv_flags_rules = inv_flags_keep inv_flags_upd flags_ok_move flags_ok_return flags_ok_save flags_ok_restore

lemma inv_flags_step:
  "inv_flags e0 (flags m) (eflags m) (pc m) \<Longrightarrow> rwspinlock_step m m' \<Longrightarrow> inv_flags e0 (flags m') (eflags m') (pc m')"
  by (elim rwspinlock_step_elims; simp add: irq_save_def inv_flags_rules del: flags_ok.simps if_split)

lemma writer_part_simps:
  "writer_part None f = 0" "writer_part (Some w) f = writer_bits (f w)"
  by (simp_all add: writer_part_def)

lemma writer_part_keep: "writer_bits p = writer_bits (f t) \<Longrightarrow> writer_part l (f(t := p)) = writer_part l f"
  by (simp add: writer_part_def split: option.split)

lemma writer_part_range: "writer_part l f \<in> {0, 2 ^ 30, 2 ^ 31}"
proof (cases l)
  case (Some w)
  then show ?thesis by (cases "f w") (simp_all add: writer_part_simps)
qed (simp add: writer_part_simps)

lemma rwspin_inv_state_keep:
  "rwspin_inv_state s l f \<Longrightarrow> writer_bits p = writer_bits (f t) \<Longrightarrow> (f t = Reading) = (p = Reading) \<Longrightarrow> rwspin_inv_state s l (f(t := p))"
  by (simp add: rwspin_inv_state_def writer_part_keep census_same)

lemma local_read_cas: "rwspin_inv_local f \<Longrightarrow> f t = Read_cas s \<Longrightarrow> unat s < 2 ^ 30"
  by (simp add: rwspin_inv_local_def)

lemma rwspin_inv_state_read:
  assumes "rwspin_inv_state s l f" "rwspin_inv_local f" "f t = Read_cas s"
  shows "rwspin_inv_state (s + 1) l (f(t := Reading))"
proof -
  note s = local_read_cas [OF assms(2,3)]
  then have "writer_part l f = 0" using assms(1) writer_part_range [of l f] by (auto simp: rwspin_inv_state_def)
  then show ?thesis using assms s by (simp add: rwspin_inv_state_def writer_part_keep census_in unat_add_no_overflow)
qed

lemma rwspin_inv_state_unread:
  assumes "rwspin_inv_state s l f" "f t = Reading" "p \<noteq> Reading" "writer_bits p = 0"
  shows "rwspin_inv_state (s - 1) l (f(t := p))"
proof -
  have c: "readers f = Suc (readers (f(t := p)))" by (rule census_out) (use assms in simp_all)
  then have "unat (s - 1) = unat s - 1" using assms(1) by (subst unat_sub) (auto simp: rwspin_inv_state_def word_le_nat_alt)
  then show ?thesis using assms c by (simp add: rwspin_inv_state_def writer_part_keep)
qed

lemma inv_state_writer:
  assumes "f t \<noteq> Reading" "p \<noteq> Reading" "l = Some t \<or> l = None \<and> writer_bits p = 0"
    "writer_bits p = 2 ^ 31 \<Longrightarrow> readers f = 0" "unat s = readers f + writer_bits p"
  shows "rwspin_inv_state s l (f(t := p))"
  using assms by (auto simp: rwspin_inv_state_def census_same writer_part_simps)

lemma rwspin_inv_state_readers:
  assumes "rwspin_inv_state s l f" "lock_inv rwspin_locks l f" "rwspin_locks (f t)"
  shows "unat s = readers f + writer_bits (f t)" "f t = Writing \<Longrightarrow> readers f = 0"
  using assms unfolding rwspin_inv_state_def lock_inv_def by (metis writer_part_simps(2), metis writer_part_simps(2) writer_bits.simps(1))

lemma inv_state_no_writer: "rwspin_inv_state s None f \<Longrightarrow> unat s = readers f"
  by (simp add: rwspin_inv_state_def writer_part_simps)

lemma readers_bound: "rwspin_inv_local f \<Longrightarrow> readers f < 2 ^ 26"
  by (rule census_tasks) (auto simp: rwspin_inv_local_def)

lemma inv_state_write:
  assumes "rwspin_inv_state s l f" "lock_inv rwspin_locks l f" "rwspin_inv_local f"
  shows "f t = Write_lock \<Longrightarrow> l = None \<Longrightarrow> rwspin_inv_state s (Some t) (f(t := Write_pending))"
    and "f t = Write_pending \<Longrightarrow> rwspin_inv_state (s OR RW_STATE_WRITER_PENDING) l (f(t := Write_load))"
    and "f t = Write_cas \<Longrightarrow> s = RW_STATE_WRITER_PENDING \<Longrightarrow> rwspin_inv_state RW_STATE_WRITER_LOCKED l (f(t := Writing))"
    and "f t = Writing \<Longrightarrow> rwspin_inv_state (s AND NOT RW_STATE_WRITER_LOCKED) l (f(t := Write_unlock))"
    and "f t = Write_unlock \<Longrightarrow> p \<noteq> Reading \<Longrightarrow> writer_bits p = 0 \<Longrightarrow> rwspin_inv_state s None (f(t := p))"
proof -
  have l: "l = Some t" if "rwspin_locks (f t)" using assms(2) that by (simp add: lock_inv_def)
  note s = rwspin_inv_state_readers [OF assms(1,2), of t]
  show "rwspin_inv_state s (Some t) (f(t := Write_pending))" if "f t = Write_lock" "l = None"
    using that assms(1) by (intro inv_state_writer) (auto dest: inv_state_no_writer)
  show "rwspin_inv_state (s OR RW_STATE_WRITER_PENDING) l (f(t := Write_load))" if "f t = Write_pending"
    using that s l set_pending [of s] readers_bound [OF assms(3)] by (intro inv_state_writer) simp_all
  show "rwspin_inv_state RW_STATE_WRITER_LOCKED l (f(t := Writing))" if "f t = Write_cas" "s = RW_STATE_WRITER_PENDING"
    using that s l by (intro inv_state_writer) simp_all
  show "rwspin_inv_state (s AND NOT RW_STATE_WRITER_LOCKED) l (f(t := Write_unlock))" if "f t = Writing"
  proof -
    have "s = RW_STATE_WRITER_LOCKED" using that s by (intro word_unat_eq_iff [THEN iffD2]) simp
    then show ?thesis using that s l by (intro inv_state_writer) simp_all
  qed
  show "rwspin_inv_state s None (f(t := p))" if "f t = Write_unlock" "p \<noteq> Reading" "writer_bits p = 0"
    using that s by (intro inv_state_writer) simp_all
qed

lemmas rwspin_inv_state_rules = rwspin_inv_state_keep rwspin_inv_state_read rwspin_inv_state_unread inv_state_write [simplified]

lemma rwspin_inv_state_step:
  assumes "rwspin_inv_state (state m) (wait_lock m) (pc m)" "lock_inv rwspin_locks (wait_lock m) (pc m)" "rwspin_inv_local (pc m)" "rwspinlock_step m m'"
  shows "rwspin_inv_state (state m') (wait_lock m') (pc m')"
  using assms(4,1-3) by (elim rwspinlock_step_elims; simp add: rwspin_inv_state_rules)

lemma rwspinlock_init_inv: "rwspinlock_inv e (rwspinlock_init e)"
  by (simp add: rwspinlock_inv_def rwspinlock_init_def lock_inv_def rwspin_inv_state_def rwspin_inv_local_def inv_flags_def
      writer_part_simps census_0)

lemma rwspinlock_inv_step: "rwspinlock_inv e m \<Longrightarrow> rwspinlock_step m m' \<Longrightarrow> rwspinlock_inv e m'"
  unfolding rwspinlock_inv_def by (blast intro: rwspin_inv_lock_step rwspin_inv_state_step rwspin_inv_local_step inv_flags_step)

interpretation rwspin: shared_lock rwspinlock_step "rwspinlock_inv e" "\<lambda>m t. pc m t = Writing" "\<lambda>m t. pc m t = Reading"
proof unfold_locales
  fix m m' t u
  show "rwspinlock_inv e m \<Longrightarrow> rwspinlock_step m m' \<Longrightarrow> rwspinlock_inv e m'" by (rule rwspinlock_inv_step)
  show "t = u" if "rwspinlock_inv e m" "pc m t = Writing" "pc m u = Writing"
    using that lock_inv_unique [of rwspin_locks "wait_lock m" "pc m" t u] by (simp add: rwspinlock_inv_def)
  show "pc m u \<noteq> Reading" if "rwspinlock_inv e m" "pc m t = Writing"
    using that rwspin_inv_state_readers(2) [of _ _ "pc m" t] by (auto simp: rwspinlock_inv_def census_0)
qed

lemma state_mod: "rwspin_inv_state s l f \<Longrightarrow> rwspin_inv_local f \<Longrightarrow> unat (s AND RW_STATE_READER_MASK) = readers f"
  using unat_and_mask [of s 30] writer_part_range [of l f] readers_bound [of f]
  by (auto simp: rwspin_inv_state_def mask_eq_exp_minus_1)

text \<open>A writer that has announced itself is not overtaken: no task becomes a reader before it has had the lock.\<close>

lemma pending_blocks_readers:
  assumes "rwspinlock_inv e m" "pc m w \<in> {Write_load, Write_cas, Writing}" "rwspinlock_step m m'" "pc m' t = Reading"
  shows "pc m t = Reading"
proof -
  have "2 ^ 30 \<le> unat (state m)"
    using assms(1,2) rwspin_inv_state_readers(1) [of "state m" "wait_lock m" "pc m" w] by (auto simp: rwspinlock_inv_def)
  then have "pc m t \<noteq> Read_cas (state m)" for t
    using assms(1) local_read_cas [of "pc m" t "state m"] by (auto simp: rwspinlock_inv_def)
  then show ?thesis using assms(3,4)
    by (elim rwspinlock_step_elims; auto simp: return_to_def split: if_splits)
qed

text \<open>
  C31: In every interleaving of the operations of the spinning readers-writer lock, a task that holds it for writing is the only
  one and there are no readers, the low bits of the state word are the number of readers, and the processor flags are right: a task
  that is outside every call and does not hold the lock has no saved flags left and runs with exactly the flags it started with, so
  that every release with suffix \<open>_safe\<close> restores them, and a task between an acquisition and a release with suffix \<open>_safe\<close>
  runs with the same flags except that interrupts are off.
\<close>

theorem rwspinlock_exclusion:
  assumes "rwspinlock_step\<^sup>*\<^sup>* (rwspinlock_init e) m"
  shows "(pc m t = Writing \<longrightarrow> pc m u \<noteq> Reading \<and> (pc m u = Writing \<longrightarrow> u = t)) \<and>
    unat (state m AND RW_STATE_READER_MASK) = card {t. pc m t = Reading} \<and>
    (pc m t = Idle \<longrightarrow> flags m t = None \<and> eflags m t = e t) \<and>
    eflags m t = (if flags m t = None then e t else irq_disable (e t))"
proof -
  note inv = rwspin.reach_inv [OF assms rwspinlock_init_inv]
  have "flags_ok (e t) (flags m t) (eflags m t) (pc m t)" using inv by (simp add: rwspinlock_inv_def inv_flags_def)
  then show ?thesis
    using rwspin.readers_writer_exclusion [OF rwspinlock_init_inv assms] inv state_mod [of "state m" "wait_lock m" "pc m"]
    by (cases "flags m t") (auto simp: rwspinlock_inv_def census_def)
qed

text \<open>One task that reads with interrupts off.\<close>

definition one_task :: "u32 \<Rightarrow> rwspin_pc \<Rightarrow> rwspinlock" where
  "one_task s p = \<lparr>state = s, wait_lock = None, pc = (\<lambda>_. Idle)(64 := p), flags = [64 \<mapsto> 0x202], eflags = (\<lambda>_. 0x202)(64 := 2)\<rparr>"

lemma one_task_reading: "rwspinlock_step\<^sup>*\<^sup>* (rwspinlock_init (\<lambda>_. 0x202)) (one_task 1 Reading)"
proof -
  have task: "is_task 64" by (simp add: is_task_def)
  have "rwspinlock_step (rwspinlock_init (\<lambda>_. 0x202)) (one_task 0 Read_load)"
    using call_read_safe [OF task read_safe, of "rwspinlock_init (\<lambda>_. 0x202)"]
    by (simp add: rwspinlock_init_def one_task_def irq_save_def irq_disable_def)
  moreover have "rwspinlock_step (one_task 0 Read_load) (one_task 0 (Read_cas 0))"
    using in_acquire_read [OF task read_load, of "one_task 0 Read_load"] by (simp add: one_task_def)
  moreover have "rwspinlock_step (one_task 0 (Read_cas 0)) (one_task 1 Reading)"
    using in_acquire_read [OF task read_acquired, of "one_task 0 (Read_cas 0)" 0] by (simp add: one_task_def)
  ultimately show ?thesis by (meson rtranclp.intros)
qed

theorem rwspinlock_exclusion_witness:
  "pc (one_task 1 Reading) 64 = Reading \<and> card {t. pc (one_task 1 Reading) t = Reading} = 1 \<and>
    eflags (one_task 1 Reading) 64 = irq_disable 0x202"
  using rwspinlock_exclusion [OF one_task_reading, of 64] by (simp add: one_task_def)

end
