(* ===== verification/Percpu_rwspinlock.thy ===== *)
theory Percpu_rwspinlock
  imports Steps
begin

text \<open>
  The readers-writer spin lock with one reader count per processor of \<open>src/src/kernel/locking/rwspinlock.c\<close>, as a transition
  system. A reader announces itself on the count of its own processor and looks at the flag of the writer afterwards;
  a writer raises its flag and then waits for each count to become zero. The scheduler assigns a task to a processor once
  (\<open>sched_add\<close> in \<open>src/src/kernel/sched.cpp\<close>), so that \<open>hal_cpu_index\<close> is a function of the task. The variants with suffix
  \<open>_safe\<close> only add the handling of the interrupt flag that the theory \<open>Rwspinlock\<close> shows.
\<close>

section \<open>State\<close>

datatype percpu_pc =
    Idle
  | Read_check
  | Read_inc
  | Read_recheck
  | Reading
  | Read_dec
  | Read_wait
  | Write_lock
  | Write_store
  | Write_scan nat
  | Writing
  | Write_unlock

record percpu_rwspinlock =
  writer_active :: u32
  writer_mutex :: "u32 ptr"
  readers :: "nat \<Rightarrow> u32"
  pc :: "u32 \<Rightarrow> percpu_pc"

definition percpu_rwspinlock_init :: percpu_rwspinlock where
  "percpu_rwspinlock_init = \<lparr>writer_active = 0, writer_mutex = None, readers = (\<lambda>_. 0), pc = (\<lambda>_. Idle)\<rparr>"

abbreviation percpu_goto :: "u32 \<Rightarrow> percpu_pc \<Rightarrow> percpu_rwspinlock \<Rightarrow> percpu_rwspinlock" where
  "percpu_goto t p m \<equiv> m\<lparr>pc := (pc m)(t := p)\<rparr>"

text \<open>The index of the processor of a task, where an index out of range is taken as the first processor.\<close>

definition hal_cpu_index :: "(u32 \<Rightarrow> nat) \<Rightarrow> u32 \<Rightarrow> nat" where
  "hal_cpu_index cpu t = (if cpu t \<ge> MAX_CPUS then 0 else cpu t)"

section \<open>The code\<close>

inductive percpu_rwspinlock_acquire_read_step :: "(u32 \<Rightarrow> nat) \<Rightarrow> u32 \<Rightarrow> percpu_rwspinlock \<Rightarrow> percpu_rwspinlock \<Rightarrow> bool"
  for cpu t where
  read_spin: "pc m t = Read_check \<Longrightarrow> writer_active m \<noteq> 0 \<Longrightarrow> percpu_rwspinlock_acquire_read_step cpu t m m"
| read_check: "pc m t = Read_check \<Longrightarrow> writer_active m = 0 \<Longrightarrow>
    percpu_rwspinlock_acquire_read_step cpu t m (percpu_goto t Read_inc m)"
| read_inc: "pc m t = Read_inc \<Longrightarrow> c = hal_cpu_index cpu t \<Longrightarrow>
    percpu_rwspinlock_acquire_read_step cpu t m (percpu_goto t Read_recheck (m\<lparr>readers := (readers m)(c := readers m c + 1)\<rparr>))"
| read_acquired: "pc m t = Read_recheck \<Longrightarrow> writer_active m = 0 \<Longrightarrow>
    percpu_rwspinlock_acquire_read_step cpu t m (percpu_goto t Reading m)"
| read_backoff: "pc m t = Read_recheck \<Longrightarrow> writer_active m \<noteq> 0 \<Longrightarrow>
    percpu_rwspinlock_acquire_read_step cpu t m (percpu_goto t Read_dec m)"
| read_dec: "pc m t = Read_dec \<Longrightarrow> c = hal_cpu_index cpu t \<Longrightarrow>
    percpu_rwspinlock_acquire_read_step cpu t m (percpu_goto t Read_wait (m\<lparr>readers := (readers m)(c := readers m c - 1)\<rparr>))"
| read_wait: "pc m t = Read_wait \<Longrightarrow> writer_active m \<noteq> 0 \<Longrightarrow> percpu_rwspinlock_acquire_read_step cpu t m m"
| read_again: "pc m t = Read_wait \<Longrightarrow> writer_active m = 0 \<Longrightarrow>
    percpu_rwspinlock_acquire_read_step cpu t m (percpu_goto t Read_check m)"

inductive percpu_rwspinlock_release_read_step :: "(u32 \<Rightarrow> nat) \<Rightarrow> u32 \<Rightarrow> percpu_rwspinlock \<Rightarrow> percpu_rwspinlock \<Rightarrow> bool"
  for cpu t where
  read_release: "pc m t = Reading \<Longrightarrow> c = hal_cpu_index cpu t \<Longrightarrow>
    percpu_rwspinlock_release_read_step cpu t m (percpu_goto t Idle (m\<lparr>readers := (readers m)(c := readers m c - 1)\<rparr>))"

inductive percpu_rwspinlock_acquire_write_step :: "u32 \<Rightarrow> percpu_rwspinlock \<Rightarrow> percpu_rwspinlock \<Rightarrow> bool" where
  write_lock: "pc m t = Write_lock \<Longrightarrow> writer_mutex m = None \<Longrightarrow>
    percpu_rwspinlock_acquire_write_step t m (percpu_goto t Write_store (m\<lparr>writer_mutex := Some t\<rparr>))"
| write_store: "pc m t = Write_store \<Longrightarrow>
    percpu_rwspinlock_acquire_write_step t m (percpu_goto t (Write_scan 0) (m\<lparr>writer_active := 1\<rparr>))"
| write_wait: "pc m t = Write_scan i \<Longrightarrow> i < MAX_CPUS \<Longrightarrow> readers m i \<noteq> 0 \<Longrightarrow>
    percpu_rwspinlock_acquire_write_step t m m"
| write_scan: "pc m t = Write_scan i \<Longrightarrow> i < MAX_CPUS \<Longrightarrow> readers m i = 0 \<Longrightarrow>
    percpu_rwspinlock_acquire_write_step t m (percpu_goto t (Write_scan (Suc i)) m)"
| write_acquired: "pc m t = Write_scan i \<Longrightarrow> i \<ge> MAX_CPUS \<Longrightarrow>
    percpu_rwspinlock_acquire_write_step t m (percpu_goto t Writing m)"

inductive percpu_rwspinlock_release_write_step :: "u32 \<Rightarrow> percpu_rwspinlock \<Rightarrow> percpu_rwspinlock \<Rightarrow> bool" where
  write_release: "pc m t = Writing \<Longrightarrow>
    percpu_rwspinlock_release_write_step t m (percpu_goto t Write_unlock (m\<lparr>writer_active := 0\<rparr>))"
| write_unlock: "pc m t = Write_unlock \<Longrightarrow>
    percpu_rwspinlock_release_write_step t m (percpu_goto t Idle (m\<lparr>writer_mutex := None\<rparr>))"

inductive percpu_rwspinlock_step :: "(u32 \<Rightarrow> nat) \<Rightarrow> percpu_rwspinlock \<Rightarrow> percpu_rwspinlock \<Rightarrow> bool" for cpu where
  call_read: "is_task t \<Longrightarrow> pc m t = Idle \<Longrightarrow> percpu_rwspinlock_step cpu m (percpu_goto t Read_check m)"
| call_write: "is_task t \<Longrightarrow> pc m t = Idle \<Longrightarrow> percpu_rwspinlock_step cpu m (percpu_goto t Write_lock m)"
| in_acquire_read: "is_task t \<Longrightarrow> percpu_rwspinlock_acquire_read_step cpu t m m' \<Longrightarrow> percpu_rwspinlock_step cpu m m'"
| in_release_read: "is_task t \<Longrightarrow> percpu_rwspinlock_release_read_step cpu t m m' \<Longrightarrow> percpu_rwspinlock_step cpu m m'"
| in_acquire_write: "is_task t \<Longrightarrow> percpu_rwspinlock_acquire_write_step t m m' \<Longrightarrow> percpu_rwspinlock_step cpu m m'"
| in_release_write: "is_task t \<Longrightarrow> percpu_rwspinlock_release_write_step t m m' \<Longrightarrow> percpu_rwspinlock_step cpu m m'"

section \<open>The invariant\<close>

fun percpu_locks :: "percpu_pc \<Rightarrow> bool" where
  "percpu_locks (Write_scan _) = True"
| "percpu_locks p = (p \<in> {Write_store, Writing, Write_unlock})"

text \<open>The places between the increment of the count of the processor and its decrement, and those of an announced writer.\<close>

fun counted :: "percpu_pc \<Rightarrow> bool" where
  "counted p = (p \<in> {Read_recheck, Reading, Read_dec})"

fun announced :: "percpu_pc \<Rightarrow> bool" where
  "announced (Write_scan _) = True"
| "announced p = (p = Writing)"

abbreviation on_cpu :: "(u32 \<Rightarrow> nat) \<Rightarrow> nat \<Rightarrow> (u32 \<Rightarrow> percpu_pc) \<Rightarrow> nat" where
  "on_cpu cpu c \<equiv> census (\<lambda>t p. hal_cpu_index cpu t = c \<and> counted p)"

definition inv_readers :: "(u32 \<Rightarrow> nat) \<Rightarrow> (nat \<Rightarrow> u32) \<Rightarrow> (u32 \<Rightarrow> percpu_pc) \<Rightarrow> bool" where
  "inv_readers cpu r f \<longleftrightarrow> (\<forall>c. unat (r c) = on_cpu cpu c f)"

definition inv_active :: "u32 \<Rightarrow> (u32 \<Rightarrow> percpu_pc) \<Rightarrow> bool" where
  "inv_active a f \<longleftrightarrow> (a \<noteq> 0 \<longleftrightarrow> (\<exists>t. announced (f t)))"

text \<open>A writer has passed the processors on which nobody reads any more.\<close>

fun passed :: "percpu_pc \<Rightarrow> nat" where
  "passed (Write_scan i) = i"
| "passed Writing = MAX_CPUS"
| "passed p = 0"

definition inv_scan :: "(u32 \<Rightarrow> nat) \<Rightarrow> (u32 \<Rightarrow> percpu_pc) \<Rightarrow> bool" where
  "inv_scan cpu f \<longleftrightarrow> (\<forall>w t. f t = Reading \<longrightarrow> passed (f w) \<le> hal_cpu_index cpu t)"

definition inv_task :: "(u32 \<Rightarrow> percpu_pc) \<Rightarrow> bool" where
  "inv_task f \<longleftrightarrow> (\<forall>t. f t \<noteq> Idle \<longrightarrow> is_task t)"

definition percpu_inv :: "(u32 \<Rightarrow> nat) \<Rightarrow> percpu_rwspinlock \<Rightarrow> bool" where
  "percpu_inv cpu m \<longleftrightarrow> lock_inv percpu_locks (writer_mutex m) (pc m) \<and> inv_readers cpu (readers m) (pc m) \<and>
     inv_active (writer_active m) (pc m) \<and> inv_scan cpu (pc m) \<and> inv_task (pc m)"

section \<open>Preservation\<close>

lemmas percpu_step_elims = percpu_rwspinlock_step.cases percpu_rwspinlock_acquire_read_step.cases
  percpu_rwspinlock_release_read_step.cases percpu_rwspinlock_acquire_write_step.cases
  percpu_rwspinlock_release_write_step.cases

lemma percpu_inv_lock_step:
  "lock_inv percpu_locks (writer_mutex m) (pc m) \<Longrightarrow> percpu_rwspinlock_step cpu m m' \<Longrightarrow> lock_inv percpu_locks (writer_mutex m') (pc m')"
  by (elim percpu_step_elims; auto simp: lock_inv_rules)

lemma inv_task_step: "inv_task (pc m) \<Longrightarrow> percpu_rwspinlock_step cpu m m' \<Longrightarrow> inv_task (pc m')"
  by (elim percpu_step_elims; auto simp: inv_task_def)

lemma inv_readers_keep: "inv_readers cpu r f \<Longrightarrow> counted p = counted (f t) \<Longrightarrow> inv_readers cpu r (f(t := p))"
  by (simp add: inv_readers_def census_same del: counted.simps)

lemma inv_readers_inc:
  assumes "inv_readers cpu r f" "inv_task f" "\<not> counted (f t)" "counted p" "c = hal_cpu_index cpu t"
  shows "inv_readers cpu (r(c := r c + 1)) (f(t := p))"
proof -
  have "on_cpu cpu c f < 2 ^ 26" using assms(2) by (intro census_tasks) (auto simp: inv_task_def)
  then have "unat (r c + 1) = on_cpu cpu c (f(t := p))"
    using assms by (simp add: inv_readers_def census_in unat_add_no_overflow del: counted.simps)
  then show ?thesis using assms by (auto simp: inv_readers_def census_same simp del: counted.simps)
qed

lemma inv_readers_dec:
  assumes "inv_readers cpu r f" "counted (f t)" "\<not> counted p" "c = hal_cpu_index cpu t"
  shows "inv_readers cpu (r(c := r c - 1)) (f(t := p))"
proof -
  have "on_cpu cpu c f = Suc (on_cpu cpu c (f(t := p)))" by (rule census_out) (use assms in simp_all)
  then have "unat (r c - 1) = on_cpu cpu c (f(t := p))"
    using assms(1) by (subst unat_sub) (auto simp: inv_readers_def word_le_nat_alt)
  then show ?thesis using assms by (auto simp: inv_readers_def census_same simp del: counted.simps)
qed

lemma inv_readers_step:
  "inv_readers cpu (readers m) (pc m) \<Longrightarrow> inv_task (pc m) \<Longrightarrow> percpu_rwspinlock_step cpu m m' \<Longrightarrow>
    inv_readers cpu (readers m') (pc m')"
  by (elim percpu_step_elims; simp add: inv_readers_keep inv_readers_inc inv_readers_dec)

lemma announced_locks: "announced p \<Longrightarrow> percpu_locks p"
  by (cases p) simp_all

lemma inv_active_keep: "inv_active a f \<Longrightarrow> announced p = announced (f t) \<Longrightarrow> inv_active a (f(t := p))"
  unfolding inv_active_def by (metis fun_upd_apply)

lemma inv_active_raise: "announced p \<Longrightarrow> inv_active 1 (f(t := p))"
  unfolding inv_active_def by (metis fun_upd_same zero_neq_one)

lemma inv_active_lower: "lock_inv percpu_locks l f \<Longrightarrow> announced (f t) \<Longrightarrow> \<not> announced p \<Longrightarrow> inv_active 0 (f(t := p))"
  unfolding inv_active_def by (metis announced_locks fun_upd_apply lock_inv_unique)

lemma inv_active_step:
  "inv_active (writer_active m) (pc m) \<Longrightarrow> lock_inv percpu_locks (writer_mutex m) (pc m) \<Longrightarrow> percpu_rwspinlock_step cpu m m' \<Longrightarrow>
    inv_active (writer_active m') (pc m')"
  by (elim percpu_step_elims; simp add: inv_active_keep inv_active_raise inv_active_lower)

lemma passed_announced: "\<not> announced p \<Longrightarrow> passed p = 0"
  by (cases p) simp_all

lemma inv_scan_keep: "inv_scan cpu f \<Longrightarrow> p \<noteq> Reading \<Longrightarrow> passed p \<le> passed (f t) \<Longrightarrow> inv_scan cpu (f(t := p))"
  unfolding inv_scan_def by (metis fun_upd_apply order_trans)

lemma inv_scan_enter: "inv_scan cpu f \<Longrightarrow> inv_active 0 f \<Longrightarrow> inv_scan cpu (f(t := Reading))"
  by (auto simp: inv_scan_def inv_active_def passed_announced)

lemma inv_scan_next:
  assumes "inv_scan cpu f" "inv_readers cpu r f" "f t = Write_scan i" "r i = 0"
  shows "inv_scan cpu (f(t := Write_scan (Suc i)))"
proof -
  have "\<not> (hal_cpu_index cpu u = i \<and> counted (f u))" for u
    using assms(2,4) census_0 [of "\<lambda>t p. hal_cpu_index cpu t = i \<and> counted p" f] unfolding inv_readers_def by (metis unsigned_0)
  moreover have "i \<le> hal_cpu_index cpu u" if "f u = Reading" for u
    using assms(1,3) that unfolding inv_scan_def by (metis passed.simps(1))
  ultimately show ?thesis using assms(1) by (fastforce simp: inv_scan_def le_eq_less_or_eq)
qed

lemma inv_scan_step:
  "inv_scan cpu (pc m) \<Longrightarrow> inv_readers cpu (readers m) (pc m) \<Longrightarrow> inv_active (writer_active m) (pc m) \<Longrightarrow>
    percpu_rwspinlock_step cpu m m' \<Longrightarrow> inv_scan cpu (pc m')"
  by (elim percpu_step_elims; simp add: inv_scan_keep inv_scan_enter inv_scan_next)

lemma percpu_init_inv: "percpu_inv cpu percpu_rwspinlock_init"
  by (simp add: percpu_inv_def percpu_rwspinlock_init_def lock_inv_def inv_readers_def inv_active_def inv_scan_def inv_task_def
      census_0)

lemma percpu_inv_step: "percpu_inv cpu m \<Longrightarrow> percpu_rwspinlock_step cpu m m' \<Longrightarrow> percpu_inv cpu m'"
  unfolding percpu_inv_def
  by (blast intro: percpu_inv_lock_step inv_readers_step inv_active_step inv_scan_step inv_task_step)

interpretation percpu: shared_lock "percpu_rwspinlock_step cpu" "percpu_inv cpu" "\<lambda>m t. pc m t = Writing" "\<lambda>m t. pc m t = Reading"
proof unfold_locales
  fix m m' t u
  show "percpu_inv cpu m \<Longrightarrow> percpu_rwspinlock_step cpu m m' \<Longrightarrow> percpu_inv cpu m'" by (rule percpu_inv_step)
  show "t = u" if "percpu_inv cpu m" "pc m t = Writing" "pc m u = Writing"
    using that lock_inv_unique [of percpu_locks "writer_mutex m" "pc m" t u] by (simp add: percpu_inv_def)
  show "pc m u \<noteq> Reading" if "percpu_inv cpu m" "pc m t = Writing"
  proof
    assume "pc m u = Reading"
    then have "MAX_CPUS \<le> hal_cpu_index cpu u" using that unfolding percpu_inv_def inv_scan_def by (metis passed.simps(2))
    then show False by (simp add: hal_cpu_index_def split: if_splits)
  qed
qed

text \<open>
  C32: In every interleaving of the operations of the lock with one reader count per processor, a task that holds it for
  writing is the only one and there are no readers, and a processor whose count is zero has no readers.
\<close>

theorem percpu_rwspinlock_exclusion:
  assumes "(percpu_rwspinlock_step cpu)\<^sup>*\<^sup>* percpu_rwspinlock_init m"
  shows "(pc m t = Writing \<longrightarrow> pc m u \<noteq> Reading \<and> (pc m u = Writing \<longrightarrow> u = t)) \<and>
    unat (readers m c) = card {t. hal_cpu_index cpu t = c \<and> pc m t \<in> {Read_recheck, Reading, Read_dec}}"
proof -
  note inv = percpu.reach_inv [OF assms percpu_init_inv]
  then have "unat (readers m c) = on_cpu cpu c (pc m)" by (simp add: percpu_inv_def inv_readers_def del: counted.simps)
  then show ?thesis
    using percpu.readers_writer_exclusion [OF percpu_init_inv assms] unfolding census_def counted.simps by blast
qed

text \<open>A writer that had to wait for the reader on the first processor.\<close>

definition reader_writer :: "u32 \<Rightarrow> u32 ptr \<Rightarrow> (nat \<Rightarrow> u32) \<Rightarrow> percpu_pc \<Rightarrow> percpu_pc \<Rightarrow> percpu_rwspinlock" where
  "reader_writer a l r p q = \<lparr>writer_active = a, writer_mutex = l, readers = r, pc = (\<lambda>_. Idle)(64 := p, 128 := q)\<rparr>"

lemma reader_writer_simps:
  "writer_active (reader_writer a l r p q) = a" "writer_mutex (reader_writer a l r p q) = l" "readers (reader_writer a l r p q) = r"
  "pc (reader_writer a l r p q) 64 = p" "pc (reader_writer a l r p q) 128 = q"
  "(reader_writer a l r p q)\<lparr>writer_active := a'\<rparr> = reader_writer a' l r p q"
  "(reader_writer a l r p q)\<lparr>writer_mutex := l'\<rparr> = reader_writer a l' r p q"
  "(reader_writer a l r p q)\<lparr>readers := r'\<rparr> = reader_writer a l r' p q"
  "(reader_writer a l r p q)\<lparr>pc := (pc (reader_writer a l r p q))(64 := p')\<rparr> = reader_writer a l r p' q"
  "(reader_writer a l r p q)\<lparr>pc := (pc (reader_writer a l r p q))(128 := q')\<rparr> = reader_writer a l r p q'"
  "percpu_rwspinlock_init = reader_writer 0 None (\<lambda>_. 0) Idle Idle" "is_task 64" "is_task 128" "hal_cpu_index (\<lambda>_. 0) t = 0"
  by (auto simp: reader_writer_def percpu_rwspinlock_init_def is_task_def hal_cpu_index_def)

lemma reader_writer_waiting:
  "(percpu_rwspinlock_step (\<lambda>_. 0))\<^sup>*\<^sup>* percpu_rwspinlock_init (reader_writer 1 (Some 128) ((\<lambda>_. 0)(0 := 1)) Reading (Write_scan 0))"
proof -
  let ?r = "(\<lambda>_. 0)(0 := 1)" and ?step = "percpu_rwspinlock_step (\<lambda>_. 0)"
  note task = reader_writer_simps(12,13)
  have "?step percpu_rwspinlock_init (reader_writer 0 None (\<lambda>_. 0) Read_check Idle)"
    using call_read [OF task(1), of percpu_rwspinlock_init] by (simp add: reader_writer_simps)
  moreover have "?step (reader_writer 0 None (\<lambda>_. 0) Read_check Idle) (reader_writer 0 None (\<lambda>_. 0) Read_inc Idle)"
    using in_acquire_read [OF task(1) read_check, of "reader_writer 0 None (\<lambda>_. 0) Read_check Idle"] by (simp add: reader_writer_simps)
  moreover have "?step (reader_writer 0 None (\<lambda>_. 0) Read_inc Idle) (reader_writer 0 None ?r Read_recheck Idle)"
    using in_acquire_read [OF task(1) read_inc, of "reader_writer 0 None (\<lambda>_. 0) Read_inc Idle" 0 "\<lambda>_. 0"] by (simp add: reader_writer_simps)
  moreover have "?step (reader_writer 0 None ?r Read_recheck Idle) (reader_writer 0 None ?r Reading Idle)"
    using in_acquire_read [OF task(1) read_acquired, of "reader_writer 0 None ?r Read_recheck Idle"] by (simp add: reader_writer_simps)
  moreover have "?step (reader_writer 0 None ?r Reading Idle) (reader_writer 0 None ?r Reading Write_lock)"
    using call_write [OF task(2), of "reader_writer 0 None ?r Reading Idle"] by (simp add: reader_writer_simps)
  moreover have "?step (reader_writer 0 None ?r Reading Write_lock) (reader_writer 0 (Some 128) ?r Reading Write_store)"
    using in_acquire_write [OF task(2) write_lock, of "reader_writer 0 None ?r Reading Write_lock"] by (simp add: reader_writer_simps)
  moreover have "?step (reader_writer 0 (Some 128) ?r Reading Write_store) (reader_writer 1 (Some 128) ?r Reading (Write_scan 0))"
    using in_acquire_write [OF task(2) write_store, of "reader_writer 0 (Some 128) ?r Reading Write_store"]
    by (simp add: reader_writer_simps)
  ultimately show ?thesis by (meson rtranclp.intros)
qed

theorem percpu_rwspinlock_exclusion_witness:
  "\<exists>m. m = reader_writer 1 (Some 128) ((\<lambda>_. 0)(0 := 1)) Reading (Write_scan 0) \<and>
    card {t. pc m t \<in> {Read_recheck, Reading, Read_dec}} = 1 \<and> pc m 64 = Reading"
  using percpu_rwspinlock_exclusion [OF reader_writer_waiting, of 64 128 0] by (simp add: reader_writer_simps)

end
