(* ===== verification/Rwlock.thy ===== *)
theory Rwlock
  imports Steps
begin

text \<open>
  The sleeping readers-writer lock of \<open>src/src/kernel/locking/rwlock.c\<close> as a transition system. Bit 31 of the state word is
  the writer, bits 30 and 29 say that writers or readers wait, the others count the readers. Here
  \<open>sched_yield\<close> may return at any time, which includes every wake-up, and a task that is dying is not enqueued.
\<close>

section \<open>State\<close>

datatype rwlock_pc =
    Idle
  | Read_load
  | Read_cas u32
  | Read_spin
  | Read_spin_load
  | Read_spin_cas u32
  | Read_lock
  | Read_slow_load
  | Read_retry
  | Read_flag
  | Read_enqueue
  | Read_unlock
  | Read_yield
  | Read_relock
  | Read_cancel
  | Read_unlock_again
  | Reading
  | Write_fast
  | Write_spin
  | Write_spin_load
  | Write_spin_cas u32
  | Write_lock
  | Write_slow_load
  | Write_retry
  | Write_flag
  | Write_enqueue
  | Write_unlock
  | Write_yield
  | Write_relock
  | Write_cancel
  | Write_unlock_again
  | Write_owner
  | Writing
  | Write_release
  | Wake_lock
  | Wake_dequeue
  | Wake_clear_writer u32
  | Wake_clear_reader "u32 list"
  | Wake_unlock "u32 list"
  | Wake_tasks "u32 list"
  | Panic

record rwlock =
  state :: u32
  writer_owner :: u32
  wait_lock :: "u32 ptr"
  read_waitq :: "u32 list"
  write_waitq :: "u32 list"
  pc :: "u32 \<Rightarrow> rwlock_pc"

abbreviation RWLOCK_WRITER :: u32 where
  "RWLOCK_WRITER \<equiv> 0x80000000"

abbreviation RWLOCK_WAITING_WRITER :: u32 where
  "RWLOCK_WAITING_WRITER \<equiv> 0x40000000"

abbreviation RWLOCK_WAITING_READER :: u32 where
  "RWLOCK_WAITING_READER \<equiv> 0x20000000"

abbreviation RWLOCK_READER_MASK :: u32 where
  "RWLOCK_READER_MASK \<equiv> 0x1FFFFFFF"

definition rwlock_init :: rwlock where
  "rwlock_init = \<lparr>state = 0, writer_owner = 0, wait_lock = None, read_waitq = [], write_waitq = [], pc = (\<lambda>_. Idle)\<rparr>"

abbreviation rwlock_goto :: "u32 \<Rightarrow> rwlock_pc \<Rightarrow> rwlock \<Rightarrow> rwlock" where
  "rwlock_goto t p m \<equiv> m\<lparr>pc := (pc m)(t := p)\<rparr>"

text \<open>The conditions under which a reader or a writer may take the lock.\<close>

definition read_free :: "u32 \<Rightarrow> bool" where
  "read_free s \<longleftrightarrow> s AND (RWLOCK_WRITER OR RWLOCK_WAITING_WRITER) = 0"

definition write_free :: "u32 \<Rightarrow> bool" where
  "write_free s \<longleftrightarrow> s AND RWLOCK_WRITER = 0 \<and> s AND RWLOCK_READER_MASK = 0"

section \<open>The code\<close>

text \<open>
  \<open>rwlock_spin_on_writer\<close>: at most 1024 rounds, each of which observes the state word, the owner word and whether the
  owning task runs.
\<close>

fun rwlock_spin_on_writer :: "(u32 \<times> u32 \<times> bool) list \<Rightarrow> nat \<Rightarrow> bool option" where
  "rwlock_spin_on_writer obs i =
     (if i \<ge> 1024 then Some False
      else case obs of
        [] \<Rightarrow> None
      | (s, owner_val, running) # obs' \<Rightarrow>
          if s AND RWLOCK_WRITER = 0 then Some True
          else if owner_val \<noteq> 0 \<and> \<not> running then Some False
          else rwlock_spin_on_writer obs' (Suc i))"

text \<open>The fast path for readers, where a failed compare and exchange loads the state word again.\<close>

inductive rwlock_acquire_read_step :: "u32 \<Rightarrow> rwlock \<Rightarrow> rwlock \<Rightarrow> bool" for t where
  read_load: "pc m t = Read_load \<Longrightarrow> read_free (state m) \<Longrightarrow> rwlock_acquire_read_step t m (rwlock_goto t (Read_cas (state m)) m)"
| read_busy: "pc m t = Read_load \<Longrightarrow> \<not> read_free (state m) \<Longrightarrow> rwlock_acquire_read_step t m (rwlock_goto t Read_spin m)"
| read_acquired: "pc m t = Read_cas s \<Longrightarrow> state m = s \<Longrightarrow>
    rwlock_acquire_read_step t m (rwlock_goto t Reading (m\<lparr>state := s + 1\<rparr>))"
| read_reload: "pc m t = Read_cas s \<Longrightarrow> state m \<noteq> s \<Longrightarrow> read_free (state m) \<Longrightarrow>
    rwlock_acquire_read_step t m (rwlock_goto t (Read_cas (state m)) m)"
| read_lost: "pc m t = Read_cas s \<Longrightarrow> state m \<noteq> s \<Longrightarrow> \<not> read_free (state m) \<Longrightarrow>
    rwlock_acquire_read_step t m (rwlock_goto t Read_spin m)"

inductive rwlock_acquire_read_slowpath_step :: "u32 \<Rightarrow> rwlock \<Rightarrow> rwlock \<Rightarrow> bool" for t where
  spin_free: "pc m t = Read_spin \<Longrightarrow> state m AND RWLOCK_WRITER = 0 \<Longrightarrow>
    rwlock_acquire_read_slowpath_step t m (rwlock_goto t Read_spin_load m)"
| spin_end: "pc m t = Read_spin \<Longrightarrow> rwlock_acquire_read_slowpath_step t m (rwlock_goto t Read_lock m)"
| spin_load: "pc m t = Read_spin_load \<Longrightarrow> read_free (state m) \<Longrightarrow>
    rwlock_acquire_read_slowpath_step t m (rwlock_goto t (Read_spin_cas (state m)) m)"
| spin_busy: "pc m t = Read_spin_load \<Longrightarrow> \<not> read_free (state m) \<Longrightarrow>
    rwlock_acquire_read_slowpath_step t m (rwlock_goto t Read_lock m)"
| spin_acquired: "pc m t = Read_spin_cas s \<Longrightarrow> state m = s \<Longrightarrow>
    rwlock_acquire_read_slowpath_step t m (rwlock_goto t Reading (m\<lparr>state := s + 1\<rparr>))"
| spin_lost: "pc m t = Read_spin_cas s \<Longrightarrow> state m \<noteq> s \<Longrightarrow>
    rwlock_acquire_read_slowpath_step t m (rwlock_goto t Read_spin m)"
| lock: "pc m t = Read_lock \<Longrightarrow> wait_lock m = None \<Longrightarrow>
    rwlock_acquire_read_slowpath_step t m (rwlock_goto t Read_slow_load (m\<lparr>wait_lock := Some t\<rparr>))"
| load_free: "pc m t = Read_slow_load \<Longrightarrow> read_free (state m) \<Longrightarrow>
    rwlock_acquire_read_slowpath_step t m (rwlock_goto t Read_retry m)"
| load_unflagged: "pc m t = Read_slow_load \<Longrightarrow> \<not> read_free (state m) \<Longrightarrow> state m AND RWLOCK_WAITING_READER = 0 \<Longrightarrow>
    rwlock_acquire_read_slowpath_step t m (rwlock_goto t Read_flag m)"
| load_flagged: "pc m t = Read_slow_load \<Longrightarrow> \<not> read_free (state m) \<Longrightarrow> state m AND RWLOCK_WAITING_READER \<noteq> 0 \<Longrightarrow>
    rwlock_acquire_read_slowpath_step t m (rwlock_goto t Read_enqueue m)"
| retry: "pc m t = Read_retry \<Longrightarrow> rwlock_acquire_read_slowpath_step t m (rwlock_goto t Read_spin (m\<lparr>wait_lock := None\<rparr>))"
| flag: "pc m t = Read_flag \<Longrightarrow>
    rwlock_acquire_read_slowpath_step t m (rwlock_goto t Read_enqueue (m\<lparr>state := state m OR RWLOCK_WAITING_READER\<rparr>))"
| enqueue_linked: "pc m t = Read_enqueue \<Longrightarrow> t \<in> set (read_waitq m) \<union> set (write_waitq m) \<Longrightarrow>
    rwlock_acquire_read_slowpath_step t m (rwlock_goto t Panic m)"
| enqueue: "pc m t = Read_enqueue \<Longrightarrow> t \<notin> set (read_waitq m) \<union> set (write_waitq m) \<Longrightarrow>
    rwlock_acquire_read_slowpath_step t m (rwlock_goto t Read_unlock (m\<lparr>read_waitq := read_waitq m @ [t]\<rparr>))"
| enqueue_refused: "pc m t = Read_enqueue \<Longrightarrow> t \<notin> set (read_waitq m) \<union> set (write_waitq m) \<Longrightarrow>
    rwlock_acquire_read_slowpath_step t m (rwlock_goto t Read_unlock m)"
| unlock: "pc m t = Read_unlock \<Longrightarrow> rwlock_acquire_read_slowpath_step t m (rwlock_goto t Read_yield (m\<lparr>wait_lock := None\<rparr>))"
| yield: "pc m t = Read_yield \<Longrightarrow> rwlock_acquire_read_slowpath_step t m (rwlock_goto t Read_relock m)"
| relock: "pc m t = Read_relock \<Longrightarrow> wait_lock m = None \<Longrightarrow>
    rwlock_acquire_read_slowpath_step t m (rwlock_goto t Read_cancel (m\<lparr>wait_lock := Some t\<rparr>))"
| cancel: "pc m t = Read_cancel \<Longrightarrow>
    rwlock_acquire_read_slowpath_step t m (rwlock_goto t Read_unlock_again (m\<lparr>read_waitq := filter (\<lambda>u. u \<noteq> t) (read_waitq m)\<rparr>))"
| unlock_again: "pc m t = Read_unlock_again \<Longrightarrow>
    rwlock_acquire_read_slowpath_step t m (rwlock_goto t Read_spin (m\<lparr>wait_lock := None\<rparr>))"

text \<open>The last reader wakes waiters if it sees the flag of a waiting writer.\<close>

inductive rwlock_release_read_step :: "u32 \<Rightarrow> rwlock \<Rightarrow> rwlock \<Rightarrow> bool" for t where
  read_release: "pc m t = Reading \<Longrightarrow>
    p = (if state m AND RWLOCK_READER_MASK = 1 \<and> state m AND RWLOCK_WAITING_WRITER \<noteq> 0 then Wake_lock else Idle) \<Longrightarrow>
    rwlock_release_read_step t m (rwlock_goto t p (m\<lparr>state := state m - 1\<rparr>))"

inductive rwlock_acquire_write_step :: "u32 \<Rightarrow> rwlock \<Rightarrow> rwlock \<Rightarrow> bool" for t where
  write_acquired: "pc m t = Write_fast \<Longrightarrow> state m = 0 \<Longrightarrow>
    rwlock_acquire_write_step t m (rwlock_goto t Write_owner (m\<lparr>state := RWLOCK_WRITER\<rparr>))"
| write_busy: "pc m t = Write_fast \<Longrightarrow> state m \<noteq> 0 \<Longrightarrow> rwlock_acquire_write_step t m (rwlock_goto t Write_spin m)"
| write_owner: "pc m t = Write_owner \<Longrightarrow> rwlock_acquire_write_step t m (rwlock_goto t Writing (m\<lparr>writer_owner := t\<rparr>))"

inductive rwlock_acquire_write_slowpath_step :: "u32 \<Rightarrow> rwlock \<Rightarrow> rwlock \<Rightarrow> bool" for t where
  wspin_free: "pc m t = Write_spin \<Longrightarrow> state m AND RWLOCK_WRITER = 0 \<Longrightarrow>
    rwlock_acquire_write_slowpath_step t m (rwlock_goto t Write_spin_load m)"
| wspin_end: "pc m t = Write_spin \<Longrightarrow> rwlock_acquire_write_slowpath_step t m (rwlock_goto t Write_lock m)"
| wspin_load: "pc m t = Write_spin_load \<Longrightarrow> write_free (state m) \<Longrightarrow>
    rwlock_acquire_write_slowpath_step t m (rwlock_goto t (Write_spin_cas (state m)) m)"
| wspin_busy: "pc m t = Write_spin_load \<Longrightarrow> \<not> write_free (state m) \<Longrightarrow>
    rwlock_acquire_write_slowpath_step t m (rwlock_goto t Write_lock m)"
| wspin_acquired: "pc m t = Write_spin_cas s \<Longrightarrow> state m = s \<Longrightarrow>
    rwlock_acquire_write_slowpath_step t m (rwlock_goto t Write_owner (m\<lparr>state := s OR RWLOCK_WRITER\<rparr>))"
| wspin_lost: "pc m t = Write_spin_cas s \<Longrightarrow> state m \<noteq> s \<Longrightarrow>
    rwlock_acquire_write_slowpath_step t m (rwlock_goto t Write_spin m)"
| wlock: "pc m t = Write_lock \<Longrightarrow> wait_lock m = None \<Longrightarrow>
    rwlock_acquire_write_slowpath_step t m (rwlock_goto t Write_slow_load (m\<lparr>wait_lock := Some t\<rparr>))"
| wload_free: "pc m t = Write_slow_load \<Longrightarrow> write_free (state m) \<Longrightarrow>
    rwlock_acquire_write_slowpath_step t m (rwlock_goto t Write_retry m)"
| wload_unflagged: "pc m t = Write_slow_load \<Longrightarrow> \<not> write_free (state m) \<Longrightarrow> state m AND RWLOCK_WAITING_WRITER = 0 \<Longrightarrow>
    rwlock_acquire_write_slowpath_step t m (rwlock_goto t Write_flag m)"
| wload_flagged: "pc m t = Write_slow_load \<Longrightarrow> \<not> write_free (state m) \<Longrightarrow> state m AND RWLOCK_WAITING_WRITER \<noteq> 0 \<Longrightarrow>
    rwlock_acquire_write_slowpath_step t m (rwlock_goto t Write_enqueue m)"
| wretry: "pc m t = Write_retry \<Longrightarrow> rwlock_acquire_write_slowpath_step t m (rwlock_goto t Write_spin (m\<lparr>wait_lock := None\<rparr>))"
| wflag: "pc m t = Write_flag \<Longrightarrow>
    rwlock_acquire_write_slowpath_step t m (rwlock_goto t Write_enqueue (m\<lparr>state := state m OR RWLOCK_WAITING_WRITER\<rparr>))"
| wenqueue_linked: "pc m t = Write_enqueue \<Longrightarrow> t \<in> set (read_waitq m) \<union> set (write_waitq m) \<Longrightarrow>
    rwlock_acquire_write_slowpath_step t m (rwlock_goto t Panic m)"
| wenqueue: "pc m t = Write_enqueue \<Longrightarrow> t \<notin> set (read_waitq m) \<union> set (write_waitq m) \<Longrightarrow>
    rwlock_acquire_write_slowpath_step t m (rwlock_goto t Write_unlock (m\<lparr>write_waitq := write_waitq m @ [t]\<rparr>))"
| wenqueue_refused: "pc m t = Write_enqueue \<Longrightarrow> t \<notin> set (read_waitq m) \<union> set (write_waitq m) \<Longrightarrow>
    rwlock_acquire_write_slowpath_step t m (rwlock_goto t Write_unlock m)"
| wunlock: "pc m t = Write_unlock \<Longrightarrow> rwlock_acquire_write_slowpath_step t m (rwlock_goto t Write_yield (m\<lparr>wait_lock := None\<rparr>))"
| wyield: "pc m t = Write_yield \<Longrightarrow> rwlock_acquire_write_slowpath_step t m (rwlock_goto t Write_relock m)"
| wrelock: "pc m t = Write_relock \<Longrightarrow> wait_lock m = None \<Longrightarrow>
    rwlock_acquire_write_slowpath_step t m (rwlock_goto t Write_cancel (m\<lparr>wait_lock := Some t\<rparr>))"
| wcancel: "pc m t = Write_cancel \<Longrightarrow>
    rwlock_acquire_write_slowpath_step t m (rwlock_goto t Write_unlock_again (m\<lparr>write_waitq := filter (\<lambda>u. u \<noteq> t) (write_waitq m)\<rparr>))"
| wunlock_again: "pc m t = Write_unlock_again \<Longrightarrow>
    rwlock_acquire_write_slowpath_step t m (rwlock_goto t Write_spin (m\<lparr>wait_lock := None\<rparr>))"

inductive rwlock_release_write_step :: "u32 \<Rightarrow> rwlock \<Rightarrow> rwlock \<Rightarrow> bool" for t where
  write_disown: "pc m t = Writing \<Longrightarrow> rwlock_release_write_step t m (rwlock_goto t Write_release (m\<lparr>writer_owner := 0\<rparr>))"
| write_release: "pc m t = Write_release \<Longrightarrow>
    p = (if state m AND (RWLOCK_WAITING_WRITER OR RWLOCK_WAITING_READER) \<noteq> 0 then Wake_lock else Idle) \<Longrightarrow>
    rwlock_release_write_step t m (rwlock_goto t p (m\<lparr>state := state m AND NOT RWLOCK_WRITER\<rparr>))"

text \<open>\<open>rwlock_wake_waiters\<close>: the first writer, or else all the readers, which are detached from the queue at once.\<close>

inductive rwlock_wake_waiters_step :: "u32 \<Rightarrow> rwlock \<Rightarrow> rwlock \<Rightarrow> bool" for t where
  wake_lock: "pc m t = Wake_lock \<Longrightarrow> wait_lock m = None \<Longrightarrow>
    rwlock_wake_waiters_step t m (rwlock_goto t Wake_dequeue (m\<lparr>wait_lock := Some t\<rparr>))"
| wake_last_writer: "pc m t = Wake_dequeue \<Longrightarrow> write_waitq m = [w] \<Longrightarrow>
    rwlock_wake_waiters_step t m (rwlock_goto t (Wake_clear_writer w) (m\<lparr>write_waitq := []\<rparr>))"
| wake_writer: "pc m t = Wake_dequeue \<Longrightarrow> write_waitq m = w # ws \<Longrightarrow> ws \<noteq> [] \<Longrightarrow>
    rwlock_wake_waiters_step t m (rwlock_goto t (Wake_unlock [w]) (m\<lparr>write_waitq := ws\<rparr>))"
| clear_writer: "pc m t = Wake_clear_writer w \<Longrightarrow>
    rwlock_wake_waiters_step t m (rwlock_goto t (Wake_unlock [w]) (m\<lparr>state := state m AND NOT RWLOCK_WAITING_WRITER\<rparr>))"
| wake_readers: "pc m t = Wake_dequeue \<Longrightarrow> write_waitq m = [] \<Longrightarrow> read_waitq m \<noteq> [] \<Longrightarrow>
    rwlock_wake_waiters_step t m (rwlock_goto t (Wake_clear_reader (read_waitq m)) (m\<lparr>read_waitq := []\<rparr>))"
| wake_none: "pc m t = Wake_dequeue \<Longrightarrow> write_waitq m = [] \<Longrightarrow> read_waitq m = [] \<Longrightarrow>
    rwlock_wake_waiters_step t m (rwlock_goto t (Wake_unlock []) m)"
| clear_reader: "pc m t = Wake_clear_reader rs \<Longrightarrow>
    rwlock_wake_waiters_step t m (rwlock_goto t (Wake_unlock rs) (m\<lparr>state := state m AND NOT RWLOCK_WAITING_READER\<rparr>))"
| wake_unlock: "pc m t = Wake_unlock ts \<Longrightarrow>
    rwlock_wake_waiters_step t m (rwlock_goto t (Wake_tasks ts) (m\<lparr>wait_lock := None\<rparr>))"
| wake_tasks: "pc m t = Wake_tasks ts \<Longrightarrow> rwlock_wake_waiters_step t m (rwlock_goto t Idle m)"

inductive rwlock_step :: "rwlock \<Rightarrow> rwlock \<Rightarrow> bool" where
  call_read: "is_task t \<Longrightarrow> pc m t = Idle \<Longrightarrow> rwlock_step m (rwlock_goto t Read_load m)"
| call_write: "is_task t \<Longrightarrow> pc m t = Idle \<Longrightarrow> rwlock_step m (rwlock_goto t Write_fast m)"
| in_read: "is_task t \<Longrightarrow> rwlock_acquire_read_step t m m' \<Longrightarrow> rwlock_step m m'"
| in_read_slow: "is_task t \<Longrightarrow> rwlock_acquire_read_slowpath_step t m m' \<Longrightarrow> rwlock_step m m'"
| in_release_read: "is_task t \<Longrightarrow> rwlock_release_read_step t m m' \<Longrightarrow> rwlock_step m m'"
| in_write: "is_task t \<Longrightarrow> rwlock_acquire_write_step t m m' \<Longrightarrow> rwlock_step m m'"
| in_write_slow: "is_task t \<Longrightarrow> rwlock_acquire_write_slowpath_step t m m' \<Longrightarrow> rwlock_step m m'"
| in_release_write: "is_task t \<Longrightarrow> rwlock_release_write_step t m m' \<Longrightarrow> rwlock_step m m'"
| in_wake: "is_task t \<Longrightarrow> rwlock_wake_waiters_step t m m' \<Longrightarrow> rwlock_step m m'"

section \<open>The state word\<close>

definition reader_count :: "u32 \<Rightarrow> nat" where
  "reader_count s = unat (s AND RWLOCK_READER_MASK)"

definition writer_bit :: "u32 \<Rightarrow> bool" where
  "writer_bit s \<longleftrightarrow> s AND RWLOCK_WRITER \<noteq> 0"

lemma reader_count_mod: "reader_count s = unat s mod 2 ^ 29"
  using unat_and_mask [of s 29] by (simp add: reader_count_def mask_eq_exp_minus_1)

lemma writer_bit_iff: "writer_bit s \<longleftrightarrow> bit s 31"
proof -
  have "RWLOCK_WRITER = 2 ^ 31" by simp
  then show ?thesis unfolding writer_bit_def by (simp only: and_exp_eq_0_iff_not_bit not_not)
qed

lemma writer_bit_high: "bit s 31 \<longleftrightarrow> odd (unat s div 2 ^ 29 div 4)" for s :: u32
proof -
  have "bit s 31 \<longleftrightarrow> bit (unat s) 31" by (simp add: bit_unsigned_iff)
  also have "\<dots> \<longleftrightarrow> odd (unat s div (2 ^ 29 * 4))" by (simp add: bit_iff_odd)
  finally show ?thesis by (simp only: div_mult2_eq)
qed

lemma succ_word:
  assumes "reader_count s + 1 < 2 ^ 29"
  shows "reader_count (s + 1) = reader_count s + 1" "writer_bit (s + 1) = writer_bit s"
proof -
  define h where "h = unat s div 2 ^ 29"
  have s: "unat s = 2 ^ 29 * h + reader_count s" by (simp add: h_def reader_count_mod)
  have "unat s < 2 ^ LENGTH(32)" by (rule unsigned_less)
  then have "h < 8" using s by simp
  then have u: "unat (s + 1) = 2 ^ 29 * h + (reader_count s + 1)" using s assms by (subst unat_add_no_overflow) simp_all
  show "reader_count (s + 1) = reader_count s + 1" unfolding reader_count_mod [of "s + 1"] u using assms by simp
  have "unat (s + 1) div 2 ^ 29 = h" unfolding u using assms by simp
  then show "writer_bit (s + 1) = writer_bit s" unfolding writer_bit_iff writer_bit_high h_def [symmetric] by simp
qed

lemma pred_word:
  assumes "0 < reader_count s"
  shows "reader_count (s - 1) = reader_count s - 1" "writer_bit (s - 1) = writer_bit s"
proof -
  have "unat s \<noteq> 0" using assms by (auto simp: reader_count_mod)
  then have u: "unat (s - 1) = unat s - 1" by (subst unat_sub) (auto simp: word_le_nat_alt)
  then have "unat s = Suc (unat (s - 1))" using \<open>unat s \<noteq> 0\<close> by simp
  then have "Suc (reader_count (s - 1)) < 2 ^ 29"
    using assms mod_Suc [of "unat (s - 1)" "2 ^ 29"] mod_less_divisor [of "2 ^ 29" "unat (s - 1)"]
    by (simp add: reader_count_mod split: if_splits)
  then show "reader_count (s - 1) = reader_count s - 1" "writer_bit (s - 1) = writer_bit s"
    using succ_word [of "s - 1"] by simp_all
qed

lemma high_bits:
  assumes "29 \<le> k" "k < 32"
  shows "reader_count (s OR 2 ^ k) = reader_count s" "reader_count (s AND NOT (2 ^ k)) = reader_count s"
    "writer_bit (s OR 2 ^ k) \<longleftrightarrow> writer_bit s \<or> k = 31" "writer_bit (s AND NOT (2 ^ k)) \<longleftrightarrow> writer_bit s \<and> k \<noteq> 31"
proof -
  have m: "reader_count s = unat (take_bit 29 s)" for s :: u32
    unfolding reader_count_def take_bit_eq_mask by (simp add: mask_eq_exp_minus_1)
  have "take_bit 29 (s OR 2 ^ k) = take_bit 29 s" "take_bit 29 (s AND NOT (2 ^ k)) = take_bit 29 s"
    using assms by (auto intro!: bit_word_eqI simp: bit_simps)
  then show "reader_count (s OR 2 ^ k) = reader_count s" "reader_count (s AND NOT (2 ^ k)) = reader_count s" by (simp_all add: m)
  show "writer_bit (s OR 2 ^ k) \<longleftrightarrow> writer_bit s \<or> k = 31" "writer_bit (s AND NOT (2 ^ k)) \<longleftrightarrow> writer_bit s \<and> k \<noteq> 31"
    using assms unfolding writer_bit_iff by (auto simp: bit_simps)
qed

lemmas flag_bits = high_bits [of 31, simplified] high_bits [of 30, simplified] high_bits [of 29, simplified]

lemma read_free_bits: "read_free s \<Longrightarrow> \<not> writer_bit s"
proof
  assume "read_free s" "writer_bit s"
  then have "(s AND (RWLOCK_WRITER OR RWLOCK_WAITING_WRITER)) AND RWLOCK_WRITER = 0" by (simp add: read_free_def)
  then show False using \<open>writer_bit s\<close> unfolding and.assoc by (simp add: writer_bit_def)
qed

lemma write_free_bits: "write_free s \<longleftrightarrow> \<not> writer_bit s \<and> reader_count s = 0"
  by (simp add: write_free_def writer_bit_def reader_count_def unat_eq_zero)

section \<open>The invariant\<close>

fun rwlock_locks :: "rwlock_pc \<Rightarrow> bool" where
  "rwlock_locks (Wake_clear_writer _) = True"
| "rwlock_locks (Wake_clear_reader _) = True"
| "rwlock_locks (Wake_unlock _) = True"
| "rwlock_locks p = (p \<in> {Read_slow_load, Read_retry, Read_flag, Read_enqueue, Read_unlock, Read_cancel, Read_unlock_again, Write_slow_load,
     Write_retry, Write_flag, Write_enqueue, Write_unlock, Write_cancel, Write_unlock_again, Wake_dequeue})"

fun rwlock_owns :: "rwlock_pc \<Rightarrow> bool" where
  "rwlock_owns p = (p \<in> {Write_owner, Writing, Write_release})"

fun read_waits :: "rwlock_pc \<Rightarrow> bool" where
  "read_waits p = (p \<in> {Read_unlock, Read_yield, Read_relock, Read_cancel})"

fun write_waits :: "rwlock_pc \<Rightarrow> bool" where
  "write_waits p = (p \<in> {Write_unlock, Write_yield, Write_relock, Write_cancel})"

abbreviation reading :: "(u32 \<Rightarrow> rwlock_pc) \<Rightarrow> nat" where
  "reading \<equiv> census (\<lambda>_ p. p = Reading)"

definition rwlock_inv_state :: "u32 \<Rightarrow> (u32 \<Rightarrow> rwlock_pc) \<Rightarrow> bool" where
  "rwlock_inv_state s f \<longleftrightarrow> reader_count s = reading f \<and> (writer_bit s \<longleftrightarrow> (\<exists>t. rwlock_owns (f t))) \<and>
     (\<forall>t u. rwlock_owns (f t) \<longrightarrow> rwlock_owns (f u) \<longrightarrow> t = u) \<and> (writer_bit s \<longrightarrow> reading f = 0)"

fun rwlock_local_ok :: "u32 \<Rightarrow> rwlock_pc \<Rightarrow> bool" where
  "rwlock_local_ok t Idle = True"
| "rwlock_local_ok t Panic = False"
| "rwlock_local_ok t (Read_cas s) = (is_task t \<and> \<not> writer_bit s)"
| "rwlock_local_ok t (Read_spin_cas s) = (is_task t \<and> \<not> writer_bit s)"
| "rwlock_local_ok t (Write_spin_cas s) = (is_task t \<and> \<not> writer_bit s \<and> reader_count s = 0)"
| "rwlock_local_ok t _ = is_task t"

definition rwlock_inv_local :: "(u32 \<Rightarrow> rwlock_pc) \<Rightarrow> bool" where
  "rwlock_inv_local f \<longleftrightarrow> (\<forall>t. rwlock_local_ok t (f t))"

definition rwlock_inv :: "rwlock \<Rightarrow> bool" where
  "rwlock_inv m \<longleftrightarrow> lock_inv rwlock_locks (wait_lock m) (pc m) \<and> queue_inv read_waits (read_waitq m) (pc m) \<and>
     queue_inv write_waits (write_waitq m) (pc m) \<and> rwlock_inv_state (state m) (pc m) \<and> rwlock_inv_local (pc m)"

section \<open>Preservation\<close>

lemmas rwlock_step_elims = rwlock_step.cases rwlock_acquire_read_step.cases rwlock_acquire_read_slowpath_step.cases
  rwlock_release_read_step.cases rwlock_acquire_write_step.cases rwlock_acquire_write_slowpath_step.cases
  rwlock_release_write_step.cases rwlock_wake_waiters_step.cases

lemma rwlock_not_linked:
  "queue_inv read_waits q f \<Longrightarrow> queue_inv write_waits q' f \<Longrightarrow> f t = Read_enqueue \<or> f t = Write_enqueue \<Longrightarrow>
    t \<notin> set q \<and> t \<notin> set q'"
  using queue_inv_not_in [of read_waits q f t] queue_inv_not_in [of write_waits q' f t] by auto

lemma rwlock_inv_lock_step:
  "lock_inv rwlock_locks (wait_lock m) (pc m) \<Longrightarrow> queue_inv read_waits (read_waitq m) (pc m) \<Longrightarrow>
    queue_inv write_waits (write_waitq m) (pc m) \<Longrightarrow> rwlock_step m m' \<Longrightarrow> lock_inv rwlock_locks (wait_lock m') (pc m')"
  by (elim rwlock_step_elims; simp add: lock_inv_rules rwlock_not_linked)

lemma inv_read_queue_step:
  "queue_inv read_waits (read_waitq m) (pc m) \<Longrightarrow> rwlock_step m m' \<Longrightarrow> queue_inv read_waits (read_waitq m') (pc m')"
  by (elim rwlock_step_elims; simp add: queue_inv_rules)

lemma inv_write_queue_step:
  "queue_inv write_waits (write_waitq m) (pc m) \<Longrightarrow> rwlock_step m m' \<Longrightarrow> queue_inv write_waits (write_waitq m') (pc m')"
  by (elim rwlock_step_elims; simp add: queue_inv_rules)

lemma rwlock_inv_local_upd: "rwlock_inv_local f \<Longrightarrow> rwlock_local_ok t p \<Longrightarrow> rwlock_inv_local (f(t := p))"
  by (simp add: rwlock_inv_local_def)

lemma rwlock_inv_local_step:
  "rwlock_inv_local (pc m) \<Longrightarrow> queue_inv read_waits (read_waitq m) (pc m) \<Longrightarrow>
    queue_inv write_waits (write_waitq m) (pc m) \<Longrightarrow> rwlock_step m m' \<Longrightarrow> rwlock_inv_local (pc m')"
  by (elim rwlock_step_elims; simp add: rwlock_inv_local_upd rwlock_not_linked read_free_bits write_free_bits)

lemma reading_bound: "rwlock_inv_local f \<Longrightarrow> reading f < 2 ^ 26"
proof (rule census_tasks)
  fix t
  assume "rwlock_inv_local f" "f t = Reading"
  then have "rwlock_local_ok t Reading" by (metis rwlock_inv_local_def)
  then show "is_task t" by simp
qed

lemma inv_state_word:
  "rwlock_inv_state s f \<Longrightarrow> reader_count s' = reader_count s \<Longrightarrow> writer_bit s' = writer_bit s \<Longrightarrow> rwlock_inv_state s' f"
  by (simp add: rwlock_inv_state_def)

lemma rwlock_inv_state_keep:
  assumes "rwlock_inv_state s f" "rwlock_owns p = rwlock_owns (f t)" "(p = Reading) = (f t = Reading)"
  shows "rwlock_inv_state s (f(t := p))"
proof -
  have "rwlock_owns ((f(t := p)) u) = rwlock_owns (f u)" for u using assms(2) by simp
  then show ?thesis using assms(1,3) by (simp add: rwlock_inv_state_def census_same del: rwlock_owns.simps)
qed

lemma rwlock_inv_state_read:
  assumes "rwlock_inv_state s f" "rwlock_inv_local f" "\<not> writer_bit s" "f t \<noteq> Reading"
  shows "rwlock_inv_state (s + 1) (f(t := Reading))"
proof -
  have "reader_count s + 1 < 2 ^ 29" using assms(1) reading_bound [OF assms(2)] by (simp add: rwlock_inv_state_def)
  note s = succ_word [OF this]
  have "\<not> rwlock_owns (f u)" for u using assms(1,3) by (simp add: rwlock_inv_state_def del: rwlock_owns.simps)
  then have "\<not> rwlock_owns ((f(t := Reading)) u)" for u by (simp del: rwlock_owns.simps) simp
  then show ?thesis using assms s by (simp add: rwlock_inv_state_def census_in del: rwlock_owns.simps)
qed

lemma rwlock_inv_state_unread:
  assumes "rwlock_inv_state s f" "f t = Reading" "p \<noteq> Reading" "\<not> rwlock_owns p"
  shows "rwlock_inv_state (s - 1) (f(t := p))"
proof -
  have c: "reading f = Suc (reading (f(t := p)))" by (rule census_out) (use assms in simp_all)
  then have "0 < reader_count s" using assms(1) by (simp add: rwlock_inv_state_def)
  note s = pred_word [OF this]
  have o: "rwlock_owns ((f(t := p)) u) = rwlock_owns (f u)" for u using assms by (simp del: rwlock_owns.simps) simp
  show ?thesis using assms(1) c s unfolding rwlock_inv_state_def o by (auto simp del: rwlock_owns.simps)
qed

lemma inv_state_own:
  assumes "rwlock_inv_state s f" "\<not> writer_bit s" "reader_count s = 0" "writer_bit s'" "reader_count s' = 0" "rwlock_owns p" "f t \<noteq> Reading"
  shows "rwlock_inv_state s' (f(t := p))"
proof -
  have "\<not> rwlock_owns (f u)" for u using assms(1,2) by (simp add: rwlock_inv_state_def del: rwlock_owns.simps)
  then have o: "rwlock_owns ((f(t := p)) u) \<longleftrightarrow> u = t" for u using assms(6) by (simp del: rwlock_owns.simps)
  have "reading (f(t := p)) = reading f" using assms(6,7) by (intro census_same) auto
  then show ?thesis using assms unfolding rwlock_inv_state_def o by simp
qed

lemma inv_state_disown:
  assumes "rwlock_inv_state s f" "rwlock_owns (f t)" "\<not> rwlock_owns p" "p \<noteq> Reading" "\<not> writer_bit s'" "reader_count s' = reader_count s"
  shows "rwlock_inv_state s' (f(t := p))"
proof -
  have o: "\<not> rwlock_owns ((f(t := p)) u)" for u using assms(1-3) unfolding rwlock_inv_state_def by (metis fun_upd_apply)
  have "reading (f(t := p)) = reading f" using assms(2,4) by (intro census_same) auto
  then show ?thesis using assms(1,5,6) o unfolding rwlock_inv_state_def by simp
qed

lemma local_cas:
  "rwlock_inv_local f \<Longrightarrow> f t = Read_cas s \<Longrightarrow> \<not> writer_bit s" "rwlock_inv_local f \<Longrightarrow> f t = Read_spin_cas s \<Longrightarrow> \<not> writer_bit s"
  "rwlock_inv_local f \<Longrightarrow> f t = Write_spin_cas s \<Longrightarrow> \<not> writer_bit s \<and> reader_count s = 0"
  unfolding rwlock_inv_local_def by (metis rwlock_local_ok.simps(3), metis rwlock_local_ok.simps(4), metis rwlock_local_ok.simps(5))

lemma init_word: "reader_count 0 = 0" "\<not> writer_bit 0" "reader_count RWLOCK_WRITER = 0" "writer_bit RWLOCK_WRITER"
  by (simp_all add: reader_count_def writer_bit_def)

lemma inv_state_flags:
  assumes "rwlock_inv_state s f"
  shows "rwlock_inv_state (s OR RWLOCK_WAITING_WRITER) f" "rwlock_inv_state (s OR RWLOCK_WAITING_READER) f"
    "rwlock_inv_state (s AND NOT RWLOCK_WAITING_WRITER) f" "rwlock_inv_state (s AND NOT RWLOCK_WAITING_READER) f"
  using assms flag_bits [of s] by (auto intro: inv_state_word)

lemma rwlock_inv_state_readers:
  assumes "rwlock_inv_state s f" "rwlock_inv_local f" "f t = Read_cas s \<or> f t = Read_spin_cas s"
  shows "rwlock_inv_state (s + 1) (f(t := Reading))"
  using assms local_cas(1,2) [OF assms(2), of t s] by (intro rwlock_inv_state_read) auto

lemma inv_state_writers:
  "rwlock_inv_state 0 f \<Longrightarrow> f t = Write_fast \<Longrightarrow> rwlock_inv_state RWLOCK_WRITER (f(t := Write_owner))"
  "rwlock_inv_state s f \<Longrightarrow> rwlock_inv_local f \<Longrightarrow> f t = Write_spin_cas s \<Longrightarrow> rwlock_inv_state (s OR RWLOCK_WRITER) (f(t := Write_owner))"
  "rwlock_inv_state s f \<Longrightarrow> f t = Write_release \<Longrightarrow> \<not> rwlock_owns p \<Longrightarrow> p \<noteq> Reading \<Longrightarrow> rwlock_inv_state (s AND NOT RWLOCK_WRITER) (f(t := p))"
proof -
  show "rwlock_inv_state RWLOCK_WRITER (f(t := Write_owner))" if "rwlock_inv_state 0 f" "f t = Write_fast"
    using that by (intro inv_state_own [of 0]) (simp_all add: init_word)
  show "rwlock_inv_state (s OR RWLOCK_WRITER) (f(t := Write_owner))" if "rwlock_inv_state s f" "rwlock_inv_local f" "f t = Write_spin_cas s"
    using that local_cas(3) [OF that(2,3)] flag_bits [of s] by (intro inv_state_own [of s]) simp_all
  show "rwlock_inv_state (s AND NOT RWLOCK_WRITER) (f(t := p))" if "rwlock_inv_state s f" "f t = Write_release" "\<not> rwlock_owns p" "p \<noteq> Reading"
    using that flag_bits [of s] by (intro inv_state_disown [of s]) simp_all
qed

lemmas rwlock_inv_state_rules = rwlock_inv_state_keep rwlock_inv_state_unread rwlock_inv_state_readers inv_state_flags [simplified] inv_state_writers [simplified]

lemma rwlock_inv_state_step:
  assumes "rwlock_inv_state (state m) (pc m)" "rwlock_inv_local (pc m)" "rwlock_step m m'"
  shows "rwlock_inv_state (state m') (pc m')"
  using assms(3,1,2) by (elim rwlock_step_elims; simp add: rwlock_inv_state_rules)

lemma rwlock_init_inv: "rwlock_inv rwlock_init"
  by (simp add: rwlock_inv_def rwlock_init_def lock_inv_def queue_inv_empty rwlock_inv_state_def rwlock_inv_local_def init_word census_0)

lemma rwlock_inv_step: "rwlock_inv m \<Longrightarrow> rwlock_step m m' \<Longrightarrow> rwlock_inv m'"
  unfolding rwlock_inv_def
  by (intro conjI) (blast intro: rwlock_inv_lock_step inv_read_queue_step inv_write_queue_step rwlock_inv_state_step rwlock_inv_local_step)+

interpretation rw: shared_lock rwlock_step rwlock_inv "\<lambda>m t. rwlock_owns (pc m t)" "\<lambda>m t. pc m t = Reading"
proof unfold_locales
  fix m m' t u
  show "rwlock_inv m \<Longrightarrow> rwlock_step m m' \<Longrightarrow> rwlock_inv m'" by (rule rwlock_inv_step)
  show "t = u" if "rwlock_inv m" "rwlock_owns (pc m t)" "rwlock_owns (pc m u)"
    using that unfolding rwlock_inv_def rwlock_inv_state_def by blast
  show "pc m u \<noteq> Reading" if "rwlock_inv m" "rwlock_owns (pc m t)"
    using that unfolding rwlock_inv_def rwlock_inv_state_def census_0 by blast
qed

text \<open>
  C33: In every interleaving of the operations of the readers-writer lock, a task that holds it for writing is the only one and
  there are no readers; the state word counts the readers and has its top bit set exactly while there is a writer;
  no task ever reaches a panic.
\<close>

theorem rwlock_exclusion:
  assumes "rwlock_step\<^sup>*\<^sup>* rwlock_init m"
  shows "(rwlock_owns (pc m t) \<longrightarrow> pc m u \<noteq> Reading \<and> (rwlock_owns (pc m u) \<longrightarrow> u = t)) \<and>
    unat (state m AND RWLOCK_READER_MASK) = card {t. pc m t = Reading} \<and>
    (state m AND RWLOCK_WRITER \<noteq> 0 \<longleftrightarrow> (\<exists>t. rwlock_owns (pc m t))) \<and> pc m t \<noteq> Panic"
proof -
  note inv = rw.reach_inv [OF assms rwlock_init_inv]
  have "pc m t \<noteq> Panic" using inv unfolding rwlock_inv_def rwlock_inv_local_def by (metis rwlock_local_ok.simps(2))
  moreover have "unat (state m AND RWLOCK_READER_MASK) = card {t. pc m t = Reading}"
      "state m AND RWLOCK_WRITER \<noteq> 0 \<longleftrightarrow> (\<exists>t. rwlock_owns (pc m t))"
    using inv unfolding rwlock_inv_def rwlock_inv_state_def census_def reader_count_def writer_bit_def by blast+
  ultimately show ?thesis using rw.readers_writer_exclusion [OF rwlock_init_inv assms] by blast
qed

section \<open>A lost wake-up\<close>

text \<open>A reader and a writer.\<close>

definition rwlock_two_tasks :: "u32 \<Rightarrow> u32 ptr \<Rightarrow> u32 list \<Rightarrow> rwlock_pc \<Rightarrow> rwlock_pc \<Rightarrow> rwlock" where
  "rwlock_two_tasks s l q p p' = \<lparr>state = s, writer_owner = 0, wait_lock = l, read_waitq = [], write_waitq = q,
     pc = (\<lambda>_. Idle)(64 := p, 128 := p')\<rparr>"

lemma rwlock_two_tasks_simps:
  "state (rwlock_two_tasks s l q p p') = s" "wait_lock (rwlock_two_tasks s l q p p') = l" "read_waitq (rwlock_two_tasks s l q p p') = []"
  "write_waitq (rwlock_two_tasks s l q p p') = q" "pc (rwlock_two_tasks s l q p p') 64 = p" "pc (rwlock_two_tasks s l q p p') 128 = p'"
  "(rwlock_two_tasks s l q p p')\<lparr>state := w\<rparr> = rwlock_two_tasks w l q p p'"
  "(rwlock_two_tasks s l q p p')\<lparr>wait_lock := l'\<rparr> = rwlock_two_tasks s l' q p p'"
  "(rwlock_two_tasks s l q p p')\<lparr>write_waitq := q'\<rparr> = rwlock_two_tasks s l q' p p'"
  "(rwlock_two_tasks s l q p p')\<lparr>pc := (pc (rwlock_two_tasks s l q p p'))(64 := r)\<rparr> = rwlock_two_tasks s l q r p'"
  "(rwlock_two_tasks s l q p p')\<lparr>pc := (pc (rwlock_two_tasks s l q p p'))(128 := r)\<rparr> = rwlock_two_tasks s l q p r"
  "is_task 64" "is_task 128" "rwlock_init = rwlock_two_tasks 0 None [] Idle Idle"
  by (auto simp: rwlock_two_tasks_def is_task_def rwlock_init_def)

lemma two_tasks_pc: "pc (rwlock_two_tasks s l q Idle p') = (\<lambda>_. Idle)(128 := p')"
  by (auto simp: rwlock_two_tasks_def)

lemma two_tasks_free:
  "read_free 0" "\<not> write_free 1" "\<not> read_free RWLOCK_WAITING_WRITER" "write_free RWLOCK_WAITING_WRITER"
  by (simp_all add: read_free_def write_free_def)

lemma two_tasks_reading: "rwlock_step\<^sup>*\<^sup>* rwlock_init (rwlock_two_tasks 1 None [] Reading Idle)"
proof -
  note task = rwlock_two_tasks_simps(12,13) and rwlock_two_tasks_simps = rwlock_two_tasks_simps two_tasks_free
  have "rwlock_step (rwlock_two_tasks 0 None [] Idle Idle) (rwlock_two_tasks 0 None [] Read_load Idle)"
    using call_read [OF task(1), of "rwlock_two_tasks 0 None [] Idle Idle"] by (simp add: rwlock_two_tasks_simps)
  moreover have "rwlock_step (rwlock_two_tasks 0 None [] Read_load Idle) (rwlock_two_tasks 0 None [] (Read_cas 0) Idle)"
    using in_read [OF task(1) read_load, of "rwlock_two_tasks 0 None [] Read_load Idle"] by (simp add: rwlock_two_tasks_simps)
  moreover have "rwlock_step (rwlock_two_tasks 0 None [] (Read_cas 0) Idle) (rwlock_two_tasks 1 None [] Reading Idle)"
    using in_read [OF task(1) read_acquired, of "rwlock_two_tasks 0 None [] (Read_cas 0) Idle" 0] by (simp add: rwlock_two_tasks_simps)
  ultimately show ?thesis unfolding rwlock_two_tasks_simps(14) by (meson rtranclp.intros)
qed

theorem rwlock_exclusion_witness:
  "pc (rwlock_two_tasks 1 None [] Reading Idle) 64 = Reading \<and> card {t. pc (rwlock_two_tasks 1 None [] Reading Idle) t = Reading} = 1"
  using rwlock_exclusion [OF two_tasks_reading, of 64 64] by (simp add: rwlock_two_tasks_simps)

text \<open>The writer reads the state word before, and flags itself after, the last reader has released the lock.\<close>

lemma two_tasks_asleep: "rwlock_step\<^sup>*\<^sup>* (rwlock_two_tasks 1 None [] Reading Idle) (rwlock_two_tasks 0x40000000 None [128] Idle Write_yield)"
proof -
  note task = rwlock_two_tasks_simps(12,13) and rwlock_two_tasks_simps = rwlock_two_tasks_simps two_tasks_free
  have "rwlock_step (rwlock_two_tasks 1 None [] Reading Idle) (rwlock_two_tasks 1 None [] Reading Write_fast)"
    using call_write [OF task(2), of "rwlock_two_tasks 1 None [] Reading Idle"] by (simp add: rwlock_two_tasks_simps)
  moreover have "rwlock_step (rwlock_two_tasks 1 None [] Reading Write_fast) (rwlock_two_tasks 1 None [] Reading Write_spin)"
    using in_write [OF task(2) write_busy, of "rwlock_two_tasks 1 None [] Reading Write_fast"] by (simp add: rwlock_two_tasks_simps)
  moreover have "rwlock_step (rwlock_two_tasks 1 None [] Reading Write_spin) (rwlock_two_tasks 1 None [] Reading Write_spin_load)"
    using in_write_slow [OF task(2) wspin_free, of "rwlock_two_tasks 1 None [] Reading Write_spin"] by (simp add: rwlock_two_tasks_simps)
  moreover have "rwlock_step (rwlock_two_tasks 1 None [] Reading Write_spin_load) (rwlock_two_tasks 1 None [] Reading Write_lock)"
    using in_write_slow [OF task(2) wspin_busy, of "rwlock_two_tasks 1 None [] Reading Write_spin_load"] by (simp add: rwlock_two_tasks_simps)
  moreover have "rwlock_step (rwlock_two_tasks 1 None [] Reading Write_lock) (rwlock_two_tasks 1 (Some 128) [] Reading Write_slow_load)"
    using in_write_slow [OF task(2) wlock, of "rwlock_two_tasks 1 None [] Reading Write_lock"] by (simp add: rwlock_two_tasks_simps)
  moreover have "rwlock_step (rwlock_two_tasks 1 (Some 128) [] Reading Write_slow_load) (rwlock_two_tasks 1 (Some 128) [] Reading Write_flag)"
    using in_write_slow [OF task(2) wload_unflagged, of "rwlock_two_tasks 1 (Some 128) [] Reading Write_slow_load"] by (simp add: rwlock_two_tasks_simps)
  moreover have "rwlock_step (rwlock_two_tasks 1 (Some 128) [] Reading Write_flag) (rwlock_two_tasks 0 (Some 128) [] Idle Write_flag)"
    using in_release_read [OF task(1) read_release, of "rwlock_two_tasks 1 (Some 128) [] Reading Write_flag" Idle] by (simp add: rwlock_two_tasks_simps)
  moreover have "rwlock_step (rwlock_two_tasks 0 (Some 128) [] Idle Write_flag) (rwlock_two_tasks 0x40000000 (Some 128) [] Idle Write_enqueue)"
    using in_write_slow [OF task(2) wflag, of "rwlock_two_tasks 0 (Some 128) [] Idle Write_flag"] by (simp add: rwlock_two_tasks_simps)
  moreover have "rwlock_step (rwlock_two_tasks 0x40000000 (Some 128) [] Idle Write_enqueue) (rwlock_two_tasks 0x40000000 (Some 128) [128] Idle Write_unlock)"
    using in_write_slow [OF task(2) wenqueue, of "rwlock_two_tasks 0x40000000 (Some 128) [] Idle Write_enqueue"] by (simp add: rwlock_two_tasks_simps)
  moreover have "rwlock_step (rwlock_two_tasks 0x40000000 (Some 128) [128] Idle Write_unlock) (rwlock_two_tasks 0x40000000 None [128] Idle Write_yield)"
    using in_write_slow [OF task(2) wunlock, of "rwlock_two_tasks 0x40000000 (Some 128) [128] Idle Write_unlock"] by (simp add: rwlock_two_tasks_simps)
  ultimately show ?thesis by (meson rtranclp.intros)
qed

text \<open>
  C34: A wake-up can be lost: a state is reachable in which nobody holds the lock and nobody is in any of its operations, except
  for a writer that sleeps in the queue, while the flag it has set keeps every reader out.
\<close>

theorem rwlock_lost_wakeup:
  "\<exists>m. rwlock_step\<^sup>*\<^sup>* rwlock_init m \<and> write_waitq m = [128] \<and> pc m = (\<lambda>_. Idle)(128 := Write_yield) \<and>
     write_free (state m) \<and> \<not> read_free (state m)"
  using rtranclp_trans [OF two_tasks_reading two_tasks_asleep]
  by (intro exI [of _ "rwlock_two_tasks 0x40000000 None [128] Idle Write_yield"]) (simp add: rwlock_two_tasks_simps two_tasks_free two_tasks_pc)

text \<open>Spinning always ends.\<close>

lemma rwlock_spin_ends: "i + length obs \<ge> 1024 \<Longrightarrow> \<exists>b. rwlock_spin_on_writer obs i = Some b"
proof (induction obs arbitrary: i)
  case (Cons o' obs)
  then show ?case
    by (subst rwlock_spin_on_writer.simps) (auto simp del: rwlock_spin_on_writer.simps split: prod.splits)
qed (subst rwlock_spin_on_writer.simps, auto)

end
