(* ===== verification/Sem.thy ===== *)
theory Sem
  imports Steps
begin

text \<open>
  The counting semaphore of \<open>src/src/kernel/locking/sem.cpp\<close> as a transition system. Its count is a signed word of 32 bits;
  the fields \<open>base\<close>, \<open>given\<close> and \<open>taken\<close> are not in the code, they record the count at the last initialisation or reset and the
  tokens that were added and acquired since.

  Of a task the model has whether it sleeps (\<open>asleep\<close>: its state is \<open>TASK_WAITING\<close>), whether its \<open>blocked_on_sem\<close> names the semaphore
  (\<open>blocked\<close>), and whether it is on the sleep queue of a processor (\<open>timed\<close>). \<open>sched_yield\<close> returns only to a task that does not
  sleep any more: \<open>proc_wake\<close> ends the sleep of a task that is not blocked, and the timer or another part of the kernel may
  end the sleep of any task at any time. A task that has changed its state runs on until it yields. The timer ticks at
  any time, and a task that is dying is not enqueued.

  \<open>sem_signal_all\<close> takes the tasks off the detached list one by one, without the lock. A waiter that cancels its wait in
  the meantime unlinks itself from the same list with the lock held, which is a data race: the field \<open>raced\<close> records it, and the
  system makes no further steps.
\<close>

section \<open>State\<close>

text \<open>
  The places from which \<open>sem_try_acquire_fast\<close> is called. A deadline distinguishes \<open>sem_wait_timeout\<close> from \<open>sem_wait\<close>.
\<close>

datatype fast_caller =
    Try
  | Boot "u32 option"
  | First "u32 option"
  | Spin "u32 option" nat
  | Woken "u32 option"

datatype sem_pc =
    Idle
  | Fast_load fast_caller
  | Fast_cas fast_caller u32
  | Boot_check "u32 option"
  | Loop "u32 option"
  | Lock "u32 option"
  | Check "u32 option"
  | Sub
  | Unlock_acquired
  | Enqueue "u32 option"
  | Unlock_wait "u32 option"
  | Sleep_check u32
  | Sleep_state u32
  | Sleep_insert u32
  | Sleep "u32 option"
  | Remove "u32 option"
  | Relock "u32 option"
  | Cancel "u32 option"
  | Unlock_again "u32 option"
  | Timeout_check "u32 option"
  | Signal_lock
  | Signal_add
  | Signal_dequeue
  | Signal_unlock "u32 ptr"
  | Signal_wake "u32 ptr"
  | All_lock
  | All_detach
  | All_add "u32 list"
  | All_unlock "u32 list"
  | All_pop "u32 list"
  | All_del u32 "u32 list"
  | All_reset u32 "u32 list"
  | All_wake u32 "u32 list"
  | Reset_lock u32
  | Reset_check u32
  | Reset_store u32
  | Reset_unlock
  | Reset_panic
  | Panic

record semaphore =
  count :: u32
  lock :: "u32 ptr"
  waitq :: "u32 list"
  asleep :: "u32 set"
  blocked :: "u32 set"
  timed :: "u32 set"
  raced :: bool
  timer_ticks :: u32
  base :: u32
  given :: nat
  taken :: nat
  pc :: "u32 \<Rightarrow> sem_pc"

definition sem_init :: "u32 \<Rightarrow> u32 \<Rightarrow> semaphore" where
  "sem_init init_count ticks = \<lparr>count = init_count, lock = None, waitq = [], asleep = {}, blocked = {}, timed = {}, raced = False,
     timer_ticks = ticks, base = init_count, given = 0, taken = 0, pc = (\<lambda>_. Idle)\<rparr>"

abbreviation sem_goto :: "u32 \<Rightarrow> sem_pc \<Rightarrow> semaphore \<Rightarrow> semaphore" where
  "sem_goto t p m \<equiv> m\<lparr>pc := (pc m)(t := p)\<rparr>"

abbreviation positive :: "u32 \<Rightarrow> bool" where
  "positive c \<equiv> 0 < sint c"

text \<open>The comparison of the timer with a deadline, which is correct across the overflow of the timer.\<close>

fun expired :: "u32 \<Rightarrow> u32 option \<Rightarrow> bool" where
  "expired ticks None = False"
| "expired ticks (Some deadline_tick) = (ticks - deadline_tick < 0x80000000)"

text \<open>\<open>proc_wake\<close>: the task leaves the sleep queue, and unless it is blocked on a wait queue its sleep ends.\<close>

definition sem_proc_wake :: "u32 \<Rightarrow> semaphore \<Rightarrow> semaphore" where
  "sem_proc_wake t m = m\<lparr>asleep := (if t \<in> blocked m then asleep m else asleep m - {t}), timed := timed m - {t}\<rparr>"

section \<open>The code\<close>

text \<open>Where a failed fast acquisition goes on; \<open>sem_optimistic_spin\<close> tries 256 times.\<close>

fun fast_failed :: "fast_caller \<Rightarrow> sem_pc" where
  "fast_failed Try = Idle"
| "fast_failed (Boot d) = Boot_check d"
| "fast_failed (First d) = Fast_load (Spin d 0)"
| "fast_failed (Spin d i) = (if Suc i < 256 then Fast_load (Spin d (Suc i)) else Loop d)"
| "fast_failed (Woken d) = Timeout_check d"

inductive sem_try_acquire_fast_step :: "u32 \<Rightarrow> semaphore \<Rightarrow> semaphore \<Rightarrow> bool" for t where
  fast_load: "pc m t = Fast_load k \<Longrightarrow> positive (count m) \<Longrightarrow>
    sem_try_acquire_fast_step t m (sem_goto t (Fast_cas k (count m)) m)"
| fast_none: "pc m t = Fast_load k \<Longrightarrow> \<not> positive (count m) \<Longrightarrow> sem_try_acquire_fast_step t m (sem_goto t (fast_failed k) m)"
| fast_acquired: "pc m t = Fast_cas k c \<Longrightarrow> count m = c \<Longrightarrow>
    sem_try_acquire_fast_step t m (sem_goto t Idle (m\<lparr>count := c - 1, taken := Suc (taken m)\<rparr>))"
| fast_reload: "pc m t = Fast_cas k c \<Longrightarrow> count m \<noteq> c \<Longrightarrow> positive (count m) \<Longrightarrow>
    sem_try_acquire_fast_step t m (sem_goto t (Fast_cas k (count m)) m)"
| fast_lost: "pc m t = Fast_cas k c \<Longrightarrow> count m \<noteq> c \<Longrightarrow> \<not> positive (count m) \<Longrightarrow>
    sem_try_acquire_fast_step t m (sem_goto t (fast_failed k) m)"

text \<open>
  The loops of \<open>sem_wait\<close>, which has no deadline, and of \<open>sem_wait_timeout\<close>. Without a current task they spin on the fast path.
  \<open>proc_sleep_add\<close>, which \<open>sem_wait_timeout\<close> calls if it is still blocked, changes the state to \<open>TASK_WAITING\<close>, which fails for
  a task that has just been made runnable, puts the task on the sleep queue and yields.
\<close>

inductive sem_wait_step :: "u32 \<Rightarrow> semaphore \<Rightarrow> semaphore \<Rightarrow> bool" for t where
  boot_expired: "pc m t = Boot_check d \<Longrightarrow> expired (timer_ticks m) d \<Longrightarrow> sem_wait_step t m (sem_goto t Idle m)"
| boot_again: "pc m t = Boot_check d \<Longrightarrow> \<not> expired (timer_ticks m) d \<Longrightarrow> sem_wait_step t m (sem_goto t (Fast_load (Boot d)) m)"
| loop_expired: "pc m t = Loop d \<Longrightarrow> expired (timer_ticks m) d \<Longrightarrow> sem_wait_step t m (sem_goto t Idle m)"
| loop: "pc m t = Loop d \<Longrightarrow> \<not> expired (timer_ticks m) d \<Longrightarrow> sem_wait_step t m (sem_goto t (Lock d) m)"
| lock: "pc m t = Lock d \<Longrightarrow> lock m = None \<Longrightarrow> sem_wait_step t m (sem_goto t (Check d) (m\<lparr>lock := Some t\<rparr>))"
| check_positive: "pc m t = Check d \<Longrightarrow> positive (count m) \<Longrightarrow> sem_wait_step t m (sem_goto t Sub m)"
| check_none: "pc m t = Check d \<Longrightarrow> \<not> positive (count m) \<Longrightarrow> sem_wait_step t m (sem_goto t (Enqueue d) m)"
| sub: "pc m t = Sub \<Longrightarrow>
    sem_wait_step t m (sem_goto t Unlock_acquired (m\<lparr>count := count m - 1, taken := Suc (taken m)\<rparr>))"
| unlock_acquired: "pc m t = Unlock_acquired \<Longrightarrow> sem_wait_step t m (sem_goto t Idle (m\<lparr>lock := None\<rparr>))"
| enqueue_linked: "pc m t = Enqueue d \<Longrightarrow> t \<in> set (waitq m) \<Longrightarrow> sem_wait_step t m (sem_goto t Panic m)"
| enqueue: "pc m t = Enqueue d \<Longrightarrow> t \<notin> set (waitq m) \<Longrightarrow>
    sem_wait_step t m (sem_goto t (Unlock_wait d)
      (m\<lparr>waitq := waitq m @ [t], asleep := insert t (asleep m), blocked := insert t (blocked m)\<rparr>))"
| enqueue_refused: "pc m t = Enqueue d \<Longrightarrow> t \<notin> set (waitq m) \<Longrightarrow> sem_wait_step t m (sem_goto t (Unlock_wait d) m)"
| unlock_wait: "pc m t = Unlock_wait d \<Longrightarrow>
    sem_wait_step t m (sem_goto t (case d of None \<Rightarrow> Sleep None | Some e \<Rightarrow> Sleep_check e) (m\<lparr>lock := None\<rparr>))"
| sleep_check: "pc m t = Sleep_check e \<Longrightarrow>
    sem_wait_step t m (sem_goto t (if t \<in> blocked m then Sleep_state e else Remove (Some e)) m)"
| sleep_refused: "pc m t = Sleep_state e \<Longrightarrow> t \<notin> asleep m \<Longrightarrow> sem_wait_step t m (sem_goto t (Remove (Some e)) m)"
| sleep_state: "pc m t = Sleep_state e \<Longrightarrow> sem_wait_step t m (sem_goto t (Sleep_insert e) (m\<lparr>asleep := insert t (asleep m)\<rparr>))"
| sleep_insert: "pc m t = Sleep_insert e \<Longrightarrow> sem_wait_step t m (sem_goto t (Sleep (Some e)) (m\<lparr>timed := insert t (timed m)\<rparr>))"
| sleep: "pc m t = Sleep d \<Longrightarrow> t \<notin> asleep m \<Longrightarrow> sem_wait_step t m (sem_goto t (Remove d) m)"
| timeout: "pc m t = Timeout_check d \<Longrightarrow> expired (timer_ticks m) d \<Longrightarrow> sem_wait_step t m (sem_goto t Idle m)"
| again: "pc m t = Timeout_check d \<Longrightarrow> \<not> expired (timer_ticks m) d \<Longrightarrow> sem_wait_step t m (sem_goto t (Loop d) m)"

text \<open>
  \<open>sem_remove_task\<close> returns at once if the task is not blocked any more. With the lock held the cancellation looks again: it
  does nothing if the task is not blocked, unlinks it from the queue and resets its wait state if it is there, and otherwise
  the task is blocked but on the detached list of \<open>sem_signal_all\<close>, whose owner does not hold the lock.
\<close>

inductive sem_remove_task_step :: "u32 \<Rightarrow> semaphore \<Rightarrow> semaphore \<Rightarrow> bool" for t where
  remove_none: "pc m t = Remove d \<Longrightarrow> t \<notin> blocked m \<Longrightarrow> sem_remove_task_step t m (sem_goto t (Fast_load (Woken d)) m)"
| remove_blocked: "pc m t = Remove d \<Longrightarrow> t \<in> blocked m \<Longrightarrow> sem_remove_task_step t m (sem_goto t (Relock d) m)"
| relock: "pc m t = Relock d \<Longrightarrow> lock m = None \<Longrightarrow> sem_remove_task_step t m (sem_goto t (Cancel d) (m\<lparr>lock := Some t\<rparr>))"
| cancel_none: "pc m t = Cancel d \<Longrightarrow> t \<notin> blocked m \<Longrightarrow> sem_remove_task_step t m (sem_goto t (Unlock_again d) m)"
| cancel_linked: "pc m t = Cancel d \<Longrightarrow> t \<in> blocked m \<Longrightarrow> t \<in> set (waitq m) \<Longrightarrow>
    sem_remove_task_step t m (sem_goto t (Unlock_again d)
      (m\<lparr>waitq := filter (\<lambda>u. u \<noteq> t) (waitq m), blocked := blocked m - {t}\<rparr>))"
| cancel_race: "pc m t = Cancel d \<Longrightarrow> t \<in> blocked m \<Longrightarrow> t \<notin> set (waitq m) \<Longrightarrow> sem_remove_task_step t m (m\<lparr>raced := True\<rparr>)"
| unlock_again: "pc m t = Unlock_again d \<Longrightarrow>
    sem_remove_task_step t m (sem_goto t (Fast_load (Woken d)) (m\<lparr>lock := None\<rparr>))"

inductive sem_signal_step :: "u32 \<Rightarrow> semaphore \<Rightarrow> semaphore \<Rightarrow> bool" for t where
  signal_lock: "pc m t = Signal_lock \<Longrightarrow> lock m = None \<Longrightarrow> sem_signal_step t m (sem_goto t Signal_add (m\<lparr>lock := Some t\<rparr>))"
| signal_add: "pc m t = Signal_add \<Longrightarrow>
    sem_signal_step t m (sem_goto t Signal_dequeue (m\<lparr>count := count m + 1, given := Suc (given m)\<rparr>))"
| signal_none: "pc m t = Signal_dequeue \<Longrightarrow> waitq m = [] \<Longrightarrow> sem_signal_step t m (sem_goto t (Signal_unlock None) m)"
| signal_dequeue: "pc m t = Signal_dequeue \<Longrightarrow> waitq m = u # us \<Longrightarrow>
    sem_signal_step t m (sem_goto t (Signal_unlock (Some u)) (m\<lparr>waitq := us, blocked := blocked m - {u}\<rparr>))"
| signal_unlock: "pc m t = Signal_unlock w \<Longrightarrow> sem_signal_step t m (sem_goto t (Signal_wake w) (m\<lparr>lock := None\<rparr>))"
| signal_wake: "pc m t = Signal_wake w \<Longrightarrow>
    sem_signal_step t m (sem_goto t Idle (case w of None \<Rightarrow> m | Some u \<Rightarrow> sem_proc_wake u m))"

text \<open>
  After the unlock, \<open>waitqueue_wake_detached_list\<close> takes one task after the other off the detached list: it reads the first
  entry, unlinks it, resets the wait state of the task and wakes it.
\<close>

inductive sem_signal_all_step :: "u32 \<Rightarrow> semaphore \<Rightarrow> semaphore \<Rightarrow> bool" for t where
  all_lock: "pc m t = All_lock \<Longrightarrow> lock m = None \<Longrightarrow> sem_signal_all_step t m (sem_goto t All_detach (m\<lparr>lock := Some t\<rparr>))"
| all_none: "pc m t = All_detach \<Longrightarrow> waitq m = [] \<Longrightarrow> sem_signal_all_step t m (sem_goto t (All_unlock []) m)"
| all_detach: "pc m t = All_detach \<Longrightarrow> waitq m \<noteq> [] \<Longrightarrow>
    sem_signal_all_step t m (sem_goto t (All_add (waitq m)) (m\<lparr>waitq := []\<rparr>))"
| all_add: "pc m t = All_add us \<Longrightarrow> sem_signal_all_step t m
    (sem_goto t (All_unlock us) (m\<lparr>count := count m + word_of_nat (length us), given := given m + length us\<rparr>))"
| all_unlock: "pc m t = All_unlock us \<Longrightarrow> sem_signal_all_step t m (sem_goto t (All_pop us) (m\<lparr>lock := None\<rparr>))"
| all_done: "pc m t = All_pop [] \<Longrightarrow> sem_signal_all_step t m (sem_goto t Idle m)"
| all_pop: "pc m t = All_pop (u # us) \<Longrightarrow> sem_signal_all_step t m (sem_goto t (All_del u us) m)"
| all_del: "pc m t = All_del u us \<Longrightarrow> sem_signal_all_step t m (sem_goto t (All_reset u us) m)"
| all_reset: "pc m t = All_reset u us \<Longrightarrow>
    sem_signal_all_step t m (sem_goto t (All_wake u us) (m\<lparr>blocked := blocked m - {u}\<rparr>))"
| all_wake: "pc m t = All_wake u us \<Longrightarrow> sem_signal_all_step t m (sem_goto t (All_pop us) (sem_proc_wake u m))"

inductive sem_reset_step :: "u32 \<Rightarrow> semaphore \<Rightarrow> semaphore \<Rightarrow> bool" for t where
  reset_lock: "pc m t = Reset_lock v \<Longrightarrow> lock m = None \<Longrightarrow> sem_reset_step t m (sem_goto t (Reset_check v) (m\<lparr>lock := Some t\<rparr>))"
| reset_waiters: "pc m t = Reset_check v \<Longrightarrow> waitq m \<noteq> [] \<Longrightarrow> sem_reset_step t m (sem_goto t Reset_panic m)"
| reset_check: "pc m t = Reset_check v \<Longrightarrow> waitq m = [] \<Longrightarrow> sem_reset_step t m (sem_goto t (Reset_store v) m)"
| reset_store: "pc m t = Reset_store v \<Longrightarrow>
    sem_reset_step t m (sem_goto t Reset_unlock (m\<lparr>count := v, base := v, given := 0, taken := 0\<rparr>))"
| reset_unlock: "pc m t = Reset_unlock \<Longrightarrow> sem_reset_step t m (sem_goto t Idle (m\<lparr>lock := None\<rparr>))"

text \<open>
  The system: calls of idle tasks, the steps of the calls, the timer, and wake-ups from other parts of the kernel.
\<close>

inductive sem_task_step :: "semaphore \<Rightarrow> semaphore \<Rightarrow> bool" where
  tick: "sem_task_step m (m\<lparr>timer_ticks := timer_ticks m + 1\<rparr>)"
| call_try: "is_task t \<Longrightarrow> pc m t = Idle \<Longrightarrow> sem_task_step m (sem_goto t (Fast_load Try) m)"
| call_boot: "is_task t \<Longrightarrow> pc m t = Idle \<Longrightarrow> sem_task_step m (sem_goto t (Fast_load (Boot d)) m)"
| call_wait: "is_task t \<Longrightarrow> pc m t = Idle \<Longrightarrow> sem_task_step m (sem_goto t (Fast_load (First d)) m)"
| call_signal: "is_task t \<Longrightarrow> pc m t = Idle \<Longrightarrow> sem_task_step m (sem_goto t Signal_lock m)"
| call_signal_all: "is_task t \<Longrightarrow> pc m t = Idle \<Longrightarrow> sem_task_step m (sem_goto t All_lock m)"
| call_reset: "is_task t \<Longrightarrow> pc m t = Idle \<Longrightarrow> sem_task_step m (sem_goto t (Reset_lock v) m)"
| in_fast: "is_task t \<Longrightarrow> sem_try_acquire_fast_step t m m' \<Longrightarrow> sem_task_step m m'"
| in_wait: "is_task t \<Longrightarrow> sem_wait_step t m m' \<Longrightarrow> sem_task_step m m'"
| in_remove: "is_task t \<Longrightarrow> sem_remove_task_step t m m' \<Longrightarrow> sem_task_step m m'"
| in_signal: "is_task t \<Longrightarrow> sem_signal_step t m m' \<Longrightarrow> sem_task_step m m'"
| in_signal_all: "is_task t \<Longrightarrow> sem_signal_all_step t m m' \<Longrightarrow> sem_task_step m m'"
| in_reset: "is_task t \<Longrightarrow> sem_reset_step t m m' \<Longrightarrow> sem_task_step m m'"
| stray_wake: "is_task t \<Longrightarrow> sem_task_step m (sem_proc_wake t m)"
| roused: "is_task t \<Longrightarrow> sem_task_step m (m\<lparr>asleep := asleep m - {t}, timed := timed m - {t}\<rparr>)"

inductive sem_step :: "semaphore \<Rightarrow> semaphore \<Rightarrow> bool" where
  run: "\<not> raced m \<Longrightarrow> sem_task_step m m' \<Longrightarrow> sem_step m m'"

section \<open>Signed counts\<close>




section \<open>The invariant\<close>

fun sem_locks :: "sem_pc \<Rightarrow> bool" where
  "sem_locks (Check _) = True"
| "sem_locks (Enqueue _) = True"
| "sem_locks (Unlock_wait _) = True"
| "sem_locks (Cancel _) = True"
| "sem_locks (Unlock_again _) = True"
| "sem_locks (Signal_unlock _) = True"
| "sem_locks (All_add _) = True"
| "sem_locks (All_unlock _) = True"
| "sem_locks (Reset_check _) = True"
| "sem_locks (Reset_store _) = True"
| "sem_locks p = (p \<in> {Sub, Unlock_acquired, Signal_add, Signal_dequeue, All_detach, Reset_unlock, Reset_panic})"

fun sem_waits :: "sem_pc \<Rightarrow> bool" where
  "sem_waits (Unlock_wait _) = True"
| "sem_waits (Sleep_check _) = True"
| "sem_waits (Sleep_state _) = True"
| "sem_waits (Sleep_insert _) = True"
| "sem_waits (Sleep _) = True"
| "sem_waits (Remove _) = True"
| "sem_waits (Relock _) = True"
| "sem_waits (Cancel _) = True"
| "sem_waits _ = False"

text \<open>The tasks on the detached list of a caller of \<open>sem_signal_all\<close>, as long as their wait state is not reset.\<close>

fun held :: "sem_pc \<Rightarrow> u32 list" where
  "held (All_add us) = us"
| "held (All_unlock us) = us"
| "held (All_pop us) = us"
| "held (All_del u us) = u # us"
| "held (All_reset u us) = u # us"
| "held (All_wake u us) = us"
| "held _ = []"



text \<open>What the places in the code say of the shared state.\<close>

fun sem_local_ok :: "u32 \<Rightarrow> u32 list \<Rightarrow> sem_pc \<Rightarrow> bool" where
  "sem_local_ok c q Panic = False"
| "sem_local_ok c q (Fast_cas _ v) = positive v"
| "sem_local_ok c q Sub = (0 \<le> sint c)"
| "sem_local_ok c q (Enqueue _) = (sint c \<le> 0)"
| "sem_local_ok c q (All_add _) = (q = [])"
| "sem_local_ok c q (Reset_store _) = (q = [])"
| "sem_local_ok c q _ = True"



lemma fast_failed_simps [simp]: "\<not> sem_locks (fast_failed k)" "\<not> sem_waits (fast_failed k)" "sem_local_ok c q (fast_failed k)"
  "held (fast_failed k) = []"
  by (cases k; simp)+

lemma sem_proc_wake_simps [simp]:
  "count (sem_proc_wake t m) = count m" "lock (sem_proc_wake t m) = lock m" "waitq (sem_proc_wake t m) = waitq m"
  "blocked (sem_proc_wake t m) = blocked m" "base (sem_proc_wake t m) = base m" "given (sem_proc_wake t m) = given m"
  "taken (sem_proc_wake t m) = taken m" "pc (sem_proc_wake t m) = pc m" "raced (sem_proc_wake t m) = raced m"
  by (simp_all add: sem_proc_wake_def)










































section \<open>Sleep\<close>


































section \<open>More acquisitions than tokens\<close>

definition sem_two_tasks :: "u32 \<Rightarrow> u32 ptr \<Rightarrow> u32 list \<Rightarrow> u32 set \<Rightarrow> u32 set \<Rightarrow> u32 set \<Rightarrow> nat \<Rightarrow> nat \<Rightarrow> sem_pc \<Rightarrow> sem_pc \<Rightarrow> semaphore" where
  "sem_two_tasks c l q a b d g k p p' = \<lparr>count = c, lock = l, waitq = q, asleep = a, blocked = b, timed = d, raced = False,
     timer_ticks = 0, base = 0, given = g, taken = k, pc = (\<lambda>_. Idle)(64 := p, 128 := p')\<rparr>"

lemma sem_two_tasks_simps:
  "count (sem_two_tasks c l q a b d g k p p') = c" "lock (sem_two_tasks c l q a b d g k p p') = l" "waitq (sem_two_tasks c l q a b d g k p p') = q"
  "asleep (sem_two_tasks c l q a b d g k p p') = a" "blocked (sem_two_tasks c l q a b d g k p p') = b"
  "raced (sem_two_tasks c l q a b d g k p p') = False"
  "(sem_two_tasks c l q a b d g k p p')\<lparr>asleep := a'\<rparr> = sem_two_tasks c l q a' b d g k p p'"
  "(sem_two_tasks c l q a b d g k p p')\<lparr>blocked := b'\<rparr> = sem_two_tasks c l q a b' d g k p p'"
  "timed (sem_two_tasks c l q a b d g k p p') = d" "(sem_two_tasks c l q a b d g k p p')\<lparr>timed := d'\<rparr> = sem_two_tasks c l q a b d' g k p p'"
  "timer_ticks (sem_two_tasks c l q a b d g k p p') = 0" "base (sem_two_tasks c l q a b d g k p p') = 0"
  "given (sem_two_tasks c l q a b d g k p p') = g" "taken (sem_two_tasks c l q a b d g k p p') = k"
  "pc (sem_two_tasks c l q a b d g k p p') 64 = p" "pc (sem_two_tasks c l q a b d g k p p') 128 = p'"
  "(sem_two_tasks c l q a b d g k p p')\<lparr>count := c'\<rparr> = sem_two_tasks c' l q a b d g k p p'"
  "(sem_two_tasks c l q a b d g k p p')\<lparr>given := g'\<rparr> = sem_two_tasks c l q a b d g' k p p'"
  "(sem_two_tasks c l q a b d g k p p')\<lparr>taken := k'\<rparr> = sem_two_tasks c l q a b d g k' p p'"
  "(sem_two_tasks c l q a b d g k p p')\<lparr>waitq := q'\<rparr> = sem_two_tasks c l q' a b d g k p p'"
  "(sem_two_tasks c l q a b d g k p p')\<lparr>lock := l'\<rparr> = sem_two_tasks c l' q a b d g k p p'"
  "(sem_two_tasks c l q a b d g k p p')\<lparr>pc := (pc (sem_two_tasks c l q a b d g k p p'))(64 := r)\<rparr> = sem_two_tasks c l q a b d g k r p'"
  "(sem_two_tasks c l q a b d g k p p')\<lparr>pc := (pc (sem_two_tasks c l q a b d g k p p'))(128 := r)\<rparr> = sem_two_tasks c l q a b d g k p r"
  "is_task 64" "is_task 128" "sem_init 0 0 = sem_two_tasks 0 None [] {} {} {} 0 0 Idle Idle"
  by (auto simp: sem_two_tasks_def is_task_def sem_init_def)

lemma spin_fails:
  "i < 256 \<Longrightarrow> sem_step\<^sup>*\<^sup>* (sem_two_tasks 0 None [] {} {} {} 0 0 (Fast_load (Spin e i)) Idle) (sem_two_tasks 0 None [] {} {} {} 0 0 (Loop e) Idle)"
proof (induction "256 - i" arbitrary: i)
  case (Suc j)
  let ?m = "sem_two_tasks 0 None [] {} {} {} 0 0 (Fast_load (Spin e i)) Idle"
  have "sem_step ?m (sem_two_tasks 0 None [] {} {} {} 0 0 (fast_failed (Spin e i)) Idle)"
    using run [OF _ in_fast [OF sem_two_tasks_simps(24) fast_none, of ?m "Spin e i"]] by (simp add: sem_two_tasks_simps del: fast_failed.simps)
  moreover have "sem_step\<^sup>*\<^sup>* (sem_two_tasks 0 None [] {} {} {} 0 0 (fast_failed (Spin e i)) Idle) (sem_two_tasks 0 None [] {} {} {} 0 0 (Loop e) Idle)"
    using Suc by (cases "Suc i < 256") simp_all
  ultimately show ?case by (rule converse_rtranclp_into_rtranclp)
qed simp

lemma two_tasks_loop: "sem_step\<^sup>*\<^sup>* (sem_init 0 0) (sem_two_tasks 0 None [] {} {} {} 0 0 (Loop e) Idle)"
proof -
  let ?m = "sem_two_tasks 0 None [] {} {} {} 0 0 (Fast_load (First e)) Idle"
  have "sem_step (sem_init 0 0) ?m"
    using run [OF _ call_wait [OF sem_two_tasks_simps(24), of "sem_init 0 0" e]] by (simp add: sem_two_tasks_simps)
  moreover have "sem_step ?m (sem_two_tasks 0 None [] {} {} {} 0 0 (Fast_load (Spin e 0)) Idle)"
    using run [OF _ in_fast [OF sem_two_tasks_simps(24) fast_none, of ?m "First e"]] by (simp add: sem_two_tasks_simps)
  ultimately show ?thesis using spin_fails [of 0 e] by (meson converse_rtranclp_into_rtranclp zero_less_numeral)
qed

lemma two_tasks_check: "sem_step\<^sup>*\<^sup>* (sem_two_tasks 0 None [] {} {} {} 0 0 (Loop None) Idle) (sem_two_tasks 1 (Some 64) [] {} {} {} 1 0 Sub Idle)"
proof -
  note task = sem_two_tasks_simps(24,25)
  have "sem_step (sem_two_tasks 0 None [] {} {} {} 0 0 (Loop None) Idle) (sem_two_tasks 0 None [] {} {} {} 0 0 (Loop None) Signal_lock)"
    using run [OF _ call_signal [OF task(2), of "sem_two_tasks 0 None [] {} {} {} 0 0 (Loop None) Idle"]] by (simp add: sem_two_tasks_simps)
  moreover have "sem_step (sem_two_tasks 0 None [] {} {} {} 0 0 (Loop None) Signal_lock) (sem_two_tasks 0 (Some 128) [] {} {} {} 0 0 (Loop None) Signal_add)"
    using run [OF _ in_signal [OF task(2) signal_lock, of "sem_two_tasks 0 None [] {} {} {} 0 0 (Loop None) Signal_lock"]] by (simp add: sem_two_tasks_simps)
  moreover have "sem_step (sem_two_tasks 0 (Some 128) [] {} {} {} 0 0 (Loop None) Signal_add) (sem_two_tasks 1 (Some 128) [] {} {} {} 1 0 (Loop None) Signal_dequeue)"
    using run [OF _ in_signal [OF task(2) signal_add, of "sem_two_tasks 0 (Some 128) [] {} {} {} 0 0 (Loop None) Signal_add"]] by (simp add: sem_two_tasks_simps)
  moreover have "sem_step (sem_two_tasks 1 (Some 128) [] {} {} {} 1 0 (Loop None) Signal_dequeue) (sem_two_tasks 1 (Some 128) [] {} {} {} 1 0 (Loop None) (Signal_unlock None))"
    using run [OF _ in_signal [OF task(2) signal_none, of "sem_two_tasks 1 (Some 128) [] {} {} {} 1 0 (Loop None) Signal_dequeue"]] by (simp add: sem_two_tasks_simps)
  moreover have "sem_step (sem_two_tasks 1 (Some 128) [] {} {} {} 1 0 (Loop None) (Signal_unlock None)) (sem_two_tasks 1 None [] {} {} {} 1 0 (Loop None) (Signal_wake None))"
    using run [OF _ in_signal [OF task(2) signal_unlock, of "sem_two_tasks 1 (Some 128) [] {} {} {} 1 0 (Loop None) (Signal_unlock None)" None]] by (simp add: sem_two_tasks_simps)
  moreover have "sem_step (sem_two_tasks 1 None [] {} {} {} 1 0 (Loop None) (Signal_wake None)) (sem_two_tasks 1 None [] {} {} {} 1 0 (Loop None) Idle)"
    using run [OF _ in_signal [OF task(2) signal_wake, of "sem_two_tasks 1 None [] {} {} {} 1 0 (Loop None) (Signal_wake None)" None]] by (simp add: sem_two_tasks_simps)
  moreover have "sem_step (sem_two_tasks 1 None [] {} {} {} 1 0 (Loop None) Idle) (sem_two_tasks 1 None [] {} {} {} 1 0 (Lock None) Idle)"
    using run [OF _ in_wait [OF task(1) loop, of "sem_two_tasks 1 None [] {} {} {} 1 0 (Loop None) Idle" None]] by (simp add: sem_two_tasks_simps)
  moreover have "sem_step (sem_two_tasks 1 None [] {} {} {} 1 0 (Lock None) Idle) (sem_two_tasks 1 (Some 64) [] {} {} {} 1 0 (Check None) Idle)"
    using run [OF _ in_wait [OF task(1) sem_wait_step.lock, of "sem_two_tasks 1 None [] {} {} {} 1 0 (Lock None) Idle" None]] by (simp add: sem_two_tasks_simps)
  moreover have "sem_step (sem_two_tasks 1 (Some 64) [] {} {} {} 1 0 (Check None) Idle) (sem_two_tasks 1 (Some 64) [] {} {} {} 1 0 Sub Idle)"
    using run [OF _ in_wait [OF task(1) check_positive, of "sem_two_tasks 1 (Some 64) [] {} {} {} 1 0 (Check None) Idle" None]] by (simp add: sem_two_tasks_simps)
  ultimately show ?thesis by (meson rtranclp.intros)
qed

text \<open>A task that has seen the last token under the lock, but not yet taken it, loses it to the fast path of another task.\<close>

lemma two_tasks_race: "sem_step\<^sup>*\<^sup>* (sem_two_tasks 1 (Some 64) [] {} {} {} 1 0 Sub Idle) (sem_two_tasks (- 1) (Some 64) [] {} {} {} 1 2 Unlock_acquired Idle)"
proof -
  note task = sem_two_tasks_simps(24,25)
  have "sem_step (sem_two_tasks 1 (Some 64) [] {} {} {} 1 0 Sub Idle) (sem_two_tasks 1 (Some 64) [] {} {} {} 1 0 Sub (Fast_load Try))"
    using run [OF _ call_try [OF task(2), of "sem_two_tasks 1 (Some 64) [] {} {} {} 1 0 Sub Idle"]] by (simp add: sem_two_tasks_simps)
  moreover have "sem_step (sem_two_tasks 1 (Some 64) [] {} {} {} 1 0 Sub (Fast_load Try)) (sem_two_tasks 1 (Some 64) [] {} {} {} 1 0 Sub (Fast_cas Try 1))"
    using run [OF _ in_fast [OF task(2) fast_load, of "sem_two_tasks 1 (Some 64) [] {} {} {} 1 0 Sub (Fast_load Try)" Try]] by (simp add: sem_two_tasks_simps)
  moreover have "sem_step (sem_two_tasks 1 (Some 64) [] {} {} {} 1 0 Sub (Fast_cas Try 1)) (sem_two_tasks 0 (Some 64) [] {} {} {} 1 1 Sub Idle)"
    using run [OF _ in_fast [OF task(2) fast_acquired, of "sem_two_tasks 1 (Some 64) [] {} {} {} 1 0 Sub (Fast_cas Try 1)" Try 1]] by (simp add: sem_two_tasks_simps)
  moreover have "sem_step (sem_two_tasks 0 (Some 64) [] {} {} {} 1 1 Sub Idle) (sem_two_tasks (- 1) (Some 64) [] {} {} {} 1 2 Unlock_acquired Idle)"
    using run [OF _ in_wait [OF task(1) sub, of "sem_two_tasks 0 (Some 64) [] {} {} {} 1 1 Sub Idle"]] by (simp add: sem_two_tasks_simps numeral_2_eq_2)
  ultimately show ?thesis by (meson rtranclp.intros)
qed

lemma two_tasks_overcommitted: "sem_step\<^sup>*\<^sup>* (sem_init 0 0) (sem_two_tasks (- 1) (Some 64) [] {} {} {} 1 2 Unlock_acquired Idle)"
  using two_tasks_loop two_tasks_check two_tasks_race by (meson rtranclp_trans)

text \<open>
  C37: A semaphore that starts without tokens and is signalled once can be acquired twice, after which its count is negative:
  \<open>sem_wait\<close> decrements the count under the lock without looking at it again, while the fast path needs no lock.
\<close>

theorem sem_overcommit:
  "\<exists>m. sem_step\<^sup>*\<^sup>* (sem_init 0 0) m \<and> base m = 0 \<and> given m = 1 \<and> taken m = 2 \<and> sint (count m) = - 1"
  using two_tasks_overcommitted
  by (intro exI [of _ "sem_two_tasks (- 1) (Some 64) [] {} {} {} 1 2 Unlock_acquired Idle"]) (simp add: sem_two_tasks_simps)


section \<open>Waiting\<close>

lemma two_tasks_waiting:
  assumes "\<not> expired 0 e"
  shows "sem_step\<^sup>*\<^sup>* (sem_init 0 0) (sem_two_tasks 0 (Some 64) [64] {64} {64} {} 0 0 (Unlock_wait e) Idle)"
proof -
  let ?m = "\<lambda>l p. sem_two_tasks 0 l [] {} {} {} 0 0 p Idle"
  note task = sem_two_tasks_simps(24)
  have "sem_step (?m None (Loop e)) (?m None (Lock e))"
    using run [OF _ in_wait [OF task loop, of "?m None (Loop e)" e]] by (simp add: sem_two_tasks_simps assms)
  moreover have "sem_step (?m None (Lock e)) (?m (Some 64) (Check e))"
    using run [OF _ in_wait [OF task sem_wait_step.lock, of "?m None (Lock e)" e]] by (simp add: sem_two_tasks_simps)
  moreover have "sem_step (?m (Some 64) (Check e)) (?m (Some 64) (Enqueue e))"
    using run [OF _ in_wait [OF task check_none, of "?m (Some 64) (Check e)" e]] by (simp add: sem_two_tasks_simps)
  moreover have "sem_step (?m (Some 64) (Enqueue e)) (sem_two_tasks 0 (Some 64) [64] {64} {64} {} 0 0 (Unlock_wait e) Idle)"
    using run [OF _ in_wait [OF task enqueue, of "?m (Some 64) (Enqueue e)" e]] by (simp add: sem_two_tasks_simps)
  ultimately show ?thesis using two_tasks_loop by (meson rtranclp.rtrancl_into_rtrancl)
qed

section \<open>A cancellation that races with \<open>sem_signal_all\<close>\<close>

lemma two_tasks_sleeping:
  "sem_step\<^sup>*\<^sup>* (sem_init 0 0) (sem_two_tasks 0 None [64] {64} {64} {64} 0 0 (Sleep (Some 1)) Idle)"
proof -
  let ?m = "\<lambda>l d p. sem_two_tasks 0 l [64] {64} {64} d 0 0 p Idle"
  note task = sem_two_tasks_simps(24)
  have "sem_step (?m (Some 64) {} (Unlock_wait (Some 1))) (?m None {} (Sleep_check 1))"
    using run [OF _ in_wait [OF task unlock_wait, of "?m (Some 64) {} (Unlock_wait (Some 1))" "Some 1"]] by (simp add: sem_two_tasks_simps)
  moreover have "sem_step (?m None {} (Sleep_check 1)) (?m None {} (Sleep_state 1))"
    using run [OF _ in_wait [OF task sleep_check, of "?m None {} (Sleep_check 1)" 1]] by (simp add: sem_two_tasks_simps)
  moreover have "sem_step (?m None {} (Sleep_state 1)) (?m None {} (Sleep_insert 1))"
    using run [OF _ in_wait [OF task sleep_state, of "?m None {} (Sleep_state 1)" 1]] by (simp add: sem_two_tasks_simps)
  moreover have "sem_step (?m None {} (Sleep_insert 1)) (?m None {64} (Sleep (Some 1)))"
    using run [OF _ in_wait [OF task sleep_insert, of "?m None {} (Sleep_insert 1)" 1]] by (simp add: sem_two_tasks_simps)
  ultimately show ?thesis using two_tasks_waiting [of "Some 1"] by (simp add: expired.simps)
qed

lemma two_tasks_popping:
  "sem_step\<^sup>*\<^sup>* (sem_two_tasks 0 None [64] {64} {64} d 0 0 w Idle) (sem_two_tasks 1 None [] {64} {64} d 1 0 w (All_del 64 []))"
proof -
  let ?m = "\<lambda>c l q g p. sem_two_tasks c l q {64} {64} d g 0 w p"
  note task = sem_two_tasks_simps(25)
  have "sem_step (?m 0 None [64] 0 Idle) (?m 0 None [64] 0 All_lock)"
    using run [OF _ call_signal_all [OF task, of "?m 0 None [64] 0 Idle"]] by (simp add: sem_two_tasks_simps)
  moreover have "sem_step (?m 0 None [64] 0 All_lock) (?m 0 (Some 128) [64] 0 All_detach)"
    using run [OF _ in_signal_all [OF task all_lock, of "?m 0 None [64] 0 All_lock"]] by (simp add: sem_two_tasks_simps)
  moreover have "sem_step (?m 0 (Some 128) [64] 0 All_detach) (?m 0 (Some 128) [] 0 (All_add [64]))"
    using run [OF _ in_signal_all [OF task all_detach, of "?m 0 (Some 128) [64] 0 All_detach"]] by (simp add: sem_two_tasks_simps)
  moreover have "sem_step (?m 0 (Some 128) [] 0 (All_add [64])) (?m 1 (Some 128) [] 1 (All_unlock [64]))"
    using run [OF _ in_signal_all [OF task all_add, of "?m 0 (Some 128) [] 0 (All_add [64])" "[64]"]] by (simp add: sem_two_tasks_simps)
  moreover have "sem_step (?m 1 (Some 128) [] 1 (All_unlock [64])) (?m 1 None [] 1 (All_pop [64]))"
    using run [OF _ in_signal_all [OF task all_unlock, of "?m 1 (Some 128) [] 1 (All_unlock [64])" "[64]"]] by (simp add: sem_two_tasks_simps)
  moreover have "sem_step (?m 1 None [] 1 (All_pop [64])) (?m 1 None [] 1 (All_del 64 []))"
    using run [OF _ in_signal_all [OF task all_pop, of "?m 1 None [] 1 (All_pop [64])" 64 "[]"]] by (simp add: sem_two_tasks_simps)
  ultimately show ?thesis by (meson rtranclp.intros)
qed



lemma two_tasks_cancelling:
  "sem_step\<^sup>*\<^sup>* (sem_two_tasks 1 None [] {64} {64} {64} 1 0 (Sleep (Some 1)) (All_del 64 []))
    (sem_two_tasks 1 (Some 64) [] {} {64} {} 1 0 (Cancel (Some 1)) (All_del 64 []))"
proof -
  let ?m = "\<lambda>l a p. sem_two_tasks 1 l [] a {64} a 1 0 p (All_del 64 [])"
  note task = sem_two_tasks_simps(24)
  have "sem_step (?m None {64} (Sleep (Some 1))) (?m None {} (Sleep (Some 1)))"
    using run [OF _ roused [OF task, of "?m None {64} (Sleep (Some 1))"]] by (simp add: sem_two_tasks_simps)
  moreover have "sem_step (?m None {} (Sleep (Some 1))) (?m None {} (Remove (Some 1)))"
    using run [OF _ in_wait [OF task sleep, of "?m None {} (Sleep (Some 1))" "Some 1"]] by (simp add: sem_two_tasks_simps)
  moreover have "sem_step (?m None {} (Remove (Some 1))) (?m None {} (Relock (Some 1)))"
    using run [OF _ in_remove [OF task remove_blocked, of "?m None {} (Remove (Some 1))" "Some 1"]] by (simp add: sem_two_tasks_simps)
  moreover have "sem_step (?m None {} (Relock (Some 1))) (?m (Some 64) {} (Cancel (Some 1)))"
    using run [OF _ in_remove [OF task relock, of "?m None {} (Relock (Some 1))" "Some 1"]] by (simp add: sem_two_tasks_simps)
  ultimately show ?thesis by (meson rtranclp.intros)
qed

text \<open>
  C38: A waiter with a deadline can race with \<open>sem_signal_all\<close>: a state is reachable in which one task has read the first entry of
  its detached list and is about to unlink it, without the lock, while the waiter of that entry has been woken by the timer, holds
  the lock, still counts as blocked on the semaphore, and unlinks the same entry.
\<close>

theorem sem_cancel_races:
  "\<exists>m m'. sem_step\<^sup>*\<^sup>* (sem_init 0 0) m \<and> pc m 128 = All_del 64 [] \<and> pc m 64 = Cancel (Some 1) \<and> lock m = Some 64 \<and>
    sem_step m m' \<and> raced m'"
proof (intro exI conjI)
  let ?m = "sem_two_tasks 1 (Some 64) [] {} {64} {} 1 0 (Cancel (Some 1)) (All_del 64 [])"
  show "sem_step\<^sup>*\<^sup>* (sem_init 0 0) ?m" using two_tasks_sleeping two_tasks_popping two_tasks_cancelling by (meson rtranclp_trans)
  show "sem_step ?m (?m\<lparr>raced := True\<rparr>)"
    using run [OF _ in_remove [OF sem_two_tasks_simps(24) cancel_race, of ?m "Some 1"]] by (simp add: sem_two_tasks_simps)
qed (simp_all add: sem_two_tasks_simps)

end
