(* ===== verification/Spinlock.thy ===== *)
theory Spinlock
  imports Steps
begin

text \<open>
  The queue spin lock of \<open>src/src/kernel/locking/spinlock.c\<close> and \<open>spinlock.h\<close> as a transition system over all the locks of the
  kernel, which share the queue nodes of the processors. A context is a processor with a level of interrupt nesting; a
  context runs only while the contexts nested above it on its processor are not inside an acquisition, which is the nesting
  the bound \<open>QNODE_DEPTH\<close> of the code relies on.
\<close>

section \<open>Tails\<close>

text \<open>A queue node, by its processor and its index.\<close>

type_synonym qnode = "nat \<times> nat"

abbreviation QNODE_DEPTH :: nat where
  "QNODE_DEPTH \<equiv> 4"

definition encode_tail :: "nat \<Rightarrow> u32 \<Rightarrow> u32" where
  "encode_tail cpu idx = push_bit 16 ((word_of_nat cpu + 1) OR push_bit 14 idx)"

text \<open>No node is the panic about a corrupted tail.\<close>

definition decode_tail :: "u32 \<Rightarrow> qnode option" where
  "decode_tail v =
     (let tail_16 = drop_bit 16 v;
          cpu = (tail_16 AND 0x3FFF) - 1;
          idx = drop_bit 14 tail_16
      in if unat cpu \<ge> MAX_CPUS \<or> unat idx \<ge> QNODE_DEPTH then None else Some (unat cpu, unat idx))"

section \<open>State\<close>

datatype ctx = Ctx (cpu: nat) (level: nat)

datatype spin_pc =
    Idle
  | Fast u32
  | Try u32
  | Enter u32
  | Init u32
  | Load u32
  | Cas_tail u32 u32
  | Link u32 u32
  | Wait_node u32
  | Wait_lock u32
  | Grab u32
  | Set_locked u32
  | Wait_next u32
  | Hand u32 qnode
  | Leave u32
  | Panic

text \<open>
  The words of the locks, the queue nodes, the number of nodes in use on each processor, and for each context the index of its
  node and its place in the code. The locks a context has acquired and the contexts in the queue of a lock are not stored by
  the code.
\<close>

record spinlocks =
  val :: "u32 \<Rightarrow> u32"
  next_node :: "qnode \<Rightarrow> qnode option"
  node_locked :: "qnode \<Rightarrow> u8"
  qnode_idx :: "nat \<Rightarrow> u32"
  idx :: "ctx \<Rightarrow> u32"
  pc :: "ctx \<Rightarrow> spin_pc"
  held :: "ctx \<Rightarrow> u32 set"
  queue :: "u32 \<Rightarrow> ctx list"

definition spinlock_init :: "(qnode \<Rightarrow> qnode option) \<Rightarrow> (qnode \<Rightarrow> u8) \<Rightarrow> (ctx \<Rightarrow> u32) \<Rightarrow> spinlocks" where
  "spinlock_init nx nl i = \<lparr>val = (\<lambda>_. 0), next_node = nx, node_locked = nl, qnode_idx = (\<lambda>_. 0), idx = i, pc = (\<lambda>_. Idle),
     held = (\<lambda>_. {}), queue = (\<lambda>_. [])\<rparr>"

abbreviation spin_goto :: "ctx \<Rightarrow> spin_pc \<Rightarrow> spinlocks \<Rightarrow> spinlocks" where
  "spin_goto t p m \<equiv> m\<lparr>pc := (pc m)(t := p)\<rparr>"

abbreviation set_val :: "u32 \<Rightarrow> u32 \<Rightarrow> spinlocks \<Rightarrow> spinlocks" where
  "set_val a v m \<equiv> m\<lparr>val := (val m)(a := v)\<rparr>"

abbreviation acquired :: "ctx \<Rightarrow> u32 \<Rightarrow> spinlocks \<Rightarrow> spinlocks" where
  "acquired t a m \<equiv> m\<lparr>held := (held m)(t := insert a (held m t))\<rparr>"

text \<open>The node of a context, and its tail.\<close>

definition node :: "(ctx \<Rightarrow> u32) \<Rightarrow> ctx \<Rightarrow> qnode" where
  "node i t = (cpu t, unat (i t))"

definition tail_of :: "(ctx \<Rightarrow> u32) \<Rightarrow> ctx \<Rightarrow> u32" where
  "tail_of i t = encode_tail (cpu t) (i t)"

section \<open>The code\<close>

inductive spinlock_acquire_step :: "ctx \<Rightarrow> spinlocks \<Rightarrow> spinlocks \<Rightarrow> bool" for t where
  fast_acquired: "pc m t = Fast a \<Longrightarrow> val m a = 0 \<Longrightarrow>
    spinlock_acquire_step t m (spin_goto t Idle (set_val a 1 (acquired t a m)))"
| fast_busy: "pc m t = Fast a \<Longrightarrow> val m a \<noteq> 0 \<Longrightarrow> spinlock_acquire_step t m (spin_goto t (Enter a) m)"

inductive spinlock_try_acquire_step :: "ctx \<Rightarrow> spinlocks \<Rightarrow> spinlocks \<Rightarrow> bool" for t where
  try_acquired: "pc m t = Try a \<Longrightarrow> val m a = 0 \<Longrightarrow>
    spinlock_try_acquire_step t m (spin_goto t Idle (set_val a 1 (acquired t a m)))"
| try_busy: "pc m t = Try a \<Longrightarrow> val m a \<noteq> 0 \<Longrightarrow> spinlock_try_acquire_step t m (spin_goto t Idle m)"

text \<open>\<open>spinlock_release\<close> stores the lowest byte of the word.\<close>

inductive spinlock_release_step :: "ctx \<Rightarrow> spinlocks \<Rightarrow> spinlocks \<Rightarrow> bool" for t where
  release: "pc m t = Idle \<Longrightarrow> a \<in> held m t \<Longrightarrow>
    spinlock_release_step t m ((set_val a (val m a AND 0xFFFFFF00) m)\<lparr>held := (held m)(t := held m t - {a})\<rparr>)"

inductive spinlock_acquire_slowpath_step :: "ctx \<Rightarrow> spinlocks \<Rightarrow> spinlocks \<Rightarrow> bool" for t where
  enter_invalid: "pc m t = Enter a \<Longrightarrow> cpu t \<ge> MAX_CPUS \<Longrightarrow> spinlock_acquire_slowpath_step t m (spin_goto t Panic m)"
| enter_deep: "pc m t = Enter a \<Longrightarrow> cpu t < MAX_CPUS \<Longrightarrow> unat (qnode_idx m (cpu t)) \<ge> QNODE_DEPTH \<Longrightarrow>
    spinlock_acquire_slowpath_step t m (spin_goto t Panic (m\<lparr>qnode_idx := (qnode_idx m)(cpu t := qnode_idx m (cpu t) + 1)\<rparr>))"
| enter: "pc m t = Enter a \<Longrightarrow> cpu t < MAX_CPUS \<Longrightarrow> unat (qnode_idx m (cpu t)) < QNODE_DEPTH \<Longrightarrow>
    spinlock_acquire_slowpath_step t m (spin_goto t (Init a)
      (m\<lparr>qnode_idx := (qnode_idx m)(cpu t := qnode_idx m (cpu t) + 1), idx := (idx m)(t := qnode_idx m (cpu t))\<rparr>))"
| init: "pc m t = Init a \<Longrightarrow> spinlock_acquire_slowpath_step t m (spin_goto t (Load a)
      (m\<lparr>next_node := (next_node m)(node (idx m) t := None), node_locked := (node_locked m)(node (idx m) t := 1)\<rparr>))"
| load: "pc m t = Load a \<Longrightarrow> spinlock_acquire_slowpath_step t m (spin_goto t (Cas_tail a (val m a)) m)"
| cas_lost: "pc m t = Cas_tail a old \<Longrightarrow> val m a \<noteq> old \<Longrightarrow>
    spinlock_acquire_slowpath_step t m (spin_goto t (Cas_tail a (val m a)) m)"
| cas_tail: "pc m t = Cas_tail a old \<Longrightarrow> val m a = old \<Longrightarrow> prev_tail = old AND 0xFFFF0000 \<Longrightarrow>
    p = (if prev_tail \<noteq> 0 then Link a prev_tail else Wait_lock a) \<Longrightarrow>
    spinlock_acquire_slowpath_step t m (spin_goto t p (set_val a ((old AND 0x0000FFFF) OR tail_of (idx m) t)
      (m\<lparr>queue := (queue m)(a := queue m a @ [t])\<rparr>)))"
| link_corrupted: "pc m t = Link a prev_tail \<Longrightarrow> decode_tail prev_tail = None \<Longrightarrow>
    spinlock_acquire_slowpath_step t m (spin_goto t Panic m)"
| link: "pc m t = Link a prev_tail \<Longrightarrow> decode_tail prev_tail = Some prev_node \<Longrightarrow>
    spinlock_acquire_slowpath_step t m (spin_goto t (Wait_node a)
      (m\<lparr>next_node := (next_node m)(prev_node := Some (node (idx m) t))\<rparr>))"
| wait_node: "pc m t = Wait_node a \<Longrightarrow> node_locked m (node (idx m) t) \<noteq> 0 \<Longrightarrow> spinlock_acquire_slowpath_step t m m"
| node_free: "pc m t = Wait_node a \<Longrightarrow> node_locked m (node (idx m) t) = 0 \<Longrightarrow>
    spinlock_acquire_slowpath_step t m (spin_goto t (Wait_lock a) m)"
| wait_lock: "pc m t = Wait_lock a \<Longrightarrow> val m a AND 0xFF \<noteq> 0 \<Longrightarrow> spinlock_acquire_slowpath_step t m m"
| lock_free: "pc m t = Wait_lock a \<Longrightarrow> val m a AND 0xFF = 0 \<Longrightarrow> spinlock_acquire_slowpath_step t m (spin_goto t (Grab a) m)"
| grabbed: "pc m t = Grab a \<Longrightarrow> val m a = tail_of (idx m) t \<Longrightarrow>
    spinlock_acquire_slowpath_step t m (spin_goto t (Leave a) (set_val a 1 (acquired t a (m\<lparr>queue := (queue m)(a := tl (queue m a))\<rparr>))))"
| grab_lost: "pc m t = Grab a \<Longrightarrow> val m a \<noteq> tail_of (idx m) t \<Longrightarrow>
    spinlock_acquire_slowpath_step t m (spin_goto t (Set_locked a) m)"
| set_locked: "pc m t = Set_locked a \<Longrightarrow>
    spinlock_acquire_slowpath_step t m (spin_goto t (Wait_next a) (set_val a ((val m a AND 0xFFFFFF00) OR 1) (acquired t a m)))"
| wait_next: "pc m t = Wait_next a \<Longrightarrow> next_node m (node (idx m) t) = None \<Longrightarrow> spinlock_acquire_slowpath_step t m m"
| has_next: "pc m t = Wait_next a \<Longrightarrow> next_node m (node (idx m) t) = Some n \<Longrightarrow>
    spinlock_acquire_slowpath_step t m (spin_goto t (Hand a n) m)"
| hand: "pc m t = Hand a n \<Longrightarrow> spinlock_acquire_slowpath_step t m (spin_goto t (Leave a)
      (m\<lparr>node_locked := (node_locked m)(n := 0), queue := (queue m)(a := tl (queue m a))\<rparr>))"
| leave: "pc m t = Leave a \<Longrightarrow> spinlock_acquire_slowpath_step t m (spin_goto t Idle
      (m\<lparr>qnode_idx := (qnode_idx m)(cpu t := qnode_idx m (cpu t) - 1)\<rparr>))"

text \<open>
  The operations of all contexts, interleaved; the argument says which contexts may take a step. With interrupt nesting alone a
  context runs when no context nested above it on its processor is inside an acquisition.
\<close>

inductive spinlock_step :: "(spinlocks \<Rightarrow> ctx \<Rightarrow> bool) \<Rightarrow> spinlocks \<Rightarrow> spinlocks \<Rightarrow> bool" for r where
  call_acquire: "r m t \<Longrightarrow> pc m t = Idle \<Longrightarrow> spinlock_step r m (spin_goto t (Fast a) m)"
| call_try: "r m t \<Longrightarrow> pc m t = Idle \<Longrightarrow> spinlock_step r m (spin_goto t (Try a) m)"
| in_acquire: "r m t \<Longrightarrow> spinlock_acquire_step t m m' \<Longrightarrow> spinlock_step r m m'"
| in_try: "r m t \<Longrightarrow> spinlock_try_acquire_step t m m' \<Longrightarrow> spinlock_step r m m'"
| in_slowpath: "r m t \<Longrightarrow> spinlock_acquire_slowpath_step t m m' \<Longrightarrow> spinlock_step r m m'"
| in_release: "r m t \<Longrightarrow> spinlock_release_step t m m' \<Longrightarrow> spinlock_step r m m'"

definition nested :: "spinlocks \<Rightarrow> ctx \<Rightarrow> bool" where
  "nested m t \<longleftrightarrow> cpu t < MAX_CPUS \<and> level t < QNODE_DEPTH \<and> (\<forall>l > level t. pc m (Ctx (cpu t) l) = Idle)"

text \<open>
  The reschedule interrupt of \<open>src/src/arch/i386/idt.c\<close> calls \<open>sched_yield\<close> whatever code it interrupts, so that with
  interrupts enabled the contexts of one processor may also be tasks that preempt each other in any order.
\<close>

definition preempted :: "spinlocks \<Rightarrow> ctx \<Rightarrow> bool" where
  "preempted m t \<longleftrightarrow> cpu t < MAX_CPUS"

section \<open>Tails\<close>

lemma unat_encode:
  assumes "c < MAX_CPUS" "unat i < QNODE_DEPTH"
  shows "unat (encode_tail c i) = (c + 1 + unat i * 2 ^ 14) * 2 ^ 16"
proof -
  have c: "unat (word_of_nat c + 1 :: u32) = c + 1"
    using assms(1) by (simp add: unat_add_no_overflow unat_of_nat)
  have i: "unat (push_bit 14 i) = unat i * 2 ^ 14" using assms(2) by (intro unat_push_bit) simp_all
  have "(word_of_nat c + 1) OR push_bit 14 i = (word_of_nat c + 1) + push_bit 14 i"
    by (rule or_push_bit) (use c assms(1) in simp)
  then have "unat ((word_of_nat c + 1) OR push_bit 14 i) = c + 1 + unat i * 2 ^ 14"
    using assms c i by (simp add: unat_add_no_overflow)
  then show ?thesis using assms unfolding encode_tail_def by (subst unat_push_bit) simp_all
qed

lemma decode_encode:
  assumes "c < MAX_CPUS" "unat i < QNODE_DEPTH"
  shows "decode_tail (encode_tail c i) = Some (c, unat i)"
proof -
  let ?t = "drop_bit 16 (encode_tail c i)"
  have t: "unat ?t = c + 1 + unat i * 2 ^ 14" using unat_encode [OF assms] by (simp add: unat_drop_bit)
  have "unat (?t AND 0x3FFF) = c + 1" using unat_and_mask [of ?t 14] t assms by (simp add: mask_eq_exp_minus_1)
  then have "unat ((?t AND 0x3FFF) - 1) = c" by (subst unat_sub) (simp_all add: word_le_nat_alt)
  moreover have "unat (drop_bit 14 ?t) = unat i" unfolding unat_drop_bit [of 14] t using assms by simp
  ultimately show ?thesis using assms by (simp add: decode_tail_def Let_def)
qed

text \<open>The word of a lock is a tail, whose lower half is zero, and a lock byte.\<close>

lemma word_parts:
  assumes "T AND 0xFFFF = (0 :: u32)" "b = 0 \<or> b = 1"
  shows "(T OR b) AND 0xFFFF = b" "(T OR b) AND 0xFFFF0000 = T" "(T OR b) AND 0xFF = b" "(T OR b) AND 0xFFFFFF00 = T"
proof -
  have m: "(0xFFFF :: u32) = mask 16" "(0xFFFF0000 :: u32) = NOT (mask 16)" "(0xFF :: u32) = mask 8" "(0xFFFFFF00 :: u32) = NOT (mask 8)"
    by (simp_all add: mask_eq_exp_minus_1)
  have T: "\<not> bit T n" if "n < 16" for n
    using assms(1) that unfolding m(1) by (metis bit_0_eq bit_and_iff bit_mask_iff bot_apply bot_bool_def bit_imp_possible_bit)
  have b: "bit b n \<longleftrightarrow> b = 1 \<and> n = 0" for n using assms(2) by (auto simp: bit_1_iff)
  show "(T OR b) AND 0xFFFF = b" "(T OR b) AND 0xFFFF0000 = T" "(T OR b) AND 0xFF = b" "(T OR b) AND 0xFFFFFF00 = T"
    unfolding m by (rule bit_word_eqI, use T b in \<open>force simp: bit_and_iff bit_or_iff bit_not_iff bit_mask_iff\<close>)+
qed

lemma tail_low: "tail_of i t AND 0xFFFF = 0"
proof -
  have "(0xFFFF :: u32) = mask 16" by (simp add: mask_eq_exp_minus_1)
  then show ?thesis unfolding tail_of_def encode_tail_def
    by (simp only: take_bit_eq_mask [symmetric] take_bit_push_bit) simp
qed

lemma tail_nonzero: "cpu t < MAX_CPUS \<Longrightarrow> unat (i t) < QNODE_DEPTH \<Longrightarrow> tail_of i t \<noteq> 0"
  using unat_encode [of "cpu t" "i t"] by (auto simp: tail_of_def)

lemma tail_decode: "cpu t < MAX_CPUS \<Longrightarrow> unat (i t) < QNODE_DEPTH \<Longrightarrow> decode_tail (tail_of i t) = Some (node i t)"
  by (simp add: tail_of_def node_def decode_encode)

section \<open>The invariant\<close>

text \<open>The lock in whose queue a context is, and whether it uses a node.\<close>

fun queued :: "spin_pc \<Rightarrow> u32 option" where
  "queued (Link a _) = Some a"
| "queued (Wait_node a) = Some a"
| "queued (Wait_lock a) = Some a"
| "queued (Grab a) = Some a"
| "queued (Set_locked a) = Some a"
| "queued (Wait_next a) = Some a"
| "queued (Hand a _) = Some a"
| "queued _ = None"

fun in_slowpath :: "spin_pc \<Rightarrow> bool" where
  "in_slowpath Idle = False"
| "in_slowpath (Fast _) = False"
| "in_slowpath (Try _) = False"
| "in_slowpath (Enter _) = False"
| "in_slowpath Panic = False"
| "in_slowpath _ = True"

text \<open>
  The contexts of a processor that use a node, and those among them below a level; they have the indices \<open>0, 1, ...\<close> in the
  order of their levels.
\<close>

definition in_use :: "(ctx \<Rightarrow> spin_pc) \<Rightarrow> nat \<Rightarrow> nat" where
  "in_use f c = card {k. in_slowpath (f (Ctx c k))}"

definition below :: "(ctx \<Rightarrow> spin_pc) \<Rightarrow> nat \<Rightarrow> nat \<Rightarrow> nat" where
  "below f c l = card {k. k < l \<and> in_slowpath (f (Ctx c k))}"

definition inv_idx :: "(nat \<Rightarrow> u32) \<Rightarrow> (ctx \<Rightarrow> u32) \<Rightarrow> (ctx \<Rightarrow> spin_pc) \<Rightarrow> bool" where
  "inv_idx qi i f \<longleftrightarrow> (\<forall>c. unat (qi c) = in_use f c) \<and>
     (\<forall>c l. in_slowpath (f (Ctx c l)) \<longrightarrow> c < MAX_CPUS \<and> l < QNODE_DEPTH \<and> unat (i (Ctx c l)) = below f c l)"

text \<open>The links from each context in the queue to the one behind it.\<close>

fun links :: "u32 \<Rightarrow> (ctx \<Rightarrow> u32) \<Rightarrow> (ctx \<Rightarrow> spin_pc) \<Rightarrow> (qnode \<Rightarrow> qnode option) \<Rightarrow> (qnode \<Rightarrow> u8) \<Rightarrow> ctx list \<Rightarrow> bool" where
  "links a i f nx nl [] = True"
| "links a i f nx nl [x] = (nx (node i x) = None)"
| "links a i f nx nl (x # y # q) =
     (nl (node i y) = 1 \<and>
      (f y = Link a (tail_of i x) \<and> nx (node i x) = None \<or> f y = Wait_node a \<and> nx (node i x) = Some (node i y)) \<and>
      links a i f nx nl (y # q))"

fun head_ok :: "u32 \<Rightarrow> (ctx \<Rightarrow> u32) \<Rightarrow> (ctx \<Rightarrow> spin_pc) \<Rightarrow> (qnode \<Rightarrow> qnode option) \<Rightarrow> (qnode \<Rightarrow> u8) \<Rightarrow> (ctx \<Rightarrow> u32 set) \<Rightarrow> ctx list \<Rightarrow> bool"
  where
  "head_ok a i f nx nl hs [] = True"
| "head_ok a i f nx nl hs (h # q) = (case f h of
     Wait_node _ \<Rightarrow> nl (node i h) = 0
   | Wait_lock _ \<Rightarrow> True
   | Grab _ \<Rightarrow> (\<forall>t. a \<notin> hs t)
   | Set_locked _ \<Rightarrow> (\<forall>t. a \<notin> hs t) \<and> q \<noteq> []
   | Wait_next _ \<Rightarrow> a \<in> hs h \<and> q \<noteq> []
   | Hand _ n \<Rightarrow> a \<in> hs h \<and> q \<noteq> [] \<and> nx (node i h) = Some n
   | _ \<Rightarrow> False)"

definition tail_word :: "(ctx \<Rightarrow> u32) \<Rightarrow> ctx list \<Rightarrow> u32" where
  "tail_word i q = (if q = [] then 0 else tail_of i (last q))"

definition lock_byte :: "(ctx \<Rightarrow> u32 set) \<Rightarrow> u32 \<Rightarrow> u32" where
  "lock_byte hs a = (if \<exists>t. a \<in> hs t then 1 else 0)"

definition lock_ok :: "u32 \<Rightarrow> spinlocks \<Rightarrow> bool" where
  "lock_ok a m \<longleftrightarrow> distinct (queue m a) \<and> (\<forall>t. t \<in> set (queue m a) \<longleftrightarrow> queued (pc m t) = Some a) \<and>
     val m a = tail_word (idx m) (queue m a) OR lock_byte (held m) a \<and>
     links a (idx m) (pc m) (next_node m) (node_locked m) (queue m a) \<and>
     head_ok a (idx m) (pc m) (next_node m) (node_locked m) (held m) (queue m a)"

text \<open>A context that is about to enter the queue has prepared its node.\<close>

fun prepared :: "spin_pc \<Rightarrow> bool" where
  "prepared (Load _) = True"
| "prepared (Cas_tail _ _) = True"
| "prepared _ = False"

definition fresh_ok :: "spinlocks \<Rightarrow> ctx \<Rightarrow> bool" where
  "fresh_ok m t \<longleftrightarrow> (prepared (pc m t) \<longrightarrow> next_node m (node (idx m) t) = None \<and> node_locked m (node (idx m) t) = 1)"

definition spin_inv :: "spinlocks \<Rightarrow> bool" where
  "spin_inv m \<longleftrightarrow> inv_idx (qnode_idx m) (idx m) (pc m) \<and> (\<forall>a t u. a \<in> held m t \<longrightarrow> a \<in> held m u \<longrightarrow> t = u) \<and>
     (\<forall>a. lock_ok a m) \<and> (\<forall>t. fresh_ok m t \<and> pc m t \<noteq> Panic)"

section \<open>Nodes\<close>

lemma queued_slow: "queued p = Some a \<Longrightarrow> in_slowpath p"
  by (cases p) simp_all

lemma prepared_slow: "prepared p \<Longrightarrow> in_slowpath p \<and> queued p = None"
  by (cases p) simp_all

lemma below_le: "below f c l \<le> l"
proof -
  have "below f c l \<le> card {..<l}" unfolding below_def by (rule card_mono) auto
  then show ?thesis by simp
qed

lemma below_mono: "in_slowpath (f (Ctx c x)) \<Longrightarrow> x < y \<Longrightarrow> below f c x < below f c y"
  unfolding below_def by (rule psubset_card_mono, rule finite_subset [of _ "{..<y}"]) auto

lemma below_upd: "d \<noteq> c \<or> j \<le> l \<Longrightarrow> below (f(Ctx c l := p)) d j = below f d j"
  unfolding below_def by (rule arg_cong [where f = card]) auto

lemma in_use_other: "d \<noteq> c \<Longrightarrow> in_use (f(Ctx c l := p)) d = in_use f d"
  by (simp add: in_use_def)

lemma in_use_top:
  assumes "\<forall>k > l. f (Ctx c k) = Idle"
  shows "in_use f c = (if in_slowpath (f (Ctx c l)) then Suc (below f c l) else below f c l)"
proof -
  have up: "k < l" if "in_slowpath (f (Ctx c k))" "k \<noteq> l" for k using that assms by (metis in_slowpath.simps(1) linorder_neqE_nat)
  show ?thesis
  proof (cases "in_slowpath (f (Ctx c l))")
    case True
    then have "{k. in_slowpath (f (Ctx c k))} = insert l {k. k < l \<and> in_slowpath (f (Ctx c k))}" using up by auto
    then show ?thesis using True by (simp add: in_use_def below_def)
  next
    case False
    then have "{k. in_slowpath (f (Ctx c k))} = {k. k < l \<and> in_slowpath (f (Ctx c k))}" using up by auto
    then show ?thesis using False by (simp add: in_use_def below_def)
  qed
qed

lemma idx_bound:
  assumes "inv_idx qi i f" "in_slowpath (f t)"
  shows "cpu t < MAX_CPUS" "unat (i t) < QNODE_DEPTH"
proof -
  obtain c l where t: "t = Ctx c l" by (cases t)
  have l: "c < MAX_CPUS" "l < QNODE_DEPTH" "unat (i (Ctx c l)) = below f c l"
    using assms unfolding inv_idx_def t by blast+
  then show "cpu t < MAX_CPUS" "unat (i t) < QNODE_DEPTH" using below_le [of f c l] by (simp_all add: t)
qed

lemma node_inj:
  assumes "inv_idx qi i f" "in_slowpath (f t)" "in_slowpath (f u)" "node i t = node i u"
  shows "t = u"
proof -
  obtain c l d k where t: "t = Ctx c l" and u: "u = Ctx d k" by (cases t, cases u)
  have d: "d = c" and eq: "unat (i (Ctx c l)) = unat (i (Ctx c k))" using assms(4) by (auto simp: t u node_def)
  have "below f c l = below f c k" using assms(1-3) eq unfolding inv_idx_def t u d by metis
  then have "\<not> l < k" "\<not> k < l" using below_mono [of f c l k] below_mono [of f c k l] assms(2,3) by (auto simp: t u d)
  then show ?thesis by (simp add: t u d)
qed

lemma inv_idx_keep: "inv_idx qi i f \<Longrightarrow> in_slowpath p = in_slowpath (f t) \<Longrightarrow> inv_idx qi i (f(t := p))"
proof -
  assume inv: "inv_idx qi i f" and p: "in_slowpath p = in_slowpath (f t)"
  have "in_slowpath ((f(t := p)) u) = in_slowpath (f u)" for u using p by simp
  then show ?thesis using inv unfolding inv_idx_def in_use_def below_def by presburger
qed

lemma inv_idx_enter:
  assumes inv: "inv_idx qi i f" and top: "\<forall>k > l. f (Ctx c k) = Idle" and c: "c < MAX_CPUS" "l < QNODE_DEPTH"
    and p: "\<not> in_slowpath (f (Ctx c l))" "in_slowpath p"
  shows "unat (qi c) < QNODE_DEPTH" and "inv_idx (qi(c := qi c + 1)) (i(Ctx c l := qi c)) (f(Ctx c l := p))"
proof -
  have q: "unat (qi c) = below f c l" using inv in_use_top [OF top] p(1) by (simp add: inv_idx_def)
  then show q4: "unat (qi c) < QNODE_DEPTH" using c(2) below_le [of f c l] by simp
  have "in_use (f(Ctx c l := p)) c = Suc (below f c l)"
    using in_use_top [of l "f(Ctx c l := p)" c] top p(2) by (simp add: below_upd)
  then have "unat (qi c + 1) = in_use (f(Ctx c l := p)) c" using q q4 by (simp add: unat_add_no_overflow)
  moreover have "below (f(Ctx c l := p)) d j = below f d j" if "in_slowpath (f (Ctx d j))" for d j
    using that top by (intro below_upd) (metis in_slowpath.simps(1) not_le_imp_less)
  ultimately show "inv_idx (qi(c := qi c + 1)) (i(Ctx c l := qi c)) (f(Ctx c l := p))"
    using inv q c unfolding inv_idx_def by (simp add: in_use_other below_upd)
qed

lemma inv_idx_leave:
  assumes inv: "inv_idx qi i f" and top: "\<forall>k > l. f (Ctx c k) = Idle" and p: "in_slowpath (f (Ctx c l))" "\<not> in_slowpath p"
  shows "inv_idx (qi(c := qi c - 1)) i (f(Ctx c l := p))"
proof -
  have "unat (qi c) = Suc (below f c l)" using inv in_use_top [OF top] p(1) by (simp add: inv_idx_def)
  then have "unat (qi c - 1) = below f c l" by (subst unat_sub) (auto simp: word_le_nat_alt)
  then have "unat (qi c - 1) = in_use (f(Ctx c l := p)) c"
    using in_use_top [of l "f(Ctx c l := p)" c] top p(2) by (simp add: below_upd)
  moreover have "below (f(Ctx c l := p)) d j = below f d j" if "in_slowpath (f (Ctx d j))" for d j
    using that top by (intro below_upd) (metis in_slowpath.simps(1) not_le_imp_less)
  ultimately show ?thesis using inv p(2) unfolding inv_idx_def by (auto simp: in_use_other below_upd)
qed

section \<open>Queues\<close>

lemma links_cong:
  assumes "links a i f nx nl q" "\<And>x. x \<in> set q \<Longrightarrow> nx' (node i x) = nx (node i x) \<and> i' x = i x"
    "\<And>x. x \<in> set (tl q) \<Longrightarrow> nl' (node i x) = nl (node i x) \<and> f' x = f x"
  shows "links a i' f' nx' nl' q"
  using assms
proof (induction q rule: induct_list012)
  case (3 x y q)
  have i: "node i' z = node i z" "tail_of i' z = tail_of i z" if "z \<in> set (x # y # q)" for z
    using "3.prems"(2) [OF that] by (simp_all add: node_def tail_of_def)
  have "links a i' f' nx' nl' (y # q)"
    by (rule "3.IH"(2)) (use "3.prems" in \<open>auto simp: list.set_sel(2)\<close>)
  moreover have "nx' (node i x) = nx (node i x)" "nl' (node i y) = nl (node i y)" "f' y = f y" using "3.prems"(2,3) by simp_all
  ultimately show ?case using "3.prems"(1) by (simp add: i)
qed (simp_all add: node_def)

lemma links_pc: "links a i f nx nl q \<Longrightarrow> t \<notin> set (tl q) \<Longrightarrow> links a i (f(t := p)) nx nl q"
proof (rule links_cong [of a i f nx nl q])
  assume t: "t \<notin> set (tl q)"
  show "nl (node i x) = nl (node i x) \<and> (f(t := p)) x = f x" if "x \<in> set (tl q)" for x using that t by (cases "x = t") simp_all
qed simp_all

lemma links_snoc:
  "links a i f nx nl (q @ [x]) \<Longrightarrow> f y = Link a (tail_of i x) \<Longrightarrow> nl (node i y) = 1 \<Longrightarrow> nx (node i y) = None \<Longrightarrow>
    links a i f nx nl (q @ [x, y])"
  by (induction q rule: induct_list012) simp_all

lemma links_last: "links a i f nx nl (q @ [x]) \<Longrightarrow> nx (node i x) = None"
  by (induction q rule: induct_list012) simp_all

text \<open>Behind the head of a queue there are only contexts that have not linked themselves or that wait.\<close>

lemma links_behind:
  "links a i f nx nl (x # q) \<Longrightarrow> y \<in> set q \<Longrightarrow> nl (node i y) = 1 \<and> (\<exists>p. f y = Link a p) \<or> nl (node i y) = 1 \<and> f y = Wait_node a"
  by (induction q arbitrary: x) auto

lemma links_split:
  "links a i f nx nl (xs @ x # y # ys) \<Longrightarrow> f y = Link a p \<Longrightarrow> p = tail_of i x \<and> nx (node i x) = None"
  by (induction xs rule: induct_list012) auto

lemma links_Cons:
  "q \<noteq> [] \<Longrightarrow> links a i f nx nl (x # q) \<longleftrightarrow> nl (node i (hd q)) = 1 \<and>
    (f (hd q) = Link a (tail_of i x) \<and> nx (node i x) = None \<or> f (hd q) = Wait_node a \<and> nx (node i x) = Some (node i (hd q))) \<and>
    links a i f nx nl q"
  by (cases q) simp_all

lemma links_link:
  assumes "links a i f nx nl (xs @ x # y # ys)" "distinct (map (node i) (xs @ x # y # ys))"
  shows "links a i (f(y := Wait_node a)) (nx(node i x := Some (node i y))) nl (xs @ x # y # ys)"
  using assms
proof (induction xs)
  case Nil
  have "links a i (f(y := Wait_node a)) (nx(node i x := Some (node i y))) nl (y # ys)"
  proof (rule links_cong)
    show "links a i f nx nl (y # ys)" using Nil.prems(1) by simp
    have "node i z \<noteq> node i x" if "z \<in> set (y # ys)" for z using Nil.prems(2) that by (metis append_Nil distinct.simps(2) image_eqI list.set_map list.simps(9))
    then show "(nx(node i x := Some (node i y))) (node i z) = nx (node i z) \<and> i z = i z" if "z \<in> set (y # ys)" for z
      using that by simp
    show "nl (node i z) = nl (node i z) \<and> (f(y := Wait_node a)) z = f z" if "z \<in> set (tl (y # ys))" for z
      using Nil.prems(2) that by (cases "z = y") simp_all
  qed
  then show ?case using Nil.prems(1) by (simp del: fun_upd_apply) simp
next
  case (Cons u xs)
  let ?q = "xs @ x # y # ys"
  have q: "?q \<noteq> []" by simp
  have "hd ?q \<noteq> y" using Cons.prems(2) by (cases xs) auto
  moreover have "node i u \<noteq> node i x" using Cons.prems(2) by auto
  moreover have l: "links a i f nx nl (u # ?q)" using Cons.prems(1) by simp
  moreover have "links a i (f(y := Wait_node a)) (nx(node i x := Some (node i y))) nl ?q"
    by (rule Cons.IH) (use l links_Cons [OF q, of a i f nx nl u] Cons.prems(2) in simp_all)
  ultimately show ?case unfolding append_Cons links_Cons [OF q] by auto
qed

section \<open>Preservation\<close>

lemma lock_ok_frame:
  assumes "lock_ok b m" "val m' b = val m b" "queue m' b = queue m b" "\<And>u. b \<in> held m' u \<longleftrightarrow> b \<in> held m u"
    "\<And>u. queued (pc m' u) = Some b \<longleftrightarrow> queued (pc m u) = Some b"
    "\<And>u. queued (pc m u) = Some b \<Longrightarrow> pc m' u = pc m u \<and> idx m' u = idx m u \<and>
      next_node m' (node (idx m) u) = next_node m (node (idx m) u) \<and> node_locked m' (node (idx m) u) = node_locked m (node (idx m) u)"
  shows "lock_ok b m'"
proof -
  let ?q = "queue m b"
  have in_q: "u \<in> set ?q \<longleftrightarrow> queued (pc m u) = Some b" for u using assms(1) by (simp add: lock_ok_def)
  note same = assms(6) [folded in_q]
  have tl: "u \<in> set ?q" if "u \<in> set (tl ?q)" for u using that by (cases ?q) simp_all
  have "links b (idx m') (pc m') (next_node m') (node_locked m') ?q"
    by (rule links_cong [of b "idx m" "pc m" "next_node m" "node_locked m"]) (use assms(1) same tl in \<open>simp_all add: lock_ok_def\<close>)
  moreover have "head_ok b (idx m') (pc m') (next_node m') (node_locked m') (held m') ?q"
  proof (cases ?q)
    case (Cons h r)
    then have "pc m' h = pc m h" "idx m' h = idx m h" "next_node m' (node (idx m) h) = next_node m (node (idx m) h)"
      "node_locked m' (node (idx m) h) = node_locked m (node (idx m) h)" using same [of h] by simp_all
    moreover have "node (idx m') h = node (idx m) h" using calculation(2) by (simp add: node_def)
    ultimately show ?thesis using assms(1,4) Cons by (simp add: lock_ok_def split: spin_pc.splits)
  qed simp
  moreover have "tail_word (idx m') ?q = tail_word (idx m) ?q"
    using same [of "last ?q"] by (simp add: tail_word_def tail_of_def)
  moreover have "lock_byte (held m') b = lock_byte (held m) b" using assms(4) by (simp add: lock_byte_def)
  ultimately show ?thesis using assms(1-3,5) in_q by (simp add: lock_ok_def)
qed

lemma lock_ok_other:
  assumes "lock_ok b m" "pc m' = (pc m)(t := p)" "queued (pc m t) \<noteq> Some b" "queued p \<noteq> Some b"
    "\<And>u. u \<noteq> t \<Longrightarrow> idx m' u = idx m u" "val m' b = val m b" "queue m' b = queue m b" "\<And>u. b \<in> held m' u \<longleftrightarrow> b \<in> held m u"
    "\<And>u. u \<noteq> t \<Longrightarrow> queued (pc m u) = Some b \<Longrightarrow>
      next_node m' (node (idx m) u) = next_node m (node (idx m) u) \<and> node_locked m' (node (idx m) u) = node_locked m (node (idx m) u)"
  shows "lock_ok b m'"
proof (rule lock_ok_frame [OF assms(1,6-8)])
  show "queued (pc m' u) = Some b \<longleftrightarrow> queued (pc m u) = Some b" for u using assms(3,4) by (simp add: assms(2))
  fix u
  assume q: "queued (pc m u) = Some b"
  then have "u \<noteq> t" using assms(3) by auto
  then show "pc m' u = pc m u \<and> idx m' u = idx m u \<and> next_node m' (node (idx m) u) = next_node m (node (idx m) u) \<and>
      node_locked m' (node (idx m) u) = node_locked m (node (idx m) u)"
    using assms(9) [OF _ q] assms(5) by (simp add: assms(2))
qed

text \<open>A step of context \<open>t\<close> that concerns lock \<open>a\<close>.\<close>

lemma spin_inv_upd:
  assumes inv: "spin_inv m" and pc: "pc m' = (pc m)(t := p)" and p: "p \<noteq> Panic"
    and a: "queued (pc m t) = None \<or> queued (pc m t) = Some a" "queued p = None \<or> queued p = Some a"
    and idx: "inv_idx (qnode_idx m') (idx m') (pc m')" "\<And>u. u \<noteq> t \<Longrightarrow> idx m' u = idx m u"
    and others: "\<And>b. b \<noteq> a \<Longrightarrow> val m' b = val m b" "\<And>b. b \<noteq> a \<Longrightarrow> queue m' b = queue m b"
      "\<And>b u. b \<noteq> a \<Longrightarrow> b \<in> held m' u \<longleftrightarrow> b \<in> held m u"
    and nodes: "\<And>u. u \<noteq> t \<Longrightarrow> in_slowpath (pc m u) \<Longrightarrow> queued (pc m u) \<noteq> Some a \<Longrightarrow>
      next_node m' (node (idx m) u) = next_node m (node (idx m) u) \<and> node_locked m' (node (idx m) u) = node_locked m (node (idx m) u)"
    and lock: "lock_ok a m'" and fresh: "fresh_ok m' t" and held: "\<And>u v. a \<in> held m' u \<Longrightarrow> a \<in> held m' v \<Longrightarrow> u = v"
  shows "spin_inv m'"
  unfolding spin_inv_def
proof (intro conjI allI impI)
  show "inv_idx (qnode_idx m') (idx m') (pc m')" by (rule idx(1))
  show "u = v" if "b \<in> held m' u" "b \<in> held m' v" for b u v
    using that inv held others(3) unfolding spin_inv_def by (cases "b = a") blast+
  show "pc m' u \<noteq> Panic" for u using inv p by (simp add: pc spin_inv_def)
  show "lock_ok b m'" for b
  proof (cases "b = a")
    case False
    have q: "queued (pc m t) \<noteq> Some b" "queued p \<noteq> Some b" using a False by auto
    show ?thesis
    proof (rule lock_ok_other [OF _ pc q idx(2)])
      show "lock_ok b m" using inv by (simp add: spin_inv_def)
      show "next_node m' (node (idx m) u) = next_node m (node (idx m) u) \<and> node_locked m' (node (idx m) u) = node_locked m (node (idx m) u)"
        if "u \<noteq> t" "queued (pc m u) = Some b" for u
        using nodes [OF that(1) queued_slow [OF that(2)]] that(2) False by simp
    qed (use others [OF False] in simp_all)
  qed (simp add: lock)
  show "fresh_ok m' u" for u
  proof (cases "u = t")
    case False
    then have "node (idx m') u = node (idx m) u" using idx(2) by (simp add: node_def)
    moreover have "fresh_ok m u" using inv by (simp add: spin_inv_def)
    ultimately show ?thesis
      using nodes [OF False] prepared_slow [of "pc m u"] False by (cases "prepared (pc m u)") (simp_all add: fresh_ok_def pc)
  qed (simp add: fresh)
qed

text \<open>A move of a context that is in no queue and changes no lock.\<close>

lemma spin_inv_move:
  assumes inv: "spin_inv m" and pc: "pc m' = (pc m)(t := p)" and p: "p \<noteq> Panic" "queued (pc m t) = None" "queued p = None"
    and idx: "inv_idx (qnode_idx m') (idx m') (pc m')" "\<And>u. u \<noteq> t \<Longrightarrow> idx m' u = idx m u"
    and same: "val m' = val m" "queue m' = queue m" "held m' = held m"
    and nodes: "\<And>u. u \<noteq> t \<Longrightarrow> in_slowpath (pc m u) \<Longrightarrow>
      next_node m' (node (idx m) u) = next_node m (node (idx m) u) \<and> node_locked m' (node (idx m) u) = node_locked m (node (idx m) u)"
    and fresh: "fresh_ok m' t"
  shows "spin_inv m'"
proof (rule spin_inv_upd [OF inv pc p(1) _ _ idx, of 0])
  have q: "queued (pc m t) \<noteq> Some 0" "queued p \<noteq> Some 0" using p by simp_all
  show "lock_ok 0 m'"
    by (rule lock_ok_other [OF _ pc q idx(2)]) (use inv same nodes queued_slow in \<open>simp_all add: spin_inv_def\<close>)
  show "u = v" if "0 \<in> held m' u" "0 \<in> held m' v" for u v using that inv unfolding same spin_inv_def by blast
qed (use p same nodes fresh in simp_all)

section \<open>The steps\<close>

lemma tail_word_low: "tail_word i q AND 0xFFFF = 0"
  using tail_low by (simp add: tail_word_def)

lemma lock_byte_cases: "lock_byte hs a = 0 \<or> lock_byte hs a = 1"
  by (simp add: lock_byte_def)

lemma lock_word:
  assumes "lock_ok a m"
  shows "val m a AND 0xFFFF = lock_byte (held m) a" "val m a AND 0xFFFF0000 = tail_word (idx m) (queue m a)"
    "val m a AND 0xFF = lock_byte (held m) a" "val m a AND 0xFFFFFF00 = tail_word (idx m) (queue m a)"
proof -
  have v: "val m a = tail_word (idx m) (queue m a) OR lock_byte (held m) a" using assms by (simp add: lock_ok_def)
  show "val m a AND 0xFFFF = lock_byte (held m) a" "val m a AND 0xFFFF0000 = tail_word (idx m) (queue m a)"
    "val m a AND 0xFF = lock_byte (held m) a" "val m a AND 0xFFFFFF00 = tail_word (idx m) (queue m a)"
    unfolding v by (rule word_parts [OF tail_word_low lock_byte_cases])+
qed

lemma lock_byte_0: "lock_byte hs a = 0 \<longleftrightarrow> (\<forall>t. a \<notin> hs t)"
  by (simp add: lock_byte_def)

lemma in_queue: "lock_ok a m \<Longrightarrow> t \<in> set (queue m a) \<longleftrightarrow> queued (pc m t) = Some a"
  by (simp add: lock_ok_def)

lemma tail_word_0:
  assumes "spin_inv m" "tail_word (idx m) (queue m a) = 0"
  shows "queue m a = []"
proof (rule ccontr)
  assume q: "queue m a \<noteq> []"
  have "lock_ok a m" "inv_idx (qnode_idx m) (idx m) (pc m)" using assms(1) by (simp_all add: spin_inv_def)
  then have "in_slowpath (pc m (last (queue m a)))" using q in_queue queued_slow by (metis last_in_set)
  then have "tail_of (idx m) (last (queue m a)) \<noteq> 0"
    using tail_nonzero idx_bound \<open>inv_idx (qnode_idx m) (idx m) (pc m)\<close> by blast
  then show False using assms(2) q by (simp add: tail_word_def)
qed

lemma lock_zero:
  assumes "spin_inv m" "val m a = 0"
  shows "queue m a = []" "a \<notin> held m t"
proof -
  have "lock_ok a m" using assms(1) by (simp add: spin_inv_def)
  note w = lock_word [OF this, unfolded assms(2)]
  show "queue m a = []" using w(2) assms(1) by (intro tail_word_0) simp_all
  show "a \<notin> held m t" using w(1) lock_byte_0 [of "held m" a] by simp
qed

lemma lock_ok_empty:
  "queue m a = [] \<Longrightarrow> (\<And>u. queued (pc m u) \<noteq> Some a) \<Longrightarrow> val m a = lock_byte (held m) a \<Longrightarrow> lock_ok a m"
  by (simp add: lock_ok_def tail_word_def)

lemma acquire_free_inv:
  assumes "spin_inv m" "pc m t = Fast a \<or> pc m t = Try a" "val m a = 0"
  shows "spin_inv (spin_goto t Idle (set_val a 1 (acquired t a m)))"
proof (rule spin_inv_upd [OF assms(1), where t = t and a = a])
  note free = lock_zero [OF assms(1,3)]
  have "queued (pc m u) \<noteq> Some a" for u using assms(1) free(1) in_queue [of a m u] by (simp add: spin_inv_def)
  then show "lock_ok a (spin_goto t Idle (set_val a 1 (acquired t a m)))"
    using free(1) by (intro lock_ok_empty) (auto simp: lock_byte_def)
  show "u = v" if "a \<in> held (spin_goto t Idle (set_val a 1 (acquired t a m))) u" "a \<in> held (spin_goto t Idle (set_val a 1 (acquired t a m))) v" for u v
    using that free(2) by (simp split: if_splits)
  show "inv_idx (qnode_idx (spin_goto t Idle (set_val a 1 (acquired t a m)))) (idx (spin_goto t Idle (set_val a 1 (acquired t a m))))
      (pc (spin_goto t Idle (set_val a 1 (acquired t a m))))"
    using assms(1,2) by (auto simp: spin_inv_def intro: inv_idx_keep)
qed (use assms(2) in \<open>auto simp: fresh_ok_def\<close>)

lemma quiet_move_inv:
  assumes "spin_inv m" "\<not> in_slowpath (pc m t)" "\<not> in_slowpath p" "p \<noteq> Panic"
  shows "spin_inv (spin_goto t p m)"
proof (rule spin_inv_move [OF assms(1), where t = t and p = p])
  show "queued (pc m t) = None" "queued p = None" using assms(2,3) queued_slow by (metis option.exhaust)+
  show "inv_idx (qnode_idx (spin_goto t p m)) (idx (spin_goto t p m)) (pc (spin_goto t p m))"
    using assms(1-3) by (auto simp: spin_inv_def intro: inv_idx_keep)
  show "fresh_ok (spin_goto t p m) t" using assms(3) prepared_slow by (auto simp: fresh_ok_def)
qed (use assms in simp_all)

lemma enter_inv:
  assumes "spin_inv m" "nested m t" "pc m t = Enter a"
  shows "unat (qnode_idx m (cpu t)) < QNODE_DEPTH"
    and "spin_inv (spin_goto t (Init a)
      (m\<lparr>qnode_idx := (qnode_idx m)(cpu t := qnode_idx m (cpu t) + 1), idx := (idx m)(t := qnode_idx m (cpu t))\<rparr>))" (is "spin_inv ?m")
proof -
  have idx: "inv_idx (qnode_idx m) (idx m) (pc m)" using assms(1) by (simp add: spin_inv_def)
  have top: "\<forall>k > level t. pc m (Ctx (cpu t) k) = Idle" and c: "cpu t < MAX_CPUS" "level t < QNODE_DEPTH"
    using assms(2) by (simp_all add: nested_def)
  have p: "\<not> in_slowpath (pc m (Ctx (cpu t) (level t)))" "in_slowpath (Init a)" using assms(3) by simp_all
  show "unat (qnode_idx m (cpu t)) < QNODE_DEPTH" by (rule inv_idx_enter(1) [OF idx top c p])
  show "spin_inv ?m"
  proof (rule spin_inv_move [OF assms(1), where t = t and p = "Init a"])
    show "inv_idx (qnode_idx ?m) (idx ?m) (pc ?m)" using inv_idx_enter(2) [OF idx top c p] by simp
  qed (use assms(3) in \<open>simp_all add: fresh_ok_def\<close>)
qed

lemma init_inv:
  assumes "spin_inv m" "pc m t = Init a"
  shows "spin_inv (spin_goto t (Load a)
      (m\<lparr>next_node := (next_node m)(node (idx m) t := None), node_locked := (node_locked m)(node (idx m) t := 1)\<rparr>))" (is "spin_inv ?m")
proof (rule spin_inv_move [OF assms(1), where t = t and p = "Load a"])
  have idx: "inv_idx (qnode_idx m) (idx m) (pc m)" using assms(1) by (simp add: spin_inv_def)
  show "inv_idx (qnode_idx ?m) (idx ?m) (pc ?m)" using idx assms(2) by (simp add: inv_idx_keep)
  show "next_node ?m (node (idx m) u) = next_node m (node (idx m) u) \<and> node_locked ?m (node (idx m) u) = node_locked m (node (idx m) u)"
    if "u \<noteq> t" "in_slowpath (pc m u)" for u
    using that node_inj [OF idx, of u t] assms(2) by auto
qed (use assms(2) in \<open>simp_all add: fresh_ok_def\<close>)

lemma prepared_move_inv:
  assumes "spin_inv m" "prepared (pc m t)" "prepared p"
  shows "spin_inv (spin_goto t p m)"
proof (rule spin_inv_move [OF assms(1), where t = t and p = p])
  note slow = prepared_slow [OF assms(2)] prepared_slow [OF assms(3)]
  then show "queued (pc m t) = None" "queued p = None" "p \<noteq> Panic" by auto
  show "inv_idx (qnode_idx (spin_goto t p m)) (idx (spin_goto t p m)) (pc (spin_goto t p m))"
    using assms(1) slow by (simp add: spin_inv_def inv_idx_keep)
  show "fresh_ok (spin_goto t p m) t" using assms by (simp add: fresh_ok_def spin_inv_def)
qed simp_all

lemma leave_inv:
  assumes "spin_inv m" "nested m t" "pc m t = Leave a"
  shows "spin_inv (spin_goto t Idle (m\<lparr>qnode_idx := (qnode_idx m)(cpu t := qnode_idx m (cpu t) - 1)\<rparr>))" (is "spin_inv ?m")
proof (rule spin_inv_move [OF assms(1), where t = t and p = Idle])
  have idx: "inv_idx (qnode_idx m) (idx m) (pc m)" using assms(1) by (simp add: spin_inv_def)
  have top: "\<forall>k > level t. pc m (Ctx (cpu t) k) = Idle" using assms(2) by (simp add: nested_def)
  show "inv_idx (qnode_idx ?m) (idx ?m) (pc ?m)" using inv_idx_leave [OF idx top, of Idle] assms(3) by simp
qed (use assms(3) in \<open>simp_all add: fresh_ok_def\<close>)

lemma head_ok_longer: "head_ok a i f nx nl hs (h # q) \<Longrightarrow> f' h = f h \<Longrightarrow> head_ok a i f' nx nl hs (h # q @ r)"
  by (simp split: spin_pc.splits)

lemma cas_tail_inv:
  assumes "spin_inv m" "pc m t = Cas_tail a (val m a)"
    and prev: "prev_tail = val m a AND 0xFFFF0000" "p = (if prev_tail \<noteq> 0 then Link a prev_tail else Wait_lock a)"
  shows "spin_inv (spin_goto t p (set_val a ((val m a AND 0x0000FFFF) OR tail_of (idx m) t) (m\<lparr>queue := (queue m)(a := queue m a @ [t])\<rparr>)))"
    (is "spin_inv ?m")
proof (rule spin_inv_upd [OF assms(1), where t = t and a = a and p = p])
  have idx: "inv_idx (qnode_idx m) (idx m) (pc m)" and lock: "lock_ok a m" and fresh: "fresh_ok m t" using assms(1) by (simp_all add: spin_inv_def)
  have p: "queued p = Some a" "in_slowpath p" "p \<noteq> Panic" "\<not> prepared p" using prev(2) by auto
  have t: "t \<notin> set (queue m a)" using in_queue [OF lock, of t] assms(2) by simp
  note w = lock_word [OF lock]
  have new: "next_node m (node (idx m) t) = None" "node_locked m (node (idx m) t) = 1" using fresh assms(2) by (simp_all add: fresh_ok_def)
  have "t \<notin> set (tl (queue m a))" using t by (cases "queue m a") simp_all
  moreover have "links a (idx m) (pc m) (next_node m) (node_locked m) (queue m a)" using lock by (simp add: lock_ok_def)
  ultimately have l: "links a (idx m) ((pc m)(t := p)) (next_node m) (node_locked m) (queue m a)" by (rule links_pc [rotated])
  have links: "links a (idx m) ((pc m)(t := p)) (next_node m) (node_locked m) (queue m a @ [t])"
  proof (cases "queue m a" rule: rev_cases)
    case (snoc q x)
    have "prev_tail = tail_of (idx m) x" using prev(1) w(2) snoc by (simp add: tail_word_def)
    moreover have "prev_tail \<noteq> 0" using prev(1) w(2) snoc tail_word_0 [OF assms(1), of a] by auto
    ultimately have "((pc m)(t := p)) t = Link a (tail_of (idx m) x)" using prev(2) by simp
    then show ?thesis using l new unfolding snoc append_assoc by (simp add: links_snoc)
  qed (use new in simp)
  have head: "head_ok a (idx m) ((pc m)(t := p)) (next_node m) (node_locked m) (held m) (queue m a @ [t])"
  proof (cases "queue m a")
    case Nil
    then have "p = Wait_lock a" using prev w(2) by (simp add: tail_word_def)
    then show ?thesis using Nil by simp
  next
    case (Cons h q)
    then have "head_ok a (idx m) (pc m) (next_node m) (node_locked m) (held m) (h # q)" "h \<noteq> t" using lock t by (auto simp: lock_ok_def)
    then show ?thesis unfolding Cons append_Cons by (intro head_ok_longer) simp_all
  qed
  show "lock_ok a ?m"
    unfolding lock_ok_def using lock t links head p w(1) or.commute
    by (simp add: lock_ok_def tail_word_def del: fun_upd_apply) (simp add: or.commute)
  show "inv_idx (qnode_idx ?m) (idx ?m) (pc ?m)" using idx assms(2) p by (simp add: inv_idx_keep)
qed (use assms prev in \<open>auto simp: fresh_ok_def spin_inv_def\<close>)

lemma queue_nodes_distinct:
  assumes "spin_inv m"
  shows "distinct (map (node (idx m)) (queue m a))"
proof -
  have idx: "inv_idx (qnode_idx m) (idx m) (pc m)" and lock: "lock_ok a m" using assms by (simp_all add: spin_inv_def)
  have "inj_on (node (idx m)) (set (queue m a))"
    using in_queue [OF lock] queued_slow node_inj [OF idx] by (metis inj_onI)
  then show ?thesis using lock by (simp add: distinct_map lock_ok_def)
qed

lemma link_inv:
  assumes "spin_inv m" "pc m t = Link a prev_tail"
  shows "\<exists>n. decode_tail prev_tail = Some n \<and>
    spin_inv (spin_goto t (Wait_node a) (m\<lparr>next_node := (next_node m)(n := Some (node (idx m) t))\<rparr>))"
proof -
  have idx: "inv_idx (qnode_idx m) (idx m) (pc m)" and lock: "lock_ok a m" using assms(1) by (simp_all add: spin_inv_def)
  have "t \<in> set (queue m a)" using in_queue [OF lock] assms(2) by simp
  then obtain xs ys where q: "queue m a = xs @ t # ys" by (meson split_list)
  have "xs \<noteq> []" using lock q assms(2) by (auto simp: lock_ok_def)
  then obtain zs x where xs: "xs = zs @ [x]" by (metis rev_exhaust)
  have q: "queue m a = zs @ x # t # ys" using q xs by simp
  have l: "links a (idx m) (pc m) (next_node m) (node_locked m) (zs @ x # t # ys)" using lock q by (simp add: lock_ok_def)
  note x = links_split [OF l assms(2)]
  have qx: "queued (pc m x) = Some a" using in_queue [OF lock, of x] q by simp
  note b = idx_bound [OF idx queued_slow [OF qx]]
  have n: "decode_tail prev_tail = Some (node (idx m) x)" using tail_decode [of x "idx m"] b x by simp
  let ?m = "spin_goto t (Wait_node a) (m\<lparr>next_node := (next_node m)(node (idx m) x := Some (node (idx m) t))\<rparr>)"
  have "spin_inv ?m"
  proof (rule spin_inv_upd [OF assms(1), where t = t and a = a and p = "Wait_node a"])
    have links: "links a (idx m) ((pc m)(t := Wait_node a)) ((next_node m)(node (idx m) x := Some (node (idx m) t))) (node_locked m)
        (zs @ x # t # ys)"
      by (rule links_link) (use l queue_nodes_distinct [OF assms(1), of a] q in simp_all)
    have head: "head_ok a (idx m) ((pc m)(t := Wait_node a)) ((next_node m)(node (idx m) x := Some (node (idx m) t))) (node_locked m) (held m)
        (zs @ x # t # ys)"
    proof -
      obtain h r where h: "zs @ x # t # ys = h # r" by (cases zs) simp_all
      have ht: "h \<noteq> t" using lock q h by (cases zs) (auto simp: lock_ok_def)
      have ok: "head_ok a (idx m) (pc m) (next_node m) (node_locked m) (held m) (h # r)" using lock q h by (simp add: lock_ok_def)
      then have "next_node m (node (idx m) h) \<noteq> Some k" if "pc m h = Hand b k" "node (idx m) h = node (idx m) x" for b k
        using that x by simp
      then show ?thesis unfolding h using ok ht by (auto split: spin_pc.splits)
    qed
    show "lock_ok a ?m"
      unfolding lock_ok_def using lock q assms(2) links head by (simp add: lock_ok_def del: fun_upd_apply) simp
    show "inv_idx (qnode_idx ?m) (idx ?m) (pc ?m)" using idx assms(2) by (simp add: inv_idx_keep)
    show "next_node ?m (node (idx m) u) = next_node m (node (idx m) u) \<and> node_locked ?m (node (idx m) u) = node_locked m (node (idx m) u)"
      if "u \<noteq> t" "in_slowpath (pc m u)" "queued (pc m u) \<noteq> Some a" for u
      using that node_inj [OF idx that(2) queued_slow [OF qx]] qx by auto
  qed (use assms in \<open>auto simp: fresh_ok_def spin_inv_def\<close>)
  then show ?thesis using n by blast
qed

text \<open>A step of the head of a queue that leaves the queue and the nodes as they are.\<close>

lemma head_step_inv:
  assumes "spin_inv m" "queue m a = t # q" "queued p = Some a" "\<not> prepared p"
    and m': "pc m' = (pc m)(t := p)" "queue m' = queue m" "idx m' = idx m" "qnode_idx m' = qnode_idx m"
      "next_node m' = next_node m" "node_locked m' = node_locked m"
    and v: "val m' a = tail_word (idx m) (queue m a) OR lock_byte (held m') a" "\<And>b. b \<noteq> a \<Longrightarrow> val m' b = val m b"
    and h: "\<And>b u. b \<noteq> a \<Longrightarrow> b \<in> held m' u \<longleftrightarrow> b \<in> held m u" "\<And>u w. a \<in> held m' u \<Longrightarrow> a \<in> held m' w \<Longrightarrow> u = w"
    and head: "head_ok a (idx m) ((pc m)(t := p)) (next_node m) (node_locked m) (held m') (t # q)"
  shows "spin_inv m'"
proof (rule spin_inv_upd [OF assms(1) m'(1), where a = a])
  have idx: "inv_idx (qnode_idx m) (idx m) (pc m)" and lock: "lock_ok a m" using assms(1) by (simp_all add: spin_inv_def)
  have t: "queued (pc m t) = Some a" "t \<notin> set q" using in_queue [OF lock, of t] lock assms(2) by (simp_all add: lock_ok_def)
  then show "queued (pc m t) = None \<or> queued (pc m t) = Some a" by simp
  have "links a (idx m) ((pc m)(t := p)) (next_node m) (node_locked m) (t # q)"
    by (rule links_pc) (use lock assms(2) t(2) in \<open>simp_all add: lock_ok_def\<close>)
  moreover have "distinct (t # q)" "\<And>u. u \<in> set (t # q) \<longleftrightarrow> queued (((pc m)(t := p)) u) = Some a"
    using lock assms(2,3) t in_queue [OF lock] by (simp_all add: lock_ok_def)
  ultimately show "lock_ok a m'" using head v(1) unfolding lock_ok_def m' assms(2) by blast
  show "inv_idx (qnode_idx m') (idx m') (pc m')"
    unfolding m' using idx t(1) assms(3) queued_slow by (intro inv_idx_keep) auto
qed (use assms m' v h in \<open>auto simp: fresh_ok_def dest: queued_slow\<close>)

text \<open>Which contexts are the head of their queue.\<close>

lemma is_head:
  assumes "lock_ok a m" "queued (pc m t) = Some a" "\<And>p. pc m t \<noteq> Link a p" "pc m t = Wait_node a \<Longrightarrow> node_locked m (node (idx m) t) \<noteq> 1"
  obtains q where "queue m a = t # q" "t \<notin> set q" "head_ok a (idx m) (pc m) (next_node m) (node_locked m) (held m) (t # q)"
proof -
  have "t \<in> set (queue m a)" using in_queue [OF assms(1)] assms(2) by simp
  then obtain h q where q: "queue m a = h # q" by (cases "queue m a") simp_all
  have "t \<notin> set q"
    using assms(1,3,4) q links_behind [of a "idx m" "pc m" "next_node m" "node_locked m" h q t] by (auto simp: lock_ok_def)
  then have "h = t" using \<open>t \<in> set (queue m a)\<close> q by simp
  then show thesis using that q assms(1) \<open>t \<notin> set q\<close> by (simp add: lock_ok_def)
qed

lemma node_free_inv:
  assumes "spin_inv m" "pc m t = Wait_node a" "node_locked m (node (idx m) t) = 0"
  shows "spin_inv (spin_goto t (Wait_lock a) m)"
proof -
  have lock: "lock_ok a m" using assms(1) by (simp add: spin_inv_def)
  obtain q where "queue m a = t # q" by (rule is_head [OF lock, of t]) (use assms in simp_all)
  then show ?thesis
    using assms(1) lock by (intro head_step_inv [OF assms(1), where a = a and t = t]) (auto simp: lock_ok_def spin_inv_def)
qed

lemma lock_free_inv:
  assumes "spin_inv m" "pc m t = Wait_lock a" "val m a AND 0xFF = 0"
  shows "spin_inv (spin_goto t (Grab a) m)"
proof -
  have lock: "lock_ok a m" using assms(1) by (simp add: spin_inv_def)
  obtain q where "queue m a = t # q" by (rule is_head [OF lock, of t]) (use assms in simp_all)
  moreover have "a \<notin> held m u" for u using lock_word(3) [OF lock] assms(3) lock_byte_0 [of "held m" a] by simp
  ultimately show ?thesis
    using assms(1) lock by (intro head_step_inv [OF assms(1), where a = a and t = t]) (auto simp: lock_ok_def spin_inv_def)
qed

lemma grab_lost_inv:
  assumes "spin_inv m" "pc m t = Grab a" "val m a \<noteq> tail_of (idx m) t"
  shows "spin_inv (spin_goto t (Set_locked a) m)"
proof -
  have lock: "lock_ok a m" using assms(1) by (simp add: spin_inv_def)
  obtain q where q: "queue m a = t # q" and h: "head_ok a (idx m) (pc m) (next_node m) (node_locked m) (held m) (t # q)"
    by (rule is_head [OF lock, of t]) (use assms in simp_all)
  have free: "a \<notin> held m u" for u using h assms(2) by simp
  then have "val m a = tail_word (idx m) (t # q)" using lock lock_byte_0 [of "held m" a] q by (simp add: lock_ok_def)
  then have "q \<noteq> []" using assms(3) by (auto simp: tail_word_def)
  then show ?thesis
    using assms(1) lock q free by (intro head_step_inv [OF assms(1), where a = a and t = t]) (auto simp: lock_ok_def spin_inv_def)
qed

lemma set_locked_inv:
  assumes "spin_inv m" "pc m t = Set_locked a"
  shows "spin_inv (spin_goto t (Wait_next a) (set_val a ((val m a AND 0xFFFFFF00) OR 1) (acquired t a m)))" (is "spin_inv ?m")
proof -
  have lock: "lock_ok a m" using assms(1) by (simp add: spin_inv_def)
  obtain q where q: "queue m a = t # q" and h: "head_ok a (idx m) (pc m) (next_node m) (node_locked m) (held m) (t # q)"
    by (rule is_head [OF lock, of t]) (use assms in simp_all)
  have "a \<notin> held m u" for u using h assms(2) by simp
  moreover have "q \<noteq> []" using h assms(2) by simp
  moreover have "lock_byte (held ?m) a = 1" by (auto simp: lock_byte_def)
  ultimately show ?thesis
    using q lock_word(4) [OF lock]
    by (intro head_step_inv [OF assms(1), where a = a and t = t]) (auto split: if_splits)
qed

lemma has_next_inv:
  assumes "spin_inv m" "pc m t = Wait_next a" "next_node m (node (idx m) t) = Some n"
  shows "spin_inv (spin_goto t (Hand a n) m)"
proof -
  have lock: "lock_ok a m" using assms(1) by (simp add: spin_inv_def)
  obtain q where q: "queue m a = t # q" and h: "head_ok a (idx m) (pc m) (next_node m) (node_locked m) (held m) (t # q)"
    by (rule is_head [OF lock, of t]) (use assms in simp_all)
  have "a \<in> held m t" "q \<noteq> []" using h assms(2) by simp_all
  then show ?thesis
    using assms(1,3) lock q by (intro head_step_inv [OF assms(1), where a = a and t = t]) (auto simp: lock_ok_def spin_inv_def)
qed

lemma tail_inj:
  assumes "spin_inv m" "in_slowpath (pc m t)" "in_slowpath (pc m u)" "tail_of (idx m) t = tail_of (idx m) u"
  shows "t = u"
proof -
  have idx: "inv_idx (qnode_idx m) (idx m) (pc m)" using assms(1) by (simp add: spin_inv_def)
  have "decode_tail (tail_of (idx m) t) = Some (node (idx m) t)" "decode_tail (tail_of (idx m) u) = Some (node (idx m) u)"
    using idx_bound [OF idx] assms(2,3) by (blast intro: tail_decode)+
  then show ?thesis using assms(4) node_inj [OF idx assms(2,3)] by simp
qed

lemma grabbed_inv:
  assumes "spin_inv m" "pc m t = Grab a" "val m a = tail_of (idx m) t"
  shows "spin_inv (spin_goto t (Leave a) (set_val a 1 (acquired t a (m\<lparr>queue := (queue m)(a := tl (queue m a))\<rparr>))))" (is "spin_inv ?m")
proof -
  have lock: "lock_ok a m" and idx: "inv_idx (qnode_idx m) (idx m) (pc m)" using assms(1) by (simp_all add: spin_inv_def)
  obtain q where q: "queue m a = t # q" and tq: "t \<notin> set q" and h: "head_ok a (idx m) (pc m) (next_node m) (node_locked m) (held m) (t # q)"
    by (rule is_head [OF lock, of t]) (use assms in simp_all)
  have free: "a \<notin> held m u" for u using h assms(2) by simp
  then have "tail_of (idx m) (last (t # q)) = tail_of (idx m) t"
    using lock lock_byte_0 [of "held m" a] q assms(3) by (simp add: lock_ok_def tail_word_def)
  moreover have "queued (pc m (last (t # q))) = Some a" using in_queue [OF lock] q by (metis last_in_set list.distinct(1))
  ultimately have "last (t # q) = t" using tail_inj [OF assms(1), of "last (t # q)" t] queued_slow assms(2) by simp
  then have "q = []" using tq by (cases q rule: rev_cases) auto
  show ?thesis
  proof (rule spin_inv_upd [OF assms(1), where t = t and a = a and p = "Leave a"])
    have "queued (pc m u) \<noteq> Some a" if "u \<noteq> t" for u using in_queue [OF lock, of u] q \<open>q = []\<close> that by simp
    then show "lock_ok a ?m" using q \<open>q = []\<close> by (intro lock_ok_empty) (auto simp: lock_byte_def)
    show "inv_idx (qnode_idx ?m) (idx ?m) (pc ?m)" using idx assms(2) by (simp add: inv_idx_keep)
    show "u = v" if "a \<in> held ?m u" "a \<in> held ?m v" for u v using that free by (simp split: if_splits)
  qed (use assms(2) in \<open>auto simp: fresh_ok_def\<close>)
qed

lemma hand_inv:
  assumes "spin_inv m" "pc m t = Hand a n"
  shows "spin_inv (spin_goto t (Leave a) (m\<lparr>node_locked := (node_locked m)(n := 0), queue := (queue m)(a := tl (queue m a))\<rparr>))" (is "spin_inv ?m")
proof -
  have lock: "lock_ok a m" and idx: "inv_idx (qnode_idx m) (idx m) (pc m)" using assms(1) by (simp_all add: spin_inv_def)
  obtain q where q: "queue m a = t # q" and tq: "t \<notin> set q" and h: "head_ok a (idx m) (pc m) (next_node m) (node_locked m) (held m) (t # q)"
    by (rule is_head [OF lock, of t]) (use assms in simp_all)
  have n: "a \<in> held m t" "q \<noteq> []" "next_node m (node (idx m) t) = Some n" using h assms(2) by simp_all
  then obtain y r where r: "q = y # r" by (cases q) simp_all
  have l: "links a (idx m) (pc m) (next_node m) (node_locked m) (t # y # r)" using lock q r by (simp add: lock_ok_def)
  then have y: "pc m y = Wait_node a" "n = node (idx m) y" using n(3) by auto
  have d: "distinct (map (node (idx m)) (t # y # r))" using queue_nodes_distinct [OF assms(1), of a] q r by simp
  show ?thesis
  proof (rule spin_inv_upd [OF assms(1), where t = t and a = a and p = "Leave a"])
    have "links a (idx m) ((pc m)(t := Leave a)) (next_node m) ((node_locked m)(n := 0)) (y # r)"
    proof (rule links_cong)
      show "links a (idx m) (pc m) (next_node m) (node_locked m) (y # r)" using l by simp
      show "((node_locked m)(n := 0)) (node (idx m) x) = node_locked m (node (idx m) x) \<and> ((pc m)(t := Leave a)) x = pc m x"
        if "x \<in> set (tl (y # r))" for x
      proof -
        have "node (idx m) x \<in> node (idx m) ` set r" using that by simp
        then have "node (idx m) x \<noteq> n" using d y(2) by auto
        moreover have "x \<noteq> t" using tq r that by auto
        ultimately show ?thesis by simp
      qed
    qed simp
    moreover have "head_ok a (idx m) ((pc m)(t := Leave a)) (next_node m) ((node_locked m)(n := 0)) (held m) (y # r)"
      using y tq r by auto
    moreover have "distinct (y # r)" "\<And>u. u \<in> set (y # r) \<longleftrightarrow> queued (((pc m)(t := Leave a)) u) = Some a"
      using lock q r tq in_queue [OF lock] by (auto simp: lock_ok_def)
    moreover have "val m a = tail_word (idx m) (y # r) OR lock_byte (held m) a" using lock q r by (simp add: lock_ok_def tail_word_def)
    ultimately show "lock_ok a ?m" unfolding lock_ok_def using q r by simp
    show "inv_idx (qnode_idx ?m) (idx ?m) (pc ?m)" using idx assms(2) by (simp add: inv_idx_keep)
    show "next_node ?m (node (idx m) u) = next_node m (node (idx m) u) \<and> node_locked ?m (node (idx m) u) = node_locked m (node (idx m) u)"
      if "u \<noteq> t" "in_slowpath (pc m u)" "queued (pc m u) \<noteq> Some a" for u
      using that node_inj [OF idx, of u y] y by auto
  qed (use assms in \<open>auto simp: fresh_ok_def spin_inv_def\<close>)
qed

lemma head_ok_unheld:
  "head_ok a i f nx nl hs (h # q) \<Longrightarrow> a \<notin> hs h \<Longrightarrow> (\<And>u. a \<notin> hs' u) \<Longrightarrow> head_ok a i f nx nl hs' (h # q)"
  by (cases "f h") simp_all

lemma release_inv:
  assumes "spin_inv m" "pc m t = Idle" "a \<in> held m t"
  shows "spin_inv ((set_val a (val m a AND 0xFFFFFF00) m)\<lparr>held := (held m)(t := held m t - {a})\<rparr>)" (is "spin_inv ?m")
proof (rule spin_inv_upd [OF assms(1), where t = t and a = a and p = Idle])
  have lock: "lock_ok a m" and idx: "inv_idx (qnode_idx m) (idx m) (pc m)" using assms(1) by (simp_all add: spin_inv_def)
  have only: "u = t" if "a \<in> held m u" for u using assms(1,3) that unfolding spin_inv_def by blast
  then have free: "a \<notin> held ?m u" for u by auto
  then have "lock_byte (held ?m) a = 0" by (simp only: lock_byte_0 simp_thms)
  moreover have "head_ok a (idx m) (pc m) (next_node m) (node_locked m) (held ?m) (queue m a)"
  proof (cases "queue m a")
    case (Cons h r)
    then have ok: "head_ok a (idx m) (pc m) (next_node m) (node_locked m) (held m) (h # r)" and "h \<noteq> t"
      using lock in_queue [OF lock, of h] assms(2) by (auto simp: lock_ok_def)
    then have "a \<notin> held m h" using only by blast
    then show ?thesis unfolding Cons by (rule head_ok_unheld [OF ok _ free])
  qed simp
  ultimately show "lock_ok a ?m" using lock lock_word(4) [OF lock] by (simp add: lock_ok_def)
  show "u = v" if "a \<in> held ?m u" "a \<in> held ?m v" for u v using that only by (auto split: if_splits)
qed (use assms in \<open>auto simp: fresh_ok_def spin_inv_def\<close>)

lemma spin_init_inv: "spin_inv (spinlock_init nx nl i)"
  by (simp add: spin_inv_def spinlock_init_def inv_idx_def in_use_def lock_ok_def tail_word_def lock_byte_def fresh_ok_def)

lemma slowpath_inv:
  assumes "spin_inv m" "nested m t" "spinlock_acquire_slowpath_step t m m'"
  shows "spin_inv m'"
  using assms(3)
proof (cases rule: spinlock_acquire_slowpath_step.cases)
  case (enter_invalid a)
  then show ?thesis using assms(2) by (simp add: nested_def)
next
  case (enter_deep a)
  then show ?thesis using enter_inv(1) [OF assms(1,2)] by fastforce
next
  case (link_corrupted a prev_tail)
  then show ?thesis using link_inv [OF assms(1)] by fastforce
next
  case (link a prev_tail prev_node)
  then show ?thesis using link_inv [OF assms(1)] by fastforce
next
  case (cas_tail a old prev_tail p)
  then show ?thesis using cas_tail_inv [OF assms(1), of t a prev_tail p] by simp
next
  case (enter a)
  then show ?thesis using enter_inv(2) [OF assms(1,2)] by simp
next
  case (init a)
  then show ?thesis using init_inv [OF assms(1)] by simp
next
  case (grabbed a)
  then show ?thesis using grabbed_inv [OF assms(1)] by simp
next
  case (set_locked a)
  then show ?thesis using set_locked_inv [OF assms(1)] by simp
next
  case (hand a n)
  then show ?thesis using hand_inv [OF assms(1)] by simp
next
  case (leave a)
  then show ?thesis using leave_inv [OF assms(1,2)] by simp
qed (use assms(1) in \<open>simp_all add: prepared_move_inv node_free_inv lock_free_inv grab_lost_inv has_next_inv\<close>)

lemma acquire_inv: "spin_inv m \<Longrightarrow> spinlock_acquire_step t m m' \<Longrightarrow> spin_inv m'"
  by (elim spinlock_acquire_step.cases) (use acquire_free_inv [of m t] quiet_move_inv [of m t] in simp_all)

lemma try_acquire_inv: "spin_inv m \<Longrightarrow> spinlock_try_acquire_step t m m' \<Longrightarrow> spin_inv m'"
  by (elim spinlock_try_acquire_step.cases) (use acquire_free_inv [of m t] quiet_move_inv [of m t] in simp_all)

lemma release_step_inv: "spin_inv m \<Longrightarrow> spinlock_release_step t m m' \<Longrightarrow> spin_inv m'"
  by (elim spinlock_release_step.cases) (use release_inv [of m t] in simp)

lemma spin_inv_step:
  assumes "spin_inv m" "spinlock_step nested m m'"
  shows "spin_inv m'"
  using assms(2)
proof (cases rule: spinlock_step.cases)
  case (call_acquire t a)
  then show ?thesis using quiet_move_inv [OF assms(1), of t] by simp
next
  case (call_try t a)
  then show ?thesis using quiet_move_inv [OF assms(1), of t] by simp
next
  case (in_acquire t)
  then show ?thesis using acquire_inv [OF assms(1)] by simp
next
  case (in_try t)
  then show ?thesis using try_acquire_inv [OF assms(1)] by simp
next
  case (in_slowpath t)
  then show ?thesis using slowpath_inv [OF assms(1)] by simp
next
  case (in_release t)
  then show ?thesis using release_step_inv [OF assms(1)] by simp
qed

interpretation spin: exclusive_lock "spinlock_step nested" spin_inv "\<lambda>m t. a \<in> held m t"
proof unfold_locales
  fix m m' t u
  show "spin_inv m \<Longrightarrow> spinlock_step nested m m' \<Longrightarrow> spin_inv m'" by (rule spin_inv_step)
  show "spin_inv m \<Longrightarrow> a \<in> held m t \<Longrightarrow> a \<in> held m u \<Longrightarrow> t = u" unfolding spin_inv_def by blast
qed

section \<open>A scene with four contexts\<close>

definition spin_scene :: "u32 \<Rightarrow> u32 \<Rightarrow> u32 \<Rightarrow> u32 \<Rightarrow> spin_pc \<Rightarrow> spin_pc \<Rightarrow> spin_pc \<Rightarrow> spin_pc \<Rightarrow> ctx set \<Rightarrow> ctx list \<Rightarrow> spinlocks" where
  "spin_scene v q i j p0 p1 p2 p3 hs ws = \<lparr>val = (\<lambda>_. 0)(0 := v), next_node = (\<lambda>_. None), node_locked = (\<lambda>_. 1),
     qnode_idx = (\<lambda>_. 0)(0 := q), idx = (\<lambda>_. 0)(Ctx 0 2 := i, Ctx 0 3 := j),
     pc = (\<lambda>_. Idle)(Ctx 2 0 := p0, Ctx 0 0 := p1, Ctx 0 2 := p2, Ctx 0 3 := p3),
     held = (\<lambda>t. if t \<in> hs then {0} else {}), queue = (\<lambda>_. [])(0 := ws)\<rparr>"

lemma spin_scene_init: "spin_scene 0 0 0 0 Idle Idle Idle Idle {} [] = spinlock_init (\<lambda>_. None) (\<lambda>_. 1) (\<lambda>_. 0)"
  by (simp add: spin_scene_def spinlock_init_def fun_eq_iff)

lemma spin_scene_get:
  "val (spin_scene v q i j p0 p1 p2 p3 hs ws) 0 = v"
  "qnode_idx (spin_scene v q i j p0 p1 p2 p3 hs ws) 0 = q"
  "idx (spin_scene v q i j p0 p1 p2 p3 hs ws) (Ctx 0 0) = 0"
  "idx (spin_scene v q i j p0 p1 p2 p3 hs ws) (Ctx 0 2) = i"
  "idx (spin_scene v q i j p0 p1 p2 p3 hs ws) (Ctx 0 3) = j"
  "pc (spin_scene v q i j p0 p1 p2 p3 hs ws) (Ctx 2 0) = p0"
  "pc (spin_scene v q i j p0 p1 p2 p3 hs ws) (Ctx 0 0) = p1"
  "pc (spin_scene v q i j p0 p1 p2 p3 hs ws) (Ctx 0 2) = p2"
  "pc (spin_scene v q i j p0 p1 p2 p3 hs ws) (Ctx 0 3) = p3"
  "held (spin_scene v q i j p0 p1 p2 p3 hs ws) t = (if t \<in> hs then {0} else {})"
  "queue (spin_scene v q i j p0 p1 p2 p3 hs ws) 0 = ws"
  by (simp_all add: spin_scene_def)

lemma spin_scene_set:
  "set_val 0 w (spin_scene v q i j p0 p1 p2 p3 hs ws) = spin_scene w q i j p0 p1 p2 p3 hs ws"
  "(let m = spin_scene v q i j p0 p1 p2 p3 hs ws in m\<lparr>qnode_idx := (qnode_idx m)(0 := r)\<rparr>) = spin_scene v r i j p0 p1 p2 p3 hs ws"
  "((spin_scene v q i j p0 p1 p2 p3 hs ws)\<lparr>idx := (idx (spin_scene v r i j p0 p1 p2 p3 hs ws))(Ctx 0 0 := 0)\<rparr>) = spin_scene v q i j p0 p1 p2 p3 hs ws"
  "((spin_scene v q i j p0 p1 p2 p3 hs ws)\<lparr>idx := (idx (spin_scene v r i j p0 p1 p2 p3 hs ws))(Ctx 0 2 := k)\<rparr>) = spin_scene v q k j p0 p1 p2 p3 hs ws"
  "((spin_scene v q i j p0 p1 p2 p3 hs ws)\<lparr>idx := (idx (spin_scene v r i j p0 p1 p2 p3 hs ws))(Ctx 0 3 := k)\<rparr>) = spin_scene v q i k p0 p1 p2 p3 hs ws"
  "spin_goto (Ctx 2 0) p (spin_scene v q i j p0 p1 p2 p3 hs ws) = spin_scene v q i j p p1 p2 p3 hs ws"
  "spin_goto (Ctx 0 0) p (spin_scene v q i j p0 p1 p2 p3 hs ws) = spin_scene v q i j p0 p p2 p3 hs ws"
  "spin_goto (Ctx 0 2) p (spin_scene v q i j p0 p1 p2 p3 hs ws) = spin_scene v q i j p0 p1 p p3 hs ws"
  "spin_goto (Ctx 0 3) p (spin_scene v q i j p0 p1 p2 p3 hs ws) = spin_scene v q i j p0 p1 p2 p hs ws"
  "(let m = spin_scene v q i j p0 p1 p2 p3 hs ws in m\<lparr>held := (held m)(t := {0})\<rparr>) = spin_scene v q i j p0 p1 p2 p3 (insert t hs) ws"
  "(let m = spin_scene v q i j p0 p1 p2 p3 hs ws in m\<lparr>queue := (queue m)(0 := xs)\<rparr>) = spin_scene v q i j p0 p1 p2 p3 hs xs"
  "(let m = spin_scene v q i j p0 p1 p2 p3 hs ws in m\<lparr>next_node := (next_node m)(n := None)\<rparr>) = spin_scene v q i j p0 p1 p2 p3 hs ws"
  "(let m = spin_scene v q i j p0 p1 p2 p3 hs ws in m\<lparr>node_locked := (node_locked m)(n := 1)\<rparr>) = spin_scene v q i j p0 p1 p2 p3 hs ws"
  by (auto simp: spin_scene_def Let_def fun_eq_iff)

lemma spin_scene_release:
  "(spin_scene w q i j p0 p1 p2 p3 hs ws)\<lparr>held := (held (spin_scene v q i j p0 p1 p2 p3 hs ws))(t := {})\<rparr> =
   spin_scene w q i j p0 p1 p2 p3 (hs - {t}) ws"
  by (auto simp: spin_scene_def fun_eq_iff)

lemma spin_scene_tail: "tail_of (idx (spin_scene v q i j p0 p1 p2 p3 hs ws)) (Ctx 0 0) = 0x10000"
  by (simp add: tail_of_def spin_scene_get encode_tail_def)

lemmas spin_scene_simps = spin_scene_get spin_scene_set [unfolded Let_def] spin_scene_release spin_scene_tail preempted_def

lemma nested_scene:
  "nested (spin_scene v q i j p0 p1 Idle Idle hs ws) (Ctx 2 0)" "nested (spin_scene v q i j p0 p1 Idle Idle hs ws) (Ctx 0 0)"
  by (simp_all add: nested_def spin_scene_def)

lemma in_code:
  assumes "r m t"
    "spinlock_acquire_step t m m' \<or> spinlock_acquire_slowpath_step t m m' \<or> spinlock_release_step t m m'"
  shows "spinlock_step r m m'"
  using assms by (auto intro: spinlock_step.intros)

lemma scene_contended:
  "(spinlock_step preempted)\<^sup>*\<^sup>* (spin_scene 0 0 0 0 Idle Idle Idle Idle {} [])
     (spin_scene 1 2 1 0 Idle (Init 0) (Init 0) Idle {Ctx 2 0} [])"
proof -
  have "spinlock_step preempted (spin_scene 0 0 0 0 Idle Idle Idle Idle {} []) (spin_scene 0 0 0 0 (Fast 0) Idle Idle Idle {} [])"
    using call_acquire [of preempted "spin_scene 0 0 0 0 Idle Idle Idle Idle {} []" "Ctx 2 0" 0] by (simp add: spin_scene_simps)
  moreover have "spinlock_step preempted (spin_scene 0 0 0 0 (Fast 0) Idle Idle Idle {} []) (spin_scene 1 0 0 0 Idle Idle Idle Idle {Ctx 2 0} [])"
    by (rule in_code [where t = "Ctx 2 0"]) (use fast_acquired [of "spin_scene 0 0 0 0 (Fast 0) Idle Idle Idle {} []" "Ctx 2 0" 0] in \<open>simp_all add: spin_scene_simps\<close>)
  moreover have "spinlock_step preempted (spin_scene 1 0 0 0 Idle Idle Idle Idle {Ctx 2 0} []) (spin_scene 1 0 0 0 Idle (Fast 0) Idle Idle {Ctx 2 0} [])"
    using call_acquire [of preempted "spin_scene 1 0 0 0 Idle Idle Idle Idle {Ctx 2 0} []" "Ctx 0 0" 0] by (simp add: spin_scene_simps)
  moreover have "spinlock_step preempted (spin_scene 1 0 0 0 Idle (Fast 0) Idle Idle {Ctx 2 0} []) (spin_scene 1 0 0 0 Idle (Enter 0) Idle Idle {Ctx 2 0} [])"
    by (rule in_code [where t = "Ctx 0 0"]) (use fast_busy [of "spin_scene 1 0 0 0 Idle (Fast 0) Idle Idle {Ctx 2 0} []" "Ctx 0 0" 0] in \<open>simp_all add: spin_scene_simps\<close>)
  moreover have "spinlock_step preempted (spin_scene 1 0 0 0 Idle (Enter 0) Idle Idle {Ctx 2 0} []) (spin_scene 1 1 0 0 Idle (Init 0) Idle Idle {Ctx 2 0} [])"
    by (rule in_code [where t = "Ctx 0 0"]) (use enter [of "spin_scene 1 0 0 0 Idle (Enter 0) Idle Idle {Ctx 2 0} []" "Ctx 0 0" 0] in \<open>simp_all add: spin_scene_simps\<close>)
  moreover have "spinlock_step preempted (spin_scene 1 1 0 0 Idle (Init 0) Idle Idle {Ctx 2 0} []) (spin_scene 1 1 0 0 Idle (Init 0) (Fast 0) Idle {Ctx 2 0} [])"
    using call_acquire [of preempted "spin_scene 1 1 0 0 Idle (Init 0) Idle Idle {Ctx 2 0} []" "Ctx 0 2" 0] by (simp add: spin_scene_simps)
  moreover have "spinlock_step preempted (spin_scene 1 1 0 0 Idle (Init 0) (Fast 0) Idle {Ctx 2 0} []) (spin_scene 1 1 0 0 Idle (Init 0) (Enter 0) Idle {Ctx 2 0} [])"
    by (rule in_code [where t = "Ctx 0 2"]) (use fast_busy [of "spin_scene 1 1 0 0 Idle (Init 0) (Fast 0) Idle {Ctx 2 0} []" "Ctx 0 2" 0] in \<open>simp_all add: spin_scene_simps\<close>)
  moreover have "spinlock_step preempted (spin_scene 1 1 0 0 Idle (Init 0) (Enter 0) Idle {Ctx 2 0} []) (spin_scene 1 2 1 0 Idle (Init 0) (Init 0) Idle {Ctx 2 0} [])"
    by (rule in_code [where t = "Ctx 0 2"]) (use enter [of "spin_scene 1 1 0 0 Idle (Init 0) (Enter 0) Idle {Ctx 2 0} []" "Ctx 0 2" 0] in \<open>simp_all add: spin_scene_simps\<close>)
  ultimately show ?thesis by (meson rtranclp.intros)
qed

lemma scene_queued:
  "(spinlock_step nested)\<^sup>*\<^sup>* (spin_scene 0 0 0 0 Idle Idle Idle Idle {} [])
     (spin_scene 0x10001 1 0 0 Idle (Wait_lock 0) Idle Idle {Ctx 2 0} [Ctx 0 0])"
proof -
  have "spinlock_step nested (spin_scene 0 0 0 0 Idle Idle Idle Idle {} []) (spin_scene 0 0 0 0 (Fast 0) Idle Idle Idle {} [])"
    using call_acquire [of nested "spin_scene 0 0 0 0 Idle Idle Idle Idle {} []" "Ctx 2 0" 0] by (simp add: spin_scene_simps nested_scene)
  moreover have "spinlock_step nested (spin_scene 0 0 0 0 (Fast 0) Idle Idle Idle {} []) (spin_scene 1 0 0 0 Idle Idle Idle Idle {Ctx 2 0} [])"
    by (rule in_code [where t = "Ctx 2 0"]) (use fast_acquired [of "spin_scene 0 0 0 0 (Fast 0) Idle Idle Idle {} []" "Ctx 2 0" 0] in \<open>simp_all add: spin_scene_simps nested_scene\<close>)
  moreover have "spinlock_step nested (spin_scene 1 0 0 0 Idle Idle Idle Idle {Ctx 2 0} []) (spin_scene 1 0 0 0 Idle (Fast 0) Idle Idle {Ctx 2 0} [])"
    using call_acquire [of nested "spin_scene 1 0 0 0 Idle Idle Idle Idle {Ctx 2 0} []" "Ctx 0 0" 0] by (simp add: spin_scene_simps nested_scene)
  moreover have "spinlock_step nested (spin_scene 1 0 0 0 Idle (Fast 0) Idle Idle {Ctx 2 0} []) (spin_scene 1 0 0 0 Idle (Enter 0) Idle Idle {Ctx 2 0} [])"
    by (rule in_code [where t = "Ctx 0 0"]) (use fast_busy [of "spin_scene 1 0 0 0 Idle (Fast 0) Idle Idle {Ctx 2 0} []" "Ctx 0 0" 0] in \<open>simp_all add: spin_scene_simps nested_scene\<close>)
  moreover have "spinlock_step nested (spin_scene 1 0 0 0 Idle (Enter 0) Idle Idle {Ctx 2 0} []) (spin_scene 1 1 0 0 Idle (Init 0) Idle Idle {Ctx 2 0} [])"
    by (rule in_code [where t = "Ctx 0 0"]) (use enter [of "spin_scene 1 0 0 0 Idle (Enter 0) Idle Idle {Ctx 2 0} []" "Ctx 0 0" 0] in \<open>simp_all add: spin_scene_simps nested_scene\<close>)
  moreover have "spinlock_step nested (spin_scene 1 1 0 0 Idle (Init 0) Idle Idle {Ctx 2 0} []) (spin_scene 1 1 0 0 Idle (Load 0) Idle Idle {Ctx 2 0} [])"
    by (rule in_code [where t = "Ctx 0 0"]) (use init [of "spin_scene 1 1 0 0 Idle (Init 0) Idle Idle {Ctx 2 0} []" "Ctx 0 0" 0] in \<open>simp_all add: spin_scene_simps nested_scene\<close>)
  moreover have "spinlock_step nested (spin_scene 1 1 0 0 Idle (Load 0) Idle Idle {Ctx 2 0} []) (spin_scene 1 1 0 0 Idle (Cas_tail 0 1) Idle Idle {Ctx 2 0} [])"
    by (rule in_code [where t = "Ctx 0 0"]) (use load [of "spin_scene 1 1 0 0 Idle (Load 0) Idle Idle {Ctx 2 0} []" "Ctx 0 0" 0] in \<open>simp_all add: spin_scene_simps nested_scene\<close>)
  moreover have "spinlock_step nested (spin_scene 1 1 0 0 Idle (Cas_tail 0 1) Idle Idle {Ctx 2 0} []) (spin_scene 0x10001 1 0 0 Idle (Wait_lock 0) Idle Idle {Ctx 2 0} [Ctx 0 0])"
    by (rule in_code [where t = "Ctx 0 0"]) (use cas_tail [of "spin_scene 1 1 0 0 Idle (Cas_tail 0 1) Idle Idle {Ctx 2 0} []" "Ctx 0 0" 0] in \<open>simp_all add: spin_scene_simps nested_scene\<close>)
  ultimately show ?thesis by (meson rtranclp.intros)
qed

lemma scene_reused:
  "(spinlock_step preempted)\<^sup>*\<^sup>* (spin_scene 1 2 1 0 Idle (Init 0) (Init 0) Idle {Ctx 2 0} [])
     (spin_scene 1 2 1 1 Idle Idle (Init 0) (Init 0) {Ctx 0 0} [])"
proof -
  have "spinlock_step preempted (spin_scene 1 2 1 0 Idle (Init 0) (Init 0) Idle {Ctx 2 0} []) (spin_scene 1 2 1 0 Idle (Load 0) (Init 0) Idle {Ctx 2 0} [])"
    by (rule in_code [where t = "Ctx 0 0"]) (use init [of "spin_scene 1 2 1 0 Idle (Init 0) (Init 0) Idle {Ctx 2 0} []" "Ctx 0 0" 0] in \<open>simp_all add: spin_scene_simps\<close>)
  moreover have "spinlock_step preempted (spin_scene 1 2 1 0 Idle (Load 0) (Init 0) Idle {Ctx 2 0} []) (spin_scene 1 2 1 0 Idle (Cas_tail 0 1) (Init 0) Idle {Ctx 2 0} [])"
    by (rule in_code [where t = "Ctx 0 0"]) (use load [of "spin_scene 1 2 1 0 Idle (Load 0) (Init 0) Idle {Ctx 2 0} []" "Ctx 0 0" 0] in \<open>simp_all add: spin_scene_simps\<close>)
  moreover have "spinlock_step preempted (spin_scene 1 2 1 0 Idle (Cas_tail 0 1) (Init 0) Idle {Ctx 2 0} []) (spin_scene 0x10001 2 1 0 Idle (Wait_lock 0) (Init 0) Idle {Ctx 2 0} [Ctx 0 0])"
    by (rule in_code [where t = "Ctx 0 0"]) (use cas_tail [of "spin_scene 1 2 1 0 Idle (Cas_tail 0 1) (Init 0) Idle {Ctx 2 0} []" "Ctx 0 0" 0] in \<open>simp_all add: spin_scene_simps\<close>)
  moreover have "spinlock_step preempted (spin_scene 0x10001 2 1 0 Idle (Wait_lock 0) (Init 0) Idle {Ctx 2 0} [Ctx 0 0]) (spin_scene 0x10000 2 1 0 Idle (Wait_lock 0) (Init 0) Idle {} [Ctx 0 0])"
    by (rule in_code [where t = "Ctx 2 0"]) (use release [of "spin_scene 0x10001 2 1 0 Idle (Wait_lock 0) (Init 0) Idle {Ctx 2 0} [Ctx 0 0]" "Ctx 2 0" 0] in \<open>simp_all add: spin_scene_simps\<close>)
  moreover have "spinlock_step preempted (spin_scene 0x10000 2 1 0 Idle (Wait_lock 0) (Init 0) Idle {} [Ctx 0 0]) (spin_scene 0x10000 2 1 0 Idle (Grab 0) (Init 0) Idle {} [Ctx 0 0])"
    by (rule in_code [where t = "Ctx 0 0"]) (use lock_free [of "spin_scene 0x10000 2 1 0 Idle (Wait_lock 0) (Init 0) Idle {} [Ctx 0 0]" "Ctx 0 0" 0] in \<open>simp_all add: spin_scene_simps\<close>)
  moreover have "spinlock_step preempted (spin_scene 0x10000 2 1 0 Idle (Grab 0) (Init 0) Idle {} [Ctx 0 0]) (spin_scene 1 2 1 0 Idle (Leave 0) (Init 0) Idle {Ctx 0 0} [])"
    by (rule in_code [where t = "Ctx 0 0"]) (use grabbed [of "spin_scene 0x10000 2 1 0 Idle (Grab 0) (Init 0) Idle {} [Ctx 0 0]" "Ctx 0 0" 0] in \<open>simp_all add: spin_scene_simps\<close>)
  moreover have "spinlock_step preempted (spin_scene 1 2 1 0 Idle (Leave 0) (Init 0) Idle {Ctx 0 0} []) (spin_scene 1 1 1 0 Idle Idle (Init 0) Idle {Ctx 0 0} [])"
    by (rule in_code [where t = "Ctx 0 0"]) (use leave [of "spin_scene 1 2 1 0 Idle (Leave 0) (Init 0) Idle {Ctx 0 0} []" "Ctx 0 0" 0] in \<open>simp_all add: spin_scene_simps\<close>)
  moreover have "spinlock_step preempted (spin_scene 1 1 1 0 Idle Idle (Init 0) Idle {Ctx 0 0} []) (spin_scene 1 1 1 0 Idle Idle (Init 0) (Fast 0) {Ctx 0 0} [])"
    using call_acquire [of preempted "spin_scene 1 1 1 0 Idle Idle (Init 0) Idle {Ctx 0 0} []" "Ctx 0 3" 0] by (simp add: spin_scene_simps)
  moreover have "spinlock_step preempted (spin_scene 1 1 1 0 Idle Idle (Init 0) (Fast 0) {Ctx 0 0} []) (spin_scene 1 1 1 0 Idle Idle (Init 0) (Enter 0) {Ctx 0 0} [])"
    by (rule in_code [where t = "Ctx 0 3"]) (use fast_busy [of "spin_scene 1 1 1 0 Idle Idle (Init 0) (Fast 0) {Ctx 0 0} []" "Ctx 0 3" 0] in \<open>simp_all add: spin_scene_simps\<close>)
  moreover have "spinlock_step preempted (spin_scene 1 1 1 0 Idle Idle (Init 0) (Enter 0) {Ctx 0 0} []) (spin_scene 1 2 1 1 Idle Idle (Init 0) (Init 0) {Ctx 0 0} [])"
    by (rule in_code [where t = "Ctx 0 3"]) (use enter [of "spin_scene 1 1 1 0 Idle Idle (Init 0) (Enter 0) {Ctx 0 0} []" "Ctx 0 3" 0] in \<open>simp_all add: spin_scene_simps\<close>)
  ultimately show ?thesis by (meson rtranclp.intros)
qed

section \<open>Properties\<close>

text \<open>
  C39: In every interleaving of the operations on all the spin locks of the kernel, by any nesting of contexts on the
  processors, a lock is held by at most one context, its lock byte is set exactly while it is held, the contexts that wait for it form a
  queue whose last one the upper half of the word names, and no context reaches a panic: the four nodes of a
  processor are enough.
\<close>

theorem spinlock_mutual_exclusion:
  assumes "(spinlock_step nested)\<^sup>*\<^sup>* (spinlock_init nx nl i) m"
  shows "(a \<in> held m t \<and> a \<in> held m u \<longrightarrow> t = u) \<and>
    (val m a AND 0xFF = (if \<exists>t. a \<in> held m t then 1 else 0)) \<and>
    (val m a AND 0xFFFF0000 = (if queue m a = [] then 0 else tail_of (idx m) (last (queue m a)))) \<and>
    pc m t \<noteq> Panic"
proof -
  have inv: "spin_inv m" by (rule spin.reach_inv [OF assms spin_init_inv])
  then have "lock_ok a m" "pc m t \<noteq> Panic" by (simp_all add: spin_inv_def)
  then show ?thesis
    using spin.mutual_exclusion [OF spin_init_inv assms] lock_word [of a m] unfolding lock_byte_def tail_word_def by blast
qed

text \<open>One context holds the lock and a context of another processor is queued behind it.\<close>

theorem spinlock_mutual_exclusion_witness:
  "0 \<notin> held (spin_scene 0x10001 1 0 0 Idle (Wait_lock 0) Idle Idle {Ctx 2 0} [Ctx 0 0]) (Ctx 0 0) \<and>
    0x10001 AND 0xFF = (1 :: u32) \<and> 0x10001 AND 0xFFFF0000 = encode_tail 0 0"
  using spinlock_mutual_exclusion [OF scene_queued [unfolded spin_scene_init], of 0 "Ctx 2 0" "Ctx 0 0"]
  by (simp add: spin_scene_get tail_of_def)

text \<open>
  C40: The four nodes of a processor are enough for nested interrupts only: when tasks of one processor preempt each other
  inside the slow path, the index that the finishing task gives back is the node of another one, and two tasks reach the
  slow path with the same queue node.
\<close>

theorem spinlock_preempted_nodes_clash:
  "\<exists>m t u. (spinlock_step preempted)\<^sup>*\<^sup>* (spinlock_init (\<lambda>_. None) (\<lambda>_. 1) (\<lambda>_. 0)) m \<and> t \<noteq> u \<and>
     pc m t = Init 0 \<and> pc m u = Init 0 \<and> node (idx m) t = node (idx m) u"
  using rtranclp_trans [OF scene_contended scene_reused]
  unfolding spin_scene_init
  by (intro exI [of _ "spin_scene 1 2 1 1 Idle Idle (Init 0) (Init 0) {Ctx 0 0} []"] exI [of _ "Ctx 0 2"] exI [of _ "Ctx 0 3"])
    (simp add: spin_scene_simps node_def)

end
