(* ===== verification/Pmm.thy ===== *)
theory Pmm
  imports Prelude
begin

text \<open>
  The physical memory manager: \<open>src/src/mm/pmm.h\<close> and the buddy allocator of \<open>src/src/mm/pmm.cpp\<close>. The state is that of the class
  \<open>PmmState\<close>: the page descriptors, the free lists of the two zones with their counts and bitmaps, and the counters of the processors.
  An access to a descriptor outside \<open>mem_map_\<close> is \<open>None\<close>. The processor a function runs on is an argument; functions with the suffix
  \<open>_unlocked\<close> run under the lock of the zone. The fields of a descriptor that belong to other users of the page (the RCU head, the
  lock of a page table) are not part of the model, and neither is the memory the descriptors are stored in.
\<close>

section \<open>State\<close>

text \<open>
  A page descriptor. A pointer to a descriptor is the index of the descriptor in \<open>mem_map_\<close>. \<open>pg_order\<close> is the word that the
  buddy allocator uses as \<open>order\<close> and the slab allocator as \<open>slab_cache\<close>.
\<close>

record page =
  pg_flags :: u32
  pg_ref_count :: u32
  pg_order :: u32
  pg_freelist :: u32
  pg_objects :: u16
  pg_prev :: "u32 ptr"
  pg_next :: "u32 ptr"

record free_area =
  area_head :: "u32 ptr"
  area_count :: u32

record pmm_zone =
  free_areas :: "u32 \<Rightarrow> free_area"
  free_bitmap :: u32

record pmm =
  mem_map :: "u32 \<Rightarrow> page"
  total_pages :: u32
  cpu_used_pages :: "nat \<Rightarrow> u32"
  zones :: "u32 \<Rightarrow> pmm_zone"

abbreviation PAGE_SIZE :: u32 where "PAGE_SIZE \<equiv> 4096"
abbreviation PMM_MAX_ORDER :: u32 where "PMM_MAX_ORDER \<equiv> 11"
abbreviation PMM_FLAG_FREE :: u32 where "PMM_FLAG_FREE \<equiv> 0"
abbreviation PMM_FLAG_USED :: u32 where "PMM_FLAG_USED \<equiv> 1"
abbreviation PMM_FLAG_KERNEL :: u32 where "PMM_FLAG_KERNEL \<equiv> 2"
abbreviation PMM_FLAG_DMA :: u32 where "PMM_FLAG_DMA \<equiv> 4"
abbreviation PMM_ZONE_DMA :: u32 where "PMM_ZONE_DMA \<equiv> 0"
abbreviation PMM_ZONE_NORMAL :: u32 where "PMM_ZONE_NORMAL \<equiv> 1"
abbreviation PMM_ZONE_COUNT :: u32 where "PMM_ZONE_COUNT \<equiv> 2"
abbreviation k_dma_limit :: u32 where "k_dma_limit \<equiv> 0x1000000"

text \<open>Access to a descriptor; an index at or above \<open>total_pages_\<close> is outside \<open>mem_map_\<close>.\<close>

definition get_page :: "pmm \<Rightarrow> u32 \<Rightarrow> page option" where
  "get_page s p = (if p < total_pages s then Some (mem_map s p) else None)"

definition put_page :: "pmm \<Rightarrow> u32 \<Rightarrow> page \<Rightarrow> pmm option" where
  "put_page s p q = (if p < total_pages s then Some (s\<lparr>mem_map := (mem_map s)(p := q)\<rparr>) else None)"

definition set_area :: "pmm \<Rightarrow> u32 \<Rightarrow> u32 \<Rightarrow> free_area \<Rightarrow> pmm" where
  "set_area s zone order a = s\<lparr>zones := (zones s)(zone := (zones s zone)\<lparr>free_areas := (free_areas (zones s zone))(order := a)\<rparr>)\<rparr>"

definition set_bitmap :: "pmm \<Rightarrow> u32 \<Rightarrow> u32 \<Rightarrow> pmm" where
  "set_bitmap s zone b = s\<lparr>zones := (zones s)(zone := (zones s zone)\<lparr>free_bitmap := b\<rparr>)\<rparr>"

section \<open>Free lists\<close>

definition list_add :: "pmm \<Rightarrow> u32 ptr \<Rightarrow> u32 \<Rightarrow> (pmm \<times> u32 ptr) option" where
  "list_add s head page = do {
     q \<leftarrow> get_page s page;
     s \<leftarrow> put_page s page (q\<lparr>pg_next := head, pg_prev := None\<rparr>);
     s \<leftarrow> (case head of
         None \<Rightarrow> Some s
       | Some h \<Rightarrow> do { q \<leftarrow> get_page s h; put_page s h (q\<lparr>pg_prev := Some page\<rparr>) });
     Some (s, Some page)
   }"

definition list_remove :: "pmm \<Rightarrow> u32 ptr \<Rightarrow> u32 \<Rightarrow> (pmm \<times> u32 ptr) option" where
  "list_remove s head page = do {
     q \<leftarrow> get_page s page;
     (s, head) \<leftarrow> (case pg_prev q of
         Some b \<Rightarrow> do { r \<leftarrow> get_page s b; s \<leftarrow> put_page s b (r\<lparr>pg_next := pg_next q\<rparr>); Some (s, head) }
       | None \<Rightarrow> Some (s, pg_next q));
     q \<leftarrow> get_page s page;
     s \<leftarrow> (case pg_next q of
         Some n \<Rightarrow> do { r \<leftarrow> get_page s n; put_page s n (r\<lparr>pg_prev := pg_prev q\<rparr>) }
       | None \<Rightarrow> Some s);
     q \<leftarrow> get_page s page;
     s \<leftarrow> put_page s page (q\<lparr>pg_next := None, pg_prev := None\<rparr>);
     Some (s, head)
   }"

definition free_area_push :: "pmm \<Rightarrow> u32 \<Rightarrow> u32 \<Rightarrow> u32 \<Rightarrow> pmm option" where
  "free_area_push s zone order page = do {
     let prev_count = area_count (free_areas (zones s zone) order);
     (s, head) \<leftarrow> list_add s (area_head (free_areas (zones s zone) order)) page;
     let s = set_area s zone order \<lparr>area_head = head, area_count = prev_count + 1\<rparr>;
     Some (if prev_count = 0 then set_bitmap s zone (free_bitmap (zones s zone) OR push_bit (unat order) 1) else s)
   }"

definition free_area_remove :: "pmm \<Rightarrow> u32 \<Rightarrow> u32 \<Rightarrow> u32 \<Rightarrow> pmm option" where
  "free_area_remove s zone order page = do {
     let area = free_areas (zones s zone) order;
     (s, head) \<leftarrow> list_remove s (area_head area) page;
     let s = set_area s zone order \<lparr>area_head = head, area_count = area_count area - 1\<rparr>;
     Some (if area_count area - 1 = 0
       then set_bitmap s zone (free_bitmap (zones s zone) AND NOT (push_bit (unat order) 1)) else s)
   }"

definition free_area_pop :: "pmm \<Rightarrow> u32 \<Rightarrow> u32 \<Rightarrow> (u32 ptr \<times> pmm) option" where
  "free_area_pop s zone order =
     (let area = free_areas (zones s zone) order in
      case area_head area of
        None \<Rightarrow> Some (None, s)
      | Some page \<Rightarrow> do {
          (s, head) \<leftarrow> list_remove s (area_head area) page;
          let s = set_area s zone order \<lparr>area_head = head, area_count = area_count area - 1\<rparr>;
          Some (Some page, if area_count area - 1 = 0
            then set_bitmap s zone (free_bitmap (zones s zone) AND NOT (push_bit (unat order) 1)) else s)
        })"

section \<open>Addresses and zones\<close>

definition phys_to_page :: "pmm \<Rightarrow> u32 \<Rightarrow> u32 ptr" where
  "phys_to_page s phys_addr =
     (let idx = phys_addr div PAGE_SIZE in if idx \<ge> total_pages s then None else Some idx)"

definition page_to_phys :: "u32 \<Rightarrow> u32" where
  "page_to_phys page = page * PAGE_SIZE"

definition align_up :: "u32 \<Rightarrow> u32" where
  "align_up addr = (addr + (PAGE_SIZE - 1)) AND NOT (PAGE_SIZE - 1)"

definition align_down :: "u32 \<Rightarrow> u32" where
  "align_down addr = addr AND NOT (PAGE_SIZE - 1)"

definition zone_flags_for_addr :: "u32 \<Rightarrow> u32" where
  "zone_flags_for_addr addr = (if addr < k_dma_limit then PMM_FLAG_DMA else 0)"

definition zone_for_flags :: "u32 \<Rightarrow> u32" where
  "zone_for_flags flags = (if flags AND PMM_FLAG_DMA \<noteq> 0 then PMM_ZONE_DMA else PMM_ZONE_NORMAL)"

text \<open>The index of the current processor: no descriptor, or an index out of range, is processor 0.\<close>

definition pcp_cpu_index :: "int ptr \<Rightarrow> nat" where
  "pcp_cpu_index cpu_current = (case cpu_current of
       None \<Rightarrow> 0
     | Some idx \<Rightarrow> if idx < 0 \<or> idx \<ge> int MAX_CPUS then 0 else nat idx)"

definition add_used :: "int ptr \<Rightarrow> u32 \<Rightarrow> pmm \<Rightarrow> pmm" where
  "add_used cpu n s = s\<lparr>cpu_used_pages := (cpu_used_pages s)(pcp_cpu_index cpu := cpu_used_pages s (pcp_cpu_index cpu) + n)\<rparr>"

section \<open>Allocation\<close>

text \<open>The loop that splits the block down to the requested order.\<close>

function split_block :: "pmm \<Rightarrow> u32 \<Rightarrow> u32 \<Rightarrow> u32 \<Rightarrow> u32 \<Rightarrow> pmm option" where
  "split_block s zone order page current_order =
     (if current_order > order then do {
        let current_order = current_order - 1;
        let buddy = page + push_bit (unat current_order) 1;
        b \<leftarrow> get_page s buddy;
        s \<leftarrow> put_page s buddy (b\<lparr>pg_flags := (pg_flags b OR PMM_FLAG_FREE) AND NOT PMM_FLAG_USED,
               pg_order := current_order, pg_ref_count := 0\<rparr>);
        s \<leftarrow> free_area_push s zone current_order buddy;
        split_block s zone order page current_order
      } else Some s)"
  by pat_completeness auto
termination
proof (relation "measure (\<lambda>(_, _, _, _, c). unat c)")
  show "((a, zone, order, page, c), s, zone, order, page, c0) \<in> measure (\<lambda>(_, _, _, _, c). unat c)"
    if "order < c0" "c = c0 - 1" for a s :: pmm and zone order page c c0 :: u32
  proof -
    have "c0 \<noteq> 0" using that(1) by auto
    then show ?thesis using that(2) by (simp add: unat_minus_one unat_gt_0)
  qed
qed simp

declare split_block.simps [simp del]

definition available_orders :: "pmm \<Rightarrow> u32 \<Rightarrow> u32 \<Rightarrow> u32" where
  "available_orders s order zone =
     (let bitmap = free_bitmap (zones s zone);
          order_mask = (if order = 0 then 0 else push_bit (unat order) 1 - 1)
      in bitmap AND NOT order_mask)"

definition alloc_pages_zone_unlocked :: "int ptr \<Rightarrow> pmm \<Rightarrow> u32 \<Rightarrow> u32 \<Rightarrow> (u32 \<times> pmm) option" where
  "alloc_pages_zone_unlocked cpu s order zone =
     (if order > PMM_MAX_ORDER then Some (0, s)
      else if zone \<ge> PMM_ZONE_COUNT then Some (0, s)
      else
        let available = available_orders s order zone
        in if available = 0 then Some (0, s)
        else do {
          let current_order = word_of_nat (ctz available);
          (popped, s) \<leftarrow> free_area_pop s zone current_order;
          case popped of
            None \<Rightarrow> Some (0, s)
          | Some page \<Rightarrow> do {
              q \<leftarrow> get_page s page;
              s \<leftarrow> put_page s page (q\<lparr>pg_flags := (pg_flags q OR PMM_FLAG_USED) AND NOT PMM_FLAG_FREE, pg_ref_count := 1,
                     pg_order := 0, pg_freelist := 0, pg_objects := 0, pg_prev := None, pg_next := None\<rparr>);
              s \<leftarrow> split_block s zone order page current_order;
              q \<leftarrow> get_page s page;
              s \<leftarrow> put_page s page (q\<lparr>pg_order := order\<rparr>);
              Some (page_to_phys page, add_used cpu (push_bit (unat order) 1) s)
            }
        })"

section \<open>Freeing\<close>

text \<open>The loop that merges the block with its free buddies.\<close>

function merge_block :: "pmm \<Rightarrow> u32 \<Rightarrow> u32 \<Rightarrow> u32 \<Rightarrow> (pmm \<times> u32 \<times> u32) option" where
  "merge_block s zone pfn order =
     (if order < PMM_MAX_ORDER then
        let buddy_pfn = pfn XOR push_bit (unat order) 1 in
        if buddy_pfn \<ge> total_pages s then Some (s, pfn, order)
        else do {
          buddy \<leftarrow> get_page s buddy_pfn;
          if pg_flags buddy AND PMM_FLAG_USED \<noteq> 0 then Some (s, pfn, order)
          else if pg_order buddy \<noteq> order then Some (s, pfn, order)
          else if zone_for_flags (pg_flags buddy) \<noteq> zone then Some (s, pfn, order)
          else do {
            s \<leftarrow> free_area_remove s zone order buddy_pfn;
            b \<leftarrow> get_page s buddy_pfn;
            s \<leftarrow> put_page s buddy_pfn (b\<lparr>pg_order := 0\<rparr>);
            merge_block s zone (pfn AND buddy_pfn) (order + 1)
          }
        }
      else Some (s, pfn, order))"
  by pat_completeness auto
termination
proof (relation "measure (\<lambda>(_, _, _, k). 11 - unat k)")
  show "((a, zone, pfn', order + 1), s, zone, pfn, order) \<in> measure (\<lambda>(_, _, _, k). 11 - unat k)"
    if "order < PMM_MAX_ORDER" for a s :: pmm and zone pfn pfn' order :: u32
    using that by (simp add: word_nat)
qed simp

declare merge_block.simps [simp del]

definition free_pages_unlocked :: "int ptr \<Rightarrow> pmm \<Rightarrow> u32 \<Rightarrow> u32 \<Rightarrow> pmm option" where
  "free_pages_unlocked cpu s addr order =
     (case phys_to_page s addr of
        None \<Rightarrow> Some s
      | Some page \<Rightarrow> do {
          q \<leftarrow> get_page s page;
          if pg_flags q AND PMM_FLAG_USED = 0 then Some s
          else if pg_flags q AND PMM_FLAG_KERNEL \<noteq> 0 then Some s
          else do {
            let s = add_used cpu (- push_bit (unat order) 1) s;
            let zone = zone_for_flags (pg_flags q);
            (s, page, order) \<leftarrow> merge_block s zone page order;
            q \<leftarrow> get_page s page;
            s \<leftarrow> put_page s page (q\<lparr>pg_order := order, pg_freelist := 0, pg_objects := 0, pg_prev := None, pg_next := None,
                   pg_flags := (pg_flags q OR PMM_FLAG_FREE) AND NOT PMM_FLAG_USED, pg_ref_count := 0\<rparr>);
            free_area_push s zone order page
          }
        })"

section \<open>Accounting\<close>

definition get_used_blocks :: "pmm \<Rightarrow> u32" where
  "get_used_blocks s = fold (\<lambda>i total. total + cpu_used_pages s i) [0..<MAX_CPUS] 0"

definition get_free_blocks :: "pmm \<Rightarrow> u32" where
  "get_free_blocks s = total_pages s - get_used_blocks s"

definition get_total_blocks :: "pmm \<Rightarrow> u32" where
  "get_total_blocks s = total_pages s"

section \<open>Initialisation\<close>

record pmm_region =
  region_base :: u32
  region_size :: u32
  region_type :: u32

record pmm_reserved_region =
  reserved_base :: u32
  reserved_size :: u32

abbreviation PMM_REGION_AVAILABLE :: u32 where "PMM_REGION_AVAILABLE \<equiv> 1"

text \<open>No regions are the null pointer or a count of zero.\<close>

primrec range_is_reserved :: "u32 \<Rightarrow> u32 \<Rightarrow> pmm_reserved_region list \<Rightarrow> bool" where
  "range_is_reserved start end [] = False"
| "range_is_reserved start end (r # reserved) =
     (let base = reserved_base r; size = reserved_size r;
          r_start = align_down base;
          r_end = base + size;
          r_end = (if r_end < base then 0xFFFFFFFF else r_end);
          r_end = align_up r_end
      in if size = 0 \<or> r_end \<le> start \<or> r_start \<ge> end then range_is_reserved start end reserved else True)"

text \<open>The largest order for a block at \<open>cur\<close>.\<close>

function fit_order :: "u32 \<Rightarrow> u32 \<Rightarrow> u32 \<Rightarrow> pmm_reserved_region list \<Rightarrow> u32 \<Rightarrow> u32" where
  "fit_order cur end_aligned zone_flags reserved max_order =
     (if max_order > 0 then
        let block_size = push_bit (unat max_order) PAGE_SIZE;
            block_end = cur + block_size;
            cur_zone_flags = (if zone_flags \<noteq> 0 then zone_flags else zone_flags_for_addr cur)
        in if block_end < cur \<or> block_end > end_aligned
           then fit_order cur end_aligned zone_flags reserved (max_order - 1)
           else if (if cur_zone_flags AND PMM_FLAG_DMA \<noteq> 0 then block_end > k_dma_limit
                    else cur < k_dma_limit \<and> block_end > k_dma_limit)
           then fit_order cur end_aligned zone_flags reserved (max_order - 1)
           else if range_is_reserved cur block_end reserved
           then fit_order cur end_aligned zone_flags reserved (max_order - 1)
           else max_order
      else max_order)"
  by pat_completeness auto
termination
  by (relation "measure (\<lambda>(_, _, _, _, k). unat k)") (auto simp: unat_minus_one unat_gt_0 word_gt_0)

declare fit_order.simps [simp del]

partial_function (option) free_range_loop :: "int ptr \<Rightarrow> pmm \<Rightarrow> u32 \<Rightarrow> u32 \<Rightarrow> u32 \<Rightarrow> pmm_reserved_region list \<Rightarrow> pmm option" where
  "free_range_loop cpu s cur end_aligned zone_flags reserved =
     (if cur < end_aligned then
        if zone_flags \<noteq> 0 \<and> zone_flags AND PMM_FLAG_DMA \<noteq> 0 \<and> cur \<ge> k_dma_limit then Some s
        else
          let max_order = fit_order cur end_aligned zone_flags reserved PMM_MAX_ORDER;
              block_size = push_bit (unat max_order) PAGE_SIZE;
              block_end = cur + block_size
          in if block_end \<le> cur \<or> block_end > end_aligned then Some s
          else if range_is_reserved cur block_end reserved
          then free_range_loop cpu s (cur + PAGE_SIZE) end_aligned zone_flags reserved
          else do {
            s \<leftarrow> free_pages_unlocked cpu s cur max_order;
            free_range_loop cpu s block_end end_aligned zone_flags reserved
          }
      else Some s)"

definition free_range :: "int ptr \<Rightarrow> pmm \<Rightarrow> u32 \<Rightarrow> u32 \<Rightarrow> u32 \<Rightarrow> pmm_reserved_region list \<Rightarrow> pmm option" where
  "free_range cpu s start end zone_flags reserved =
     (if end \<le> start then Some s
      else
        let cur = align_up start; end_aligned = align_down end
        in if end_aligned \<le> cur then Some s
        else
          let cur = (if zone_flags \<noteq> 0 \<and> zone_flags AND PMM_FLAG_DMA = 0 \<and> cur < k_dma_limit then k_dma_limit else cur)
          in free_range_loop cpu s cur end_aligned zone_flags reserved)"

definition used_page :: "u32 \<Rightarrow> u32 \<Rightarrow> page \<Rightarrow> page" where
  "used_page kernel_end addr page = page\<lparr>
     pg_flags := PMM_FLAG_USED OR zone_flags_for_addr addr OR (if addr < kernel_end then PMM_FLAG_KERNEL else 0),
     pg_ref_count := 1, pg_order := 0, pg_freelist := 0, pg_objects := 0, pg_prev := None, pg_next := None\<rparr>"

definition init_used_pages :: "pmm \<Rightarrow> u32 \<Rightarrow> u32 \<Rightarrow> pmm" where
  "init_used_pages s page_count kernel_end_addr =
     (let kernel_end = align_up kernel_end_addr in
      s\<lparr>cpu_used_pages := (cpu_used_pages s)(0 := page_count),
        mem_map := fold (\<lambda>i m. m(word_of_nat i := used_page kernel_end (word_of_nat i * PAGE_SIZE) (m (word_of_nat i))))
          [0..<unat page_count] (mem_map s)\<rparr>)"

primrec regions_end :: "pmm_region list \<Rightarrow> u32 \<Rightarrow> u32" where
  "regions_end [] max_end = max_end"
| "regions_end (r # regions) max_end =
     (if region_type r \<noteq> PMM_REGION_AVAILABLE \<or> region_size r = 0 then regions_end regions max_end
      else
        let base = region_base r; end = base + region_size r;
            end = (if end < base then 0xFFFFFFFF else end)
        in regions_end regions (if end > max_end then end else max_end))"

primrec free_regions :: "int ptr \<Rightarrow> pmm \<Rightarrow> u32 \<Rightarrow> pmm_reserved_region list \<Rightarrow> pmm_region list \<Rightarrow> pmm option" where
  "free_regions cpu s mem_map_end reserved [] = Some s"
| "free_regions cpu s mem_map_end reserved (r # regions) =
     (if region_type r \<noteq> PMM_REGION_AVAILABLE then free_regions cpu s mem_map_end reserved regions
      else
        let start = align_up (region_base r); end = align_down (region_base r + region_size r)
        in if end \<le> start then free_regions cpu s mem_map_end reserved regions
        else
          let start = (if start < mem_map_end then mem_map_end else start)
          in if end \<le> start then free_regions cpu s mem_map_end reserved regions
          else do {
            s \<leftarrow> free_range cpu s start end 0 reserved;
            free_regions cpu s mem_map_end reserved regions
          })"

definition zero_page :: page where
  "zero_page = \<lparr>pg_flags = 0, pg_ref_count = 0, pg_order = 0, pg_freelist = 0, pg_objects = 0, pg_prev = None, pg_next = None\<rparr>"

definition empty_pmm :: "pmm \<Rightarrow> pmm" where
  "empty_pmm s = s\<lparr>total_pages := 0, cpu_used_pages := (\<lambda>_. 0),
     zones := (\<lambda>_. \<lparr>free_areas = (\<lambda>_. \<lparr>area_head = None, area_count = 0\<rparr>), free_bitmap = 0\<rparr>)\<rparr>"

definition init_regions :: "int ptr \<Rightarrow> pmm \<Rightarrow> pmm_region list \<Rightarrow> pmm_reserved_region list \<Rightarrow> u32 \<Rightarrow> pmm option" where
  "init_regions cpu s regions reserved kernel_end_addr =
     (let s = empty_pmm s in
      if regions = [] then Some s
      else
        let max_addr = align_down (regions_end regions 0);
            page_count = max_addr div PAGE_SIZE
        in if page_count = 0 then Some s
        else
          let mem_map_phys = align_up kernel_end_addr;
              mem_map_size = page_count * 32;
              mem_map_end = align_up (mem_map_phys + mem_map_size)
          in if mem_map_end < mem_map_phys then Some s
          else
            let s = s\<lparr>total_pages := page_count, mem_map := (\<lambda>i. if i < page_count then zero_page else mem_map s i)\<rparr>;
                s = init_used_pages s page_count mem_map_end
            in free_regions cpu s mem_map_end reserved regions)"

definition pmm_init :: "int ptr \<Rightarrow> pmm \<Rightarrow> u32 \<Rightarrow> u32 \<Rightarrow> pmm option" where
  "pmm_init cpu s mem_size kernel_end_addr =
     init_regions cpu s [\<lparr>region_base = 0, region_size = mem_size, region_type = PMM_REGION_AVAILABLE\<rparr>] [] kernel_end_addr"

end
