(* ===== verification/Pmm_buddy.thy ===== *)
theory Pmm_buddy
  imports Pmm
begin

text \<open>
  The invariant of the buddy allocator of \<open>Pmm\<close>: the free lists, the blocks that tile the memory, and what the descriptors of
  the pages inside a block may say. A freed block keeps the descriptors of its inner pages, some of which still look like free
  blocks of order 0 (\<open>stale\<close>); the invariant shows that the merge never takes such a page for a buddy.
\<close>

section \<open>Buddies\<close>

lemma xor_pow2_clear:
  assumes "\<not> bit p k" "unat p < 2 ^ 31" "k < 31"
  shows "unat (p XOR push_bit k 1 :: u32) = unat p + 2 ^ k"
proof -
  have "p AND push_bit k 1 = 0" using assms(1) by (intro bit_word_eqI) (auto simp: bit_simps)
  then have "p XOR push_bit k 1 = p + push_bit k 1" by (simp add: disjunctive_add_eq_xor)
  moreover have "unat (push_bit k 1 :: u32) = 2 ^ k" using assms(3) by (subst unat_push_bit) (use power_strict_increasing [of k 32 "2::nat"] in simp_all)
  moreover have "(2::nat) ^ k < 2 ^ 31" using assms(3) by (rule power_strict_increasing) simp
  ultimately show ?thesis using assms(2) by (simp add: unat_add_no_overflow)
qed

lemma xor_pow2:
  assumes "unat p < 2 ^ 31" "k < 31"
  shows "unat (p XOR push_bit k 1 :: u32) = (if bit p k then unat p - 2 ^ k else unat p + 2 ^ k)"
    "bit p k \<Longrightarrow> 2 ^ k \<le> unat p"
proof -
  let ?q = "p XOR push_bit k 1"
  have *: "unat p = unat ?q + 2 ^ k" if "bit p k"
  proof -
    have "?q = p AND NOT (push_bit k 1)" using that by (intro bit_word_eqI) (auto simp: bit_simps)
    then have "unat ?q < 2 ^ 31" using assms(1) word_and_le1 [of p "NOT (push_bit k 1)"] word_and_le2
      by (metis le_less_trans word_le_nat_alt)
    moreover have "\<not> bit ?q k" using that assms(2) by (simp add: bit_simps)
    moreover have "?q XOR push_bit k 1 = p" by (simp add: xor.assoc)
    ultimately show ?thesis using xor_pow2_clear [of ?q k] assms(2) by simp
  qed
  then show "unat (p XOR push_bit k 1 :: u32) = (if bit p k then unat p - 2 ^ k else unat p + 2 ^ k)"
    using xor_pow2_clear [OF _ assms] by simp
  show "bit p k \<Longrightarrow> 2 ^ k \<le> unat p" using * by simp
qed

lemma and_xor_pow2: "p AND (p XOR push_bit k 1) = (if bit p k then p XOR push_bit k 1 else p)" for p :: u32
  by (intro bit_word_eqI) (auto simp: bit_simps)

lemma bit0_odd: "bit q 0 \<longleftrightarrow> odd (unat q)" for q :: u32
  by (simp add: bit_unsigned_iff flip: bit_0)

section \<open>Chains\<close>

fun lseg :: "(u32 \<Rightarrow> page) \<Rightarrow> u32 ptr \<Rightarrow> u32 ptr \<Rightarrow> u32 list \<Rightarrow> u32 ptr \<Rightarrow> u32 ptr \<Rightarrow> bool" where
  "lseg m b h [] c g \<longleftrightarrow> c = b \<and> g = h"
| "lseg m b h (x # xs) c g \<longleftrightarrow> h = Some x \<and> pg_prev (m x) = b \<and> lseg m (Some x) (pg_next (m x)) xs c g"

definition page_chain :: "(u32 \<Rightarrow> page) \<Rightarrow> u32 ptr \<Rightarrow> u32 list \<Rightarrow> bool" where
  "page_chain m h xs \<longleftrightarrow> (\<exists>c. lseg m None h xs c None)"

lemma lseg_append: "lseg m b h (xs @ ys) c g \<longleftrightarrow> (\<exists>d f. lseg m b h xs d f \<and> lseg m d f ys c g)"
  by (induction xs arbitrary: b h) auto

lemma lseg_cong:
  "(\<And>x. x \<in> set xs \<Longrightarrow> pg_prev (m' x) = pg_prev (m x) \<and> pg_next (m' x) = pg_next (m x)) \<Longrightarrow> lseg m' b h xs c g = lseg m b h xs c g"
  by (induction xs arbitrary: b h) auto

lemma lseg_upd [simp]: "x \<notin> set xs \<Longrightarrow> lseg (m(x := v)) b h xs c g = lseg m b h xs c g"
  by (rule lseg_cong) auto

lemma page_chain_cong:
  "(\<And>x. x \<in> set xs \<Longrightarrow> pg_prev (m' x) = pg_prev (m x) \<and> pg_next (m' x) = pg_next (m x)) \<Longrightarrow> page_chain m' h xs = page_chain m h xs"
  unfolding page_chain_def by (simp cong: lseg_cong)

lemma chain_Nil [simp]: "page_chain m h [] \<longleftrightarrow> h = None"
  by (auto simp: page_chain_def)

lemma chain_head: "page_chain m h xs \<Longrightarrow> h = (case xs of [] \<Rightarrow> None | x # _ \<Rightarrow> Some x)"
  by (auto simp: page_chain_def split: list.splits)

definition same_meta :: "(u32 \<Rightarrow> page) \<Rightarrow> (u32 \<Rightarrow> page) \<Rightarrow> bool" where
  "same_meta m m' \<longleftrightarrow> (\<forall>q. pg_flags (m' q) = pg_flags (m q) \<and> pg_order (m' q) = pg_order (m q))"

lemma list_add_ok:
  assumes "page_chain (mem_map s) h xs" "p < total_pages s" "p \<notin> set xs" "distinct xs" "\<forall>x \<in> set xs. x < total_pages s"
  obtains m where "list_add s h p = Some (s\<lparr>mem_map := m\<rparr>, Some p)" "page_chain m (Some p) (p # xs)"
    "same_meta (mem_map s) m" "\<forall>q. q \<notin> set (p # xs) \<longrightarrow> m q = mem_map s q"
proof (cases xs)
  case Nil
  with assms have "list_add s h p = Some (s\<lparr>mem_map := (mem_map s)(p := mem_map s p\<lparr>pg_next := None, pg_prev := None\<rparr>)\<rparr>, Some p)"
    by (simp add: list_add_def get_page_def put_page_def)
  then show thesis by (rule that) (use Nil in \<open>auto simp: same_meta_def page_chain_def\<close>)
next
  case (Cons x ys)
  let ?m = "(mem_map s)(p := mem_map s p\<lparr>pg_next := Some x, pg_prev := None\<rparr>, x := mem_map s x\<lparr>pg_prev := Some p\<rparr>)"
  obtain c where c: "h = Some x" "lseg (mem_map s) (Some x) (pg_next (mem_map s x)) ys c None"
    using assms(1) Cons by (auto simp: page_chain_def)
  have "list_add s h p = Some (s\<lparr>mem_map := ?m\<rparr>, Some p)"
    using assms Cons c by (auto simp: list_add_def get_page_def put_page_def)
  moreover have "lseg ?m (Some x) (pg_next (mem_map s x)) ys c None"
    using assms Cons c(2) by (subst lseg_cong [where m = "mem_map s"]) auto
  ultimately show thesis using assms Cons by (intro that [of ?m]) (auto simp: same_meta_def page_chain_def)
qed

definition unlink :: "(u32 \<Rightarrow> page) \<Rightarrow> u32 \<Rightarrow> u32 \<Rightarrow> page" where
  "unlink m p =
     (let m1 = (case pg_prev (m p) of None \<Rightarrow> m | Some b \<Rightarrow> m(b := m b\<lparr>pg_next := pg_next (m p)\<rparr>));
          m2 = (case pg_next (m p) of None \<Rightarrow> m1 | Some n \<Rightarrow> m1(n := m1 n\<lparr>pg_prev := pg_prev (m p)\<rparr>))
      in m2(p := m2 p\<lparr>pg_next := None, pg_prev := None\<rparr>))"

lemma page_chain_unlink:
  assumes "page_chain m h (ys @ p # zs)" "distinct (ys @ p # zs)"
  shows "page_chain (unlink m p) (if ys = [] then pg_next (m p) else h) (ys @ zs)"
  using assms
  by (cases ys rule: rev_cases; cases zs)
    (auto simp: page_chain_def lseg_append unlink_def Let_def)

lemma chain_neighbours:
  assumes "page_chain m h (ys @ p # zs)"
  shows "pg_prev (m p) = (if ys = [] then None else Some (last ys))" "pg_next (m p) = (if zs = [] then None else Some (hd zs))"
  using assms by (cases ys rule: rev_cases; cases zs; auto simp: page_chain_def lseg_append)+

lemma list_remove_ok:
  assumes "page_chain (mem_map s) h xs" "p \<in> set xs" "distinct xs" "\<forall>x \<in> set xs. x < total_pages s"
  obtains m h' where "list_remove s h p = Some (s\<lparr>mem_map := m\<rparr>, h')" "page_chain m h' (remove1 p xs)"
    "same_meta (mem_map s) m" "\<forall>q. q \<notin> set xs \<longrightarrow> m q = mem_map s q"
proof -
  obtain ys zs where xs: "xs = ys @ p # zs" using assms(2) by (meson split_list)
  note nb = chain_neighbours [OF assms(1) [unfolded xs]]
  have lt: "ys \<noteq> [] \<Longrightarrow> last ys < total_pages s \<and> last ys \<noteq> p \<and> p \<noteq> last ys" "zs \<noteq> [] \<Longrightarrow> hd zs < total_pages s \<and> hd zs \<noteq> p \<and> p \<noteq> hd zs"
    "p < total_pages s"
    using assms(3,4) xs last_in_set [of ys] hd_in_set [of zs] by auto
  have "last ys \<noteq> hd zs" if "ys \<noteq> []" "zs \<noteq> []" using assms(3) xs that by (cases ys rule: rev_cases; cases zs) auto
  note lt = lt this
  have "list_remove s h p = Some (s\<lparr>mem_map := unlink (mem_map s) p\<rparr>, if ys = [] then pg_next (mem_map s p) else h)"
    using nb lt by (cases "ys = []"; cases "zs = []") (simp_all add: list_remove_def unlink_def get_page_def put_page_def Let_def)
  then show thesis
  proof (rule that)
    have "remove1 p xs = ys @ zs" using assms(3) xs by (simp add: remove1_append)
    then show "page_chain (unlink (mem_map s) p) (if ys = [] then pg_next (mem_map s p) else h) (remove1 p xs)"
      using page_chain_unlink [OF assms(1,3) [unfolded xs]] by (simp only:)
    show "same_meta (mem_map s) (unlink (mem_map s) p)" by (auto simp: same_meta_def unlink_def Let_def split: option.splits)
    show "\<forall>q. q \<notin> set xs \<longrightarrow> unlink (mem_map s) p q = mem_map s q" using nb xs by (auto simp: unlink_def Let_def)
  qed
qed

section \<open>The free lists of all zones and orders\<close>

type_synonym lists = "u32 \<Rightarrow> u32 \<Rightarrow> u32 list"

definition lists_ok :: "pmm \<Rightarrow> lists \<Rightarrow> bool" where
  "lists_ok s F \<longleftrightarrow>
     (\<forall>z k. z < PMM_ZONE_COUNT \<longrightarrow> k \<le> PMM_MAX_ORDER \<longrightarrow>
        page_chain (mem_map s) (area_head (free_areas (zones s z) k)) (F z k) \<and>
        area_count (free_areas (zones s z) k) = word_of_nat (length (F z k))) \<and>
     (\<forall>z k. distinct (F z k) \<and> (\<forall>x \<in> set (F z k). x < total_pages s \<and> z < PMM_ZONE_COUNT \<and> k \<le> PMM_MAX_ORDER)) \<and>
     (\<forall>z k z' k' x. x \<in> set (F z k) \<longrightarrow> x \<in> set (F z' k') \<longrightarrow> z = z' \<and> k = k') \<and>
     (\<forall>z < PMM_ZONE_COUNT. \<forall>k. bit (free_bitmap (zones s z)) (unat k) \<longleftrightarrow> F z k \<noteq> [])"

abbreviation set_list :: "lists \<Rightarrow> u32 \<Rightarrow> u32 \<Rightarrow> u32 list \<Rightarrow> lists" where
  "set_list F z k xs \<equiv> F(z := (F z)(k := xs))"

lemma lists_okD:
  assumes "lists_ok s F"
  shows "z < PMM_ZONE_COUNT \<Longrightarrow> k \<le> PMM_MAX_ORDER \<Longrightarrow> page_chain (mem_map s) (area_head (free_areas (zones s z) k)) (F z k)"
    "z < PMM_ZONE_COUNT \<Longrightarrow> k \<le> PMM_MAX_ORDER \<Longrightarrow> area_count (free_areas (zones s z) k) = word_of_nat (length (F z k))"
    "distinct (F z k)" "x \<in> set (F z k) \<Longrightarrow> x < total_pages s"
    "x \<in> set (F z k) \<Longrightarrow> z < PMM_ZONE_COUNT" "x \<in> set (F z k) \<Longrightarrow> k \<le> PMM_MAX_ORDER"
    "x \<in> set (F z k) \<Longrightarrow> x \<in> set (F z' k') \<Longrightarrow> z = z' \<and> k = k'"
    "z < PMM_ZONE_COUNT \<Longrightarrow> bit (free_bitmap (zones s z)) (unat k) \<longleftrightarrow> F z k \<noteq> []"
  using assms unfolding lists_ok_def by blast+

lemma count_eq_0:
  assumes "distinct xs" "\<forall>x \<in> set xs. x < (t :: u32)"
  shows "(word_of_nat (length xs) :: u32) = 0 \<longleftrightarrow> xs = []"
proof -
  have "length xs = card (unat ` set xs)" using assms(1) by (subst card_image) (auto simp: distinct_card inj_on_def word_unat_eq_iff)
  also have "\<dots> \<le> card {..<unat t}" using assms(2) by (intro card_mono) (auto simp: word_less_nat_alt)
  also have "\<dots> < 2 ^ 32" using unsigned_less [of t] by simp
  finally show ?thesis by (auto simp: word_of_nat_eq_0_iff dvd_imp_le leD)
qed

lemma lists_ok_set:
  assumes ok: "lists_ok s F" and zk: "z < PMM_ZONE_COUNT" "k \<le> PMM_MAX_ORDER"
    and s': "total_pages s' = total_pages s" "\<And>z'. free_bitmap (zones s' z') = (if z' = z then b else free_bitmap (zones s z'))"
      "\<And>z' k'. free_areas (zones s' z') k' =
         (if z' = z \<and> k' = k then \<lparr>area_head = h, area_count = word_of_nat (length xs)\<rparr> else free_areas (zones s z') k')"
    and new: "page_chain (mem_map s') h xs" "distinct xs" "\<And>x. x \<in> set xs \<Longrightarrow> x < total_pages s"
    and frame: "\<And>q. q \<notin> set xs \<Longrightarrow> q \<notin> set (F z k) \<Longrightarrow> mem_map s' q = mem_map s q"
    and fresh: "\<And>x z' k'. x \<in> set xs \<Longrightarrow> x \<in> set (F z' k') \<Longrightarrow> z' = z \<and> k' = k"
    and b: "\<And>i. bit b i \<longleftrightarrow> (if i = unat k then xs \<noteq> [] else bit (free_bitmap (zones s z)) i)"
  shows "lists_ok s' (set_list F z k xs)"
proof -
  have old: "page_chain (mem_map s') (area_head (free_areas (zones s z') k')) (F z' k')"
    if "z' < PMM_ZONE_COUNT" "k' \<le> PMM_MAX_ORDER" "z' \<noteq> z \<or> k' \<noteq> k" for z' k'
  proof -
    have "mem_map s' q = mem_map s q" if "q \<in> set (F z' k')" for q
      using frame fresh lists_okD(7) [OF ok that] that \<open>z' \<noteq> z \<or> k' \<noteq> k\<close> by blast
    then show ?thesis using lists_okD(1) [OF ok that(1,2)] by (simp cong: page_chain_cong)
  qed
  have new_old: "z' = z \<and> k' = k \<and> x \<in> set xs \<or> (z' \<noteq> z \<or> k' \<noteq> k) \<and> x \<in> set (F z' k')" if "x \<in> set (set_list F z k xs z' k')" for x z' k'
    using that by (simp split: if_splits)
  show ?thesis
    unfolding lists_ok_def
  proof (intro conjI allI impI ballI)
    fix z' k' assume "z' < PMM_ZONE_COUNT" "k' \<le> PMM_MAX_ORDER"
    then show "page_chain (mem_map s') (area_head (free_areas (zones s' z') k')) (set_list F z k xs z' k')"
      "area_count (free_areas (zones s' z') k') = word_of_nat (length (set_list F z k xs z' k'))"
      using new(1) old lists_okD(2) [OF ok] by (simp_all add: s')
  next
    fix z' k'
    show "distinct (set_list F z k xs z' k')" using new(2) lists_okD(3) [OF ok] by simp
  next
    fix z' k' x assume "x \<in> set (set_list F z k xs z' k')"
    then show "x < total_pages s'" "z' < PMM_ZONE_COUNT" "k' \<le> PMM_MAX_ORDER"
      using new_old new(3) zk lists_okD(4-6) [OF ok] unfolding s'(1) by blast+
  next
    fix z1 k1 z2 k2 x assume "x \<in> set (set_list F z k xs z1 k1)" "x \<in> set (set_list F z k xs z2 k2)"
    then show "z1 = z2" "k1 = k2" using new_old fresh lists_okD(7) [OF ok] by metis+
  next
    fix z' :: u32 and k' :: u32 assume "z' < PMM_ZONE_COUNT"
    then show "bit (free_bitmap (zones s' z')) (unat k') \<longleftrightarrow> set_list F z k xs z' k' \<noteq> []"
      using b lists_okD(8) [OF ok] by (auto simp: s' word_unat_eq_iff [symmetric])
  qed
qed

lemma area_push_ok:
  assumes ok: "lists_ok s F" and zk: "z < PMM_ZONE_COUNT" "k \<le> PMM_MAX_ORDER" and p: "p < total_pages s" "\<And>z k. p \<notin> set (F z k)"
  obtains s' where "free_area_push s z k p = Some s'" "lists_ok s' (set_list F z k (p # F z k))" "same_meta (mem_map s) (mem_map s')"
    "total_pages s' = total_pages s" "cpu_used_pages s' = cpu_used_pages s"
proof -
  let ?a = "free_areas (zones s z) k"
  note d = lists_okD [OF ok]
  have lt: "\<forall>x \<in> set (F z k). x < total_pages s" using d(4) by blast
  obtain m where m: "list_add s (area_head ?a) p = Some (s\<lparr>mem_map := m\<rparr>, Some p)" "page_chain m (Some p) (p # F z k)"
    "same_meta (mem_map s) m" "\<forall>q. q \<notin> set (p # F z k) \<longrightarrow> m q = mem_map s q"
    by (rule list_add_ok [OF d(1) [OF zk] p(1) p(2) d(3) lt])
  let ?b = "if area_count ?a = 0 then free_bitmap (zones s z) OR push_bit (unat k) 1 else free_bitmap (zones s z)"
  let ?s = "let s = set_area (s\<lparr>mem_map := m\<rparr>) z k \<lparr>area_head = Some p, area_count = area_count ?a + 1\<rparr>
    in if area_count ?a = 0 then set_bitmap s z (free_bitmap (zones s z) OR push_bit (unat k) 1) else s"
  have "free_area_push s z k p = Some ?s" using m(1) by (simp add: free_area_push_def Let_def)
  moreover have "lists_ok ?s (set_list F z k (p # F z k))"
  proof (rule lists_ok_set [OF ok zk])
    have k: "unat k < 32" using zk(2) by (simp add: word_le_nat_alt)
    have "area_count ?a = 0 \<longleftrightarrow> F z k = []" using d(2) [OF zk] count_eq_0 [OF d(3)] d(4) by metis
    then show "bit ?b i \<longleftrightarrow> (if i = unat k then p # F z k \<noteq> [] else bit (free_bitmap (zones s z)) i)" for i
      using k d(8) [OF zk(1), of k] by (auto simp: bit_simps)
  qed (use m p d(2) [OF zk] d(3,4,7) in \<open>auto simp: Let_def set_area_def set_bitmap_def\<close>)
  ultimately show thesis by (rule that) (use m(3) in \<open>simp_all add: Let_def set_area_def set_bitmap_def\<close>)
qed

lemma area_remove_bitmap:
  assumes ok: "lists_ok s F" and zk: "z < PMM_ZONE_COUNT" "k \<le> PMM_MAX_ORDER" and p: "p \<in> set (F z k)"
  defines "b \<equiv> if area_count (free_areas (zones s z) k) - 1 = 0 then free_bitmap (zones s z) AND NOT (push_bit (unat k) 1)
     else free_bitmap (zones s z)"
  shows "area_count (free_areas (zones s z) k) - 1 = word_of_nat (length (remove1 p (F z k)))"
    "bit b i \<longleftrightarrow> (if i = unat k then remove1 p (F z k) \<noteq> [] else bit (free_bitmap (zones s z)) i)"
proof -
  note d = lists_okD [OF ok]
  have len: "length (F z k) = Suc (length (remove1 p (F z k)))"
    using p length_pos_if_in_set [of p "F z k"] by (simp add: length_remove1)
  then show 1: "area_count (free_areas (zones s z) k) - 1 = word_of_nat (length (remove1 p (F z k)))"
    using d(2) [OF zk] by simp
  have "word_of_nat (length (remove1 p (F z k))) = (0::u32) \<longleftrightarrow> remove1 p (F z k) = []"
    by (rule count_eq_0 [where t = "total_pages s"]) (use d(3,4) notin_set_remove1 in fastforce)+
  then show "bit b i \<longleftrightarrow> (if i = unat k then remove1 p (F z k) \<noteq> [] else bit (free_bitmap (zones s z)) i)"
    using 1 d(8) [OF zk(1), of k] zk(2) p by (auto simp: b_def bit_simps word_le_nat_alt dest: bit_imp_le_length)
qed

lemma area_remove_ok:
  assumes ok: "lists_ok s F" and zk: "z < PMM_ZONE_COUNT" "k \<le> PMM_MAX_ORDER" and p: "p \<in> set (F z k)"
  obtains s' where "free_area_remove s z k p = Some s'" "lists_ok s' (set_list F z k (remove1 p (F z k)))" "same_meta (mem_map s) (mem_map s')"
    "total_pages s' = total_pages s" "cpu_used_pages s' = cpu_used_pages s"
    "area_head (free_areas (zones s z) k) = Some p \<longrightarrow> free_area_pop s z k = Some (Some p, s')"
proof -
  let ?a = "free_areas (zones s z) k"
  note d = lists_okD [OF ok]
  have lt: "\<forall>x \<in> set (F z k). x < total_pages s" using d(4) by blast
  obtain m h' where m: "list_remove s (area_head ?a) p = Some (s\<lparr>mem_map := m\<rparr>, h')" "page_chain m h' (remove1 p (F z k))"
    "same_meta (mem_map s) m" "\<forall>q. q \<notin> set (F z k) \<longrightarrow> m q = mem_map s q"
    by (rule list_remove_ok [OF d(1) [OF zk] p(1) d(3) lt])
  let ?b = "if area_count ?a - 1 = 0 then free_bitmap (zones s z) AND NOT (push_bit (unat k) 1) else free_bitmap (zones s z)"
  let ?s = "let s = set_area (s\<lparr>mem_map := m\<rparr>) z k \<lparr>area_head = h', area_count = area_count ?a - 1\<rparr>
    in if area_count ?a - 1 = 0 then set_bitmap s z (free_bitmap (zones s z) AND NOT (push_bit (unat k) 1)) else s"
  have eq: "free_area_remove s z k p = Some ?s" using m(1) by (simp add: free_area_remove_def Let_def)
  have pop: "area_head ?a = Some p \<longrightarrow> free_area_pop s z k = Some (Some p, ?s)"
  proof
    assume "area_head ?a = Some p"
    then show "free_area_pop s z k = Some (Some p, ?s)" using m(1) by (simp add: free_area_pop_def Let_def)
  qed
  have "lists_ok ?s (set_list F z k (remove1 p (F z k)))"
  proof (rule lists_ok_set [OF ok zk])
    show "bit ?b i \<longleftrightarrow> (if i = unat k then remove1 p (F z k) \<noteq> [] else bit (free_bitmap (zones s z)) i)" for i
      by (rule area_remove_bitmap(2) [OF ok zk p])
  qed (use m d area_remove_bitmap(1) [OF ok zk p] in \<open>auto simp: Let_def set_area_def set_bitmap_def dest: notin_set_remove1\<close>)
  then show thesis by (rule that [OF eq _ _ _ _ pop]) (use m(3) in \<open>simp_all add: Let_def set_area_def set_bitmap_def\<close>)
qed

section \<open>Blocks\<close>

type_synonym block = "u32 \<times> u32"

definition span :: "block \<Rightarrow> nat set" where
  "span b = {unat (fst b) ..< unat (fst b) + 2 ^ unat (snd b)}"

definition tiled :: "block set \<Rightarrow> bool" where
  "tiled B \<longleftrightarrow> (\<forall>b \<in> B. \<forall>c \<in> B. span b \<inter> span c \<noteq> {} \<longrightarrow> b = c)"

lemma tiledD: "tiled B \<Longrightarrow> b \<in> B \<Longrightarrow> c \<in> B \<Longrightarrow> n \<in> span b \<Longrightarrow> n \<in> span c \<Longrightarrow> b = c"
  unfolding tiled_def by blast

lemma head_in_span [simp]: "unat p \<in> span (p, k)"
  by (simp add: span_def)

lemma tiled_head: "tiled B \<Longrightarrow> (p, k) \<in> B \<Longrightarrow> (p, j) \<in> B \<Longrightarrow> k = j"
  using tiledD [of B "(p, k)" "(p, j)" "unat p"] by simp

lemma tiled_subset: "tiled B \<Longrightarrow> C \<subseteq> B \<Longrightarrow> tiled C"
  unfolding tiled_def by blast

lemma tiled_merge: "tiled B \<Longrightarrow> x \<in> B \<Longrightarrow> y \<in> B \<Longrightarrow> span z = span x \<union> span y \<Longrightarrow> tiled (insert z (B - {x, y}))"
  unfolding tiled_def by blast

lemma tiled_split:
  "tiled B \<Longrightarrow> z \<in> B \<Longrightarrow> span z = span x \<union> span y \<Longrightarrow> span x \<inter> span y = {} \<Longrightarrow> tiled (insert x (insert y (B - {z})))"
  unfolding tiled_def by blast

text \<open>Flags and orders of the descriptors, the free blocks, the allocated blocks and the block in work.\<close>

definition stale :: "(u32 \<Rightarrow> u32) \<Rightarrow> block set \<Rightarrow> u32 \<Rightarrow> bool" where
  "stale od B q \<longleftrightarrow> od q = 0 \<and> (\<exists>p k. (p, k) \<in> B \<and> unat q \<in> span (p, k) \<and> q \<noteq> p \<and> (odd (unat q) \<or> even (unat p)))"

definition tiles :: "u32 \<Rightarrow> (u32 \<Rightarrow> u32) \<Rightarrow> block set \<Rightarrow> bool" where
  "tiles t fl B \<longleftrightarrow> unat t \<le> 2 ^ 20 \<and> tiled B \<and> (\<forall>p k. (p, k) \<in> B \<longrightarrow> k \<le> PMM_MAX_ORDER \<and> unat p + 2 ^ unat k \<le> unat t) \<and>
     (\<forall>p k q. (p, k) \<in> B \<longrightarrow> unat q \<in> span (p, k) \<longrightarrow>
        fl q AND PMM_FLAG_KERNEL = 0 \<and> zone_for_flags (fl q) = zone_for_flags (fl p))"

definition heads :: "(u32 \<Rightarrow> u32) \<Rightarrow> (u32 \<Rightarrow> u32) \<Rightarrow> block set \<Rightarrow> block set \<Rightarrow> block set \<Rightarrow> bool" where
  "heads fl od Fb U W \<longleftrightarrow>
     (\<forall>p k. (p, k) \<in> Fb \<longrightarrow> fl p AND PMM_FLAG_USED = 0 \<and> od p = k) \<and>
     (\<forall>p k. (p, k) \<in> U \<longrightarrow> fl p AND PMM_FLAG_USED \<noteq> 0) \<and>
     (\<forall>p k. (p, k) \<in> W \<longrightarrow> (fl p AND PMM_FLAG_USED \<noteq> 0 \<or> od p = 0) \<and> (p, k) \<notin> Fb \<union> U)"

definition meta_ok :: "u32 \<Rightarrow> (u32 \<Rightarrow> u32) \<Rightarrow> (u32 \<Rightarrow> u32) \<Rightarrow> block set \<Rightarrow> block set \<Rightarrow> block set \<Rightarrow> bool" where
  "meta_ok t fl od Fb U W \<longleftrightarrow> tiles t fl (Fb \<union> U \<union> W) \<and> heads fl od Fb U W \<and>
     (\<forall>q < t. fl q AND PMM_FLAG_USED = 0 \<longrightarrow> (\<exists>k. (q, k) \<in> Fb \<union> W) \<or> stale od (Fb \<union> U \<union> W) q)"

lemma tilesD:
  assumes "tiles t fl B"
  shows "unat t \<le> 2 ^ 20" "tiled B" "(p, k) \<in> B \<Longrightarrow> k \<le> PMM_MAX_ORDER" "(p, k) \<in> B \<Longrightarrow> unat p + 2 ^ unat k \<le> unat t"
    "(p, k) \<in> B \<Longrightarrow> unat q \<in> span (p, k) \<Longrightarrow> fl q AND PMM_FLAG_KERNEL = 0"
    "(p, k) \<in> B \<Longrightarrow> unat q \<in> span (p, k) \<Longrightarrow> zone_for_flags (fl q) = zone_for_flags (fl p)"
  using assms unfolding tiles_def by blast+

lemma tilesI:
  assumes "unat t \<le> 2 ^ 20" "tiled B" "\<And>p k. (p, k) \<in> B \<Longrightarrow> k \<le> PMM_MAX_ORDER \<and> unat p + 2 ^ unat k \<le> unat t"
    "\<And>p k q. (p, k) \<in> B \<Longrightarrow> unat q \<in> span (p, k) \<Longrightarrow> fl q AND PMM_FLAG_KERNEL = 0 \<and> zone_for_flags (fl q) = zone_for_flags (fl p)"
  shows "tiles t fl B"
  using assms unfolding tiles_def by (intro conjI allI impI) blast+

lemma headsD:
  assumes "heads fl od Fb U W"
  shows "(p, k) \<in> Fb \<Longrightarrow> fl p AND PMM_FLAG_USED = 0" "(p, k) \<in> Fb \<Longrightarrow> od p = k"
    "(p, k) \<in> U \<Longrightarrow> fl p AND PMM_FLAG_USED \<noteq> 0"
    "(p, k) \<in> W \<Longrightarrow> fl p AND PMM_FLAG_USED \<noteq> 0 \<or> od p = 0" "(p, k) \<in> W \<Longrightarrow> (p, k) \<notin> Fb" "(p, k) \<in> W \<Longrightarrow> (p, k) \<notin> U"
  using assms unfolding heads_def by blast+

lemma headsI:
  assumes "\<And>p k. (p, k) \<in> Fb \<Longrightarrow> fl p AND PMM_FLAG_USED = 0" "\<And>p k. (p, k) \<in> Fb \<Longrightarrow> od p = k"
    "\<And>p k. (p, k) \<in> U \<Longrightarrow> fl p AND PMM_FLAG_USED \<noteq> 0"
    "\<And>p k. (p, k) \<in> W \<Longrightarrow> fl p AND PMM_FLAG_USED \<noteq> 0 \<or> od p = 0" "\<And>p k. (p, k) \<in> W \<Longrightarrow> (p, k) \<notin> Fb"
    "\<And>p k. (p, k) \<in> W \<Longrightarrow> (p, k) \<notin> U"
  shows "heads fl od Fb U W"
  using assms unfolding heads_def by (intro conjI allI impI) blast+

lemma meta_okD:
  assumes "meta_ok t fl od Fb U W"
  shows "tiles t fl (Fb \<union> U \<union> W)" "heads fl od Fb U W"
    "q < t \<Longrightarrow> fl q AND PMM_FLAG_USED = 0 \<Longrightarrow> (\<exists>k. (q, k) \<in> Fb \<union> W) \<or> stale od (Fb \<union> U \<union> W) q"
  using assms unfolding meta_ok_def by blast+

lemma tiles_flags:
  assumes "tiles t fl B" "\<And>q. fl' q AND PMM_FLAG_KERNEL = fl q AND PMM_FLAG_KERNEL \<and> zone_for_flags (fl' q) = zone_for_flags (fl q)"
  shows "tiles t fl' B"
proof -
  have eq: "fl' q AND PMM_FLAG_KERNEL = fl q AND PMM_FLAG_KERNEL" "zone_for_flags (fl' q) = zone_for_flags (fl q)" for q
    using assms(2) by blast+
  show ?thesis using assms(1) unfolding tiles_def eq .
qed

definition clear_used :: "u32 \<Rightarrow> u32" where
  "clear_used x = (x OR PMM_FLAG_FREE) AND NOT PMM_FLAG_USED"

definition set_used :: "u32 \<Rightarrow> u32" where
  "set_used x = (x OR PMM_FLAG_USED) AND NOT PMM_FLAG_FREE"

lemma page_flag_bits [simp]:
  "clear_used x AND PMM_FLAG_USED = 0" "set_used x AND PMM_FLAG_USED = 1"
  "clear_used x AND PMM_FLAG_KERNEL = x AND PMM_FLAG_KERNEL" "set_used x AND PMM_FLAG_KERNEL = x AND PMM_FLAG_KERNEL"
  "zone_for_flags (clear_used x) = zone_for_flags x" "zone_for_flags (set_used x) = zone_for_flags x"
proof -
  have 2: "NOT 1 AND 1 = (0 :: u32)" "NOT 1 AND 2 = (2 :: u32)" "NOT 1 AND 4 = (4 :: u32)" "(1 :: u32) AND 2 = 0" "(1 :: u32) AND 4 = 0" by simp_all
  show "clear_used x AND PMM_FLAG_USED = 0" "set_used x AND PMM_FLAG_USED = 1"
    "clear_used x AND PMM_FLAG_KERNEL = x AND PMM_FLAG_KERNEL" "set_used x AND PMM_FLAG_KERNEL = x AND PMM_FLAG_KERNEL"
    using 2 by (simp_all add: clear_used_def set_used_def and.assoc bit.conj_disj_distrib2)
  have "clear_used x AND PMM_FLAG_DMA = x AND PMM_FLAG_DMA" "set_used x AND PMM_FLAG_DMA = x AND PMM_FLAG_DMA"
    using 2 by (simp_all add: clear_used_def set_used_def and.assoc bit.conj_disj_distrib2)
  then show "zone_for_flags (clear_used x) = zone_for_flags x" "zone_for_flags (set_used x) = zone_for_flags x"
    by (simp_all add: zone_for_flags_def)
qed

lemma order_simps:
  "k < PMM_MAX_ORDER \<Longrightarrow> unat (k + 1) = Suc (unat k)" "k \<le> PMM_MAX_ORDER \<Longrightarrow> unat k \<le> 11"
  by (simp_all add: word_nat unat_add_no_overflow)

lemma span_merge:
  assumes "k < PMM_MAX_ORDER" "unat q = unat p + 2 ^ unat k"
  shows "span (p, k + 1) = span (p, k) \<union> span (q, k)" "span (p, k) \<inter> span (q, k) = {}"
  using assms by (auto simp: span_def order_simps)

text \<open>A page whose descriptor says that it is the free buddy of a block in work is the head of a free block.\<close>

lemma stale_buddy:
  assumes "odd (unat q) \<or> even (unat p)" "unat q \<in> span (p, k)" "q \<noteq> p" "unat q < 2 ^ 31"
  shows "unat (q XOR 1) \<in> span (p, k)" "k \<noteq> 0"
proof -
  have ne: "unat q \<noteq> unat p" using assms(3) by (simp add: word_unat_eq_iff)
  then show "k \<noteq> 0" using assms(2) by (auto simp: span_def)
  then obtain n where n: "unat k = Suc n" by (metis not0_implies_Suc unat_eq_zero)
  have x: "unat (q XOR 1) = (if bit q 0 then unat q - 1 else unat q + 1)" using xor_pow2(1) [OF assms(4), of 0] by simp
  have "bit q 0 \<longleftrightarrow> odd (unat q)" by (simp add: bit_unsigned_iff flip: bit_0)
  moreover have "unat q + 1 < unat p + 2 ^ unat k" if "even (unat q)" "even (unat p)"
  proof -
    have "even (unat p + 2 ^ unat k)" using that(2) n by simp
    then have "unat q + 1 \<noteq> unat p + 2 ^ unat k" using that(1) by (metis even_plus_one_iff)
    then show ?thesis using assms(2) by (simp add: span_def)
  qed
  ultimately show "unat (q XOR 1) \<in> span (p, k)" using x ne assms(1,2) by (auto simp: span_def)
qed

lemma buddy_is_free:
  assumes ok: "meta_ok t fl od Fb U {(p, k)}" and b: "b = p XOR push_bit (unat k) 1" "b < t"
    and free: "fl b AND PMM_FLAG_USED = 0" "od b = k" and k: "k < PMM_MAX_ORDER"
  shows "(b, k) \<in> Fb"
proof -
  note d = tilesD [OF meta_okD(1) [OF ok]]
  have p: "(p, k) \<in> Fb \<union> U \<union> {(p, k)}" by simp
  have lt: "unat p < 2 ^ 31" "unat b < 2 ^ 31" using d(1) d(4) [OF p] b(2) by (simp_all add: word_less_nat_alt)
  have "bit b (unat k) \<noteq> bit p (unat k)" using b(1) k by (simp add: bit_simps word_less_nat_alt)
  then have ne: "b \<noteq> p" by auto
  consider j where "(b, j) \<in> Fb" | "stale od (Fb \<union> U \<union> {(p, k)}) b" using meta_okD(3) [OF ok b(2) free(1)] ne by blast
  then show ?thesis
  proof cases
    case 1
    then show ?thesis using headsD(2) [OF meta_okD(2) [OF ok]] free(2) by blast
  next
    case 2
    then obtain r j where r: "(r, j) \<in> Fb \<union> U \<union> {(p, k)}" "unat b \<in> span (r, j)" "b \<noteq> r" "odd (unat b) \<or> even (unat r)" "k = 0"
      using free(2) unfolding stale_def by metis
    have "unat r < 2 ^ 31" using d(1) d(4) [OF r(1)] by simp
    then have "unat p \<in> span (r, j)" "j \<noteq> 0"
      using stale_buddy [OF r(4,2,3) lt(2)] b(1) r(5) by (simp_all add: xor.assoc)
    then have "(r, j) = (p, k)" using tiledD [OF d(2) r(1) p] by simp
    then show ?thesis using r(5) \<open>j \<noteq> 0\<close> by simp
  qed
qed

lemma stale_upd: "q \<noteq> p \<Longrightarrow> stale (od(p := v)) B q = stale od B q"
  by (simp add: stale_def)

lemma meta_start:
  assumes "meta_ok t fl od Fb U {}" "(p, k) \<in> U"
  shows "meta_ok t fl od Fb (U - {(p, k)}) {(p, k)}"
proof -
  have B: "Fb \<union> (U - {(p, k)}) \<union> {(p, k)} = Fb \<union> U \<union> {}" using assms(2) by auto
  have "heads fl od Fb (U - {(p, k)}) {(p, k)}" using meta_okD(2) [OF assms(1)] assms(2) unfolding heads_def by blast
  then show ?thesis using assms(1) unfolding meta_ok_def B by blast
qed

lemma meta_add:
  assumes ok: "meta_ok t fl od Fb U {}" and k: "k \<le> PMM_MAX_ORDER" "unat p + 2 ^ unat k \<le> unat t"
    and new: "span (p, k) \<inter> (\<Union>b \<in> Fb \<union> U. span b) = {}"
    and fl: "\<And>q. unat q \<in> span (p, k) \<Longrightarrow> fl q AND PMM_FLAG_KERNEL = 0 \<and> zone_for_flags (fl q) = zone_for_flags (fl p)"
  shows "meta_ok t fl od Fb U {(p, k)}" "fl p AND PMM_FLAG_USED \<noteq> 0"
proof -
  note t = tilesD [OF meta_okD(1) [OF ok]]
  have "(p, k) \<notin> Fb \<union> U" using new head_in_span [of p k] by blast
  have "p < t" unfolding word_less_nat_alt using k(2) zero_less_power [of "2::nat" "unat k"] by linarith
  show used: "fl p AND PMM_FLAG_USED \<noteq> 0"
  proof
    assume "fl p AND PMM_FLAG_USED = 0"
    then obtain b where "b \<in> Fb \<union> U" "unat p \<in> span b"
      using meta_okD(3) [OF ok \<open>p < t\<close>] unfolding stale_def by fastforce
    then show False using new head_in_span [of p k] by blast
  qed
  have "tiles t fl (Fb \<union> U \<union> {(p, k)})"
  proof (rule tilesI [OF t(1)])
    show "tiled (Fb \<union> U \<union> {(p, k)})" using t(2) new unfolding tiled_def by blast
    fix r j assume "(r, j) \<in> Fb \<union> U \<union> {(p, k)}"
    then consider "r = p" "j = k" | "(r, j) \<in> Fb \<union> U \<union> {}" by blast
    note cases = this
    show "j \<le> PMM_MAX_ORDER \<and> unat r + 2 ^ unat j \<le> unat t" using cases t(3,4) k by cases blast+
    show "fl q AND PMM_FLAG_KERNEL = 0 \<and> zone_for_flags (fl q) = zone_for_flags (fl r)" if "unat q \<in> span (r, j)" for q
      using cases t(5,6) [OF _ that] fl that by cases blast+
  qed
  moreover have "heads fl od Fb U {(p, k)}"
    using meta_okD(2) [OF ok] used \<open>(p, k) \<notin> Fb \<union> U\<close> unfolding heads_def by blast
  moreover have "(\<exists>j. (q, j) \<in> Fb \<union> {(p, k)}) \<or> stale od (Fb \<union> U \<union> {(p, k)}) q" if "q < t" "fl q AND PMM_FLAG_USED = 0" for q
    using meta_okD(3) [OF ok that] unfolding stale_def by blast
  ultimately show "meta_ok t fl od Fb U {(p, k)}" unfolding meta_ok_def by blast
qed

lemma meta_finish_alloc:
  assumes ok: "meta_ok t fl od Fb U {(p, k)}" and used: "fl p AND PMM_FLAG_USED \<noteq> 0"
  shows "meta_ok t fl (od(p := j)) Fb (insert (p, k) U) {}"
proof -
  have B: "Fb \<union> insert (p, k) U \<union> {} = Fb \<union> U \<union> {(p, k)}" by auto
  have "heads fl (od(p := j)) Fb (insert (p, k) U) {}" using meta_okD(2) [OF ok] used unfolding heads_def by fastforce
  moreover have "(\<exists>k. (q, k) \<in> Fb \<union> {}) \<or> stale (od(p := j)) (Fb \<union> U \<union> {(p, k)}) q" if "q < t" "fl q AND PMM_FLAG_USED = 0" for q
  proof -
    have "q \<noteq> p" using that(2) used by auto
    then show ?thesis using meta_okD(3) [OF ok that] by (auto simp: stale_upd)
  qed
  ultimately show ?thesis using meta_okD(1) [OF ok] unfolding meta_ok_def B by blast
qed

lemma meta_finish_free:
  assumes ok: "meta_ok t fl od Fb U {(p, k)}"
  shows "meta_ok t (fl(p := clear_used (fl p))) (od(p := k)) (insert (p, k) Fb) U {}"
proof -
  have B: "insert (p, k) Fb \<union> U \<union> {} = Fb \<union> U \<union> {(p, k)}" by auto
  note t = meta_okD(1) [OF ok] and h = headsD [OF meta_okD(2) [OF ok]]
  have other: "(p, j) \<notin> Fb" "(p, j) \<notin> U" for j
    using tiled_head [OF tilesD(2) [OF t], of p k j] h(5,6) by auto
  have "heads (fl(p := clear_used (fl p))) (od(p := k)) (insert (p, k) Fb) U {}"
    using h(1-3) other by (intro headsI) (auto split: if_splits)
  moreover have "(\<exists>j. (q, j) \<in> insert (p, k) Fb \<union> {}) \<or> stale (od(p := k)) (Fb \<union> U \<union> {(p, k)}) q"
    if "q < t" "(fl(p := clear_used (fl p))) q AND PMM_FLAG_USED = 0" for q
    using meta_okD(3) [OF ok that(1)] that(2) by (cases "q = p") (auto simp: stale_upd)
  moreover have "tiles t (fl(p := clear_used (fl p))) (Fb \<union> U \<union> {(p, k)})" by (rule tiles_flags [OF t]) simp
  ultimately show ?thesis unfolding meta_ok_def B by blast
qed

lemma meta_pop:
  assumes ok: "meta_ok t fl od Fb U {}" and p: "(p, k) \<in> Fb"
  shows "meta_ok t (fl(p := set_used (fl p))) (od(p := 0)) (Fb - {(p, k)}) U {(p, k)}"
proof -
  have B: "Fb - {(p, k)} \<union> U \<union> {(p, k)} = Fb \<union> U \<union> {}" using p by auto
  note t = meta_okD(1) [OF ok] and h = headsD [OF meta_okD(2) [OF ok]]
  have other: "(p, j) \<in> Fb \<Longrightarrow> j = k" "(p, j) \<notin> U" for j
    using tiled_head [OF tilesD(2) [OF t], of p k j] p h(1) h(3) [of p] by auto
  have "heads (fl(p := set_used (fl p))) (od(p := 0)) (Fb - {(p, k)}) U {(p, k)}"
    using h(1-3) other by (intro headsI) (auto split: if_splits)
  moreover have "(\<exists>j. (q, j) \<in> Fb - {(p, k)} \<union> {(p, k)}) \<or> stale (od(p := 0)) (Fb \<union> U \<union> {}) q"
    if "q < t" "(fl(p := set_used (fl p))) q AND PMM_FLAG_USED = 0" for q
    using meta_okD(3) [OF ok that(1)] that(2) by (cases "q = p") (auto simp: stale_upd)
  moreover have "tiles t (fl(p := set_used (fl p))) (Fb \<union> U \<union> {})" by (rule tiles_flags [OF t]) simp
  ultimately show ?thesis unfolding meta_ok_def B by blast
qed

lemma span_other: "unat q \<in> span (p, 0) \<Longrightarrow> q = p"
  by (simp add: span_def word_unat_eq_iff)

lemma even_pow2: "unat hi = unat lo + 2 ^ unat k \<Longrightarrow> k \<noteq> 0 \<Longrightarrow> even (unat hi) \<longleftrightarrow> even (unat lo)"
  by (simp add: unat_gt_0)

text \<open>Two halves of a block: a page that is stale in one of them is stale in the block, and conversely.\<close>

lemma stale_join:
  assumes "unat hi = unat lo + 2 ^ unat k" "k < PMM_MAX_ORDER" "unat q \<in> span (r, k)" "q \<noteq> r" "odd (unat q) \<or> even (unat r)" "r = lo \<or> r = hi"
  shows "unat q \<in> span (lo, k + 1)" "q \<noteq> lo" "odd (unat q) \<or> even (unat lo)"
proof -
  have "k \<noteq> 0" using span_other assms(3,4) by blast
  then show "odd (unat q) \<or> even (unat lo)" using even_pow2 [OF assms(1)] assms(5,6) by auto
  show "unat q \<in> span (lo, k + 1)" using span_merge(1) [OF assms(2,1)] assms(3,6) by auto
  show "q \<noteq> lo" using span_merge(2) [OF assms(2,1)] assms(3,4,6) by (auto simp: disjoint_iff)
qed

lemma stale_cut:
  assumes "unat hi = unat lo + 2 ^ unat k" "k < PMM_MAX_ORDER" "unat q \<in> span (lo, k + 1)" "q \<noteq> lo" "q \<noteq> hi" "odd (unat q) \<or> even (unat lo)"
  obtains r where "r = lo \<or> r = hi" "unat q \<in> span (r, k)" "q \<noteq> r" "odd (unat q) \<or> even (unat r)"
proof (cases "unat q \<in> span (lo, k)")
  case True
  then show thesis using that [of lo] assms(4,6) by simp
next
  case False
  then have "unat q \<in> span (hi, k)" using assms(3) span_merge(1) [OF assms(2,1)] by auto
  moreover have "k \<noteq> 0" using span_other [of q hi] assms(5) calculation by blast
  ultimately show thesis using that [of hi] assms(5,6) even_pow2 [OF assms(1)] by simp
qed

lemma meta_merge:
  assumes ok: "meta_ok t fl od Fb U {(p, k)}" and b: "(b, k) \<in> Fb" and k: "k < PMM_MAX_ORDER" and z: "zone_for_flags (fl b) = zone_for_flags (fl p)"
    and half: "p = lo \<and> b = hi \<or> p = hi \<and> b = lo" "unat hi = unat lo + 2 ^ unat k" "k = 0 \<longrightarrow> even (unat lo)"
  shows "meta_ok t fl (od(b := 0)) (Fb - {(b, k)}) U {(lo, k + 1)}"
proof -
  let ?B = "Fb \<union> U \<union> {(p, k)}" and ?C = "Fb - {(b, k)} \<union> U \<union> {(lo, k + 1)}"
  note t = tilesD [OF meta_okD(1) [OF ok]] and h = headsD [OF meta_okD(2) [OF ok]]
  have p: "(p, k) \<in> ?B" and bB: "(b, k) \<in> ?B" using b by auto
  have lo: "(lo, k) \<in> ?B" and hi: "(hi, k) \<in> ?B" using p bB half(1) by auto
  have U: "(p, k) \<notin> Fb" "(p, k) \<notin> U" "(b, k) \<notin> U" "p \<noteq> b" using h(5,6) h(1) [OF b] h(3) [of b] b by auto
  have sp: "span (lo, k + 1) = span (p, k) \<union> span (b, k)" using span_merge(1) [OF k half(2)] half(1) by auto
  have C: "?C \<subseteq> insert (lo, k + 1) (?B - {(p, k), (b, k)})" using U by auto
  have tiles: "tiles t fl ?C"
  proof (rule tilesI [OF t(1) tiled_subset [OF tiled_merge [OF t(2) p bB sp] C]])
    fix r j assume "(r, j) \<in> ?C"
    then consider "(r, j) = (lo, k + 1)" | "(r, j) \<in> ?B" by auto
    note cases = this
    show "j \<le> PMM_MAX_ORDER \<and> unat r + 2 ^ unat j \<le> unat t"
      using cases t(3,4) t(4) [OF hi] half(2) order_simps(1) [OF k] k by cases (auto simp: word_le_nat_alt word_less_nat_alt)
    show "fl q AND PMM_FLAG_KERNEL = 0 \<and> zone_for_flags (fl q) = zone_for_flags (fl r)" if "unat q \<in> span (r, j)" for q
      using cases that sp t(5,6) [of _ _ q] p bB z half(1) by cases (auto, metis+)
  qed
  have head: "(b, j) \<in> Fb \<Longrightarrow> j = k" "(b, j) \<notin> U" "(lo, k + 1) \<notin> Fb \<union> U" for j
    using tiled_head [OF t(2) bB] tiled_head [OF t(2) lo, of "k + 1"] U(3) by auto
  have "heads fl (od(b := 0)) (Fb - {(b, k)}) U {(lo, k + 1)}"
    using h(1-4) head half(1) by (intro headsI) (auto split: if_splits)
  moreover have "(\<exists>j. (q, j) \<in> Fb - {(b, k)} \<union> {(lo, k + 1)}) \<or> stale (od(b := 0)) ?C q"
    if q: "q < t" "fl q AND PMM_FLAG_USED = 0" for q
  proof -
    have st: "stale (od(b := 0)) ?C q" if "od q = 0 \<or> q = b" "unat q \<in> span (lo, k + 1)" "q \<noteq> lo" "odd (unat q) \<or> even (unat lo)"
      using that unfolding stale_def by auto
    have hi_st: "stale (od(b := 0)) ?C q" if "q = hi" "od q = 0 \<or> q = b"
    proof (rule st [OF that(2)])
      show "unat q \<in> span (lo, k + 1)" using span_merge(1) [OF k half(2)] that(1) by simp
      show "q \<noteq> lo" using half(2) that(1) by auto
      show "odd (unat q) \<or> even (unat lo)" using half(3) even_pow2 [OF half(2)] that(1) by blast
    qed
    consider j where "(q, j) \<in> Fb" "q \<noteq> b" | "q = b" | "q = p" | r j where "od q = 0" "(r, j) \<in> ?B" "unat q \<in> span (r, j)" "q \<noteq> r" "odd (unat q) \<or> even (unat r)"
      using meta_okD(3) [OF ok q] unfolding stale_def by blast
    then show ?thesis
    proof cases
      case (4 r j)
      show ?thesis
      proof (cases "(r, j) \<in> ?C")
        case True
        then show ?thesis using 4 unfolding stale_def by auto
      next
        case False
        then have "j = k" "r = lo \<or> r = hi" using 4(2) half(1) by auto
        then show ?thesis using stale_join [OF half(2) k _ 4(4,5)] 4(1,3) st by blast
      qed
    qed (use half(1) hi_st h(4) q(2) in auto)
  qed
  ultimately show ?thesis using tiles unfolding meta_ok_def by blast
qed

lemma meta_split:
  assumes ok: "meta_ok t fl od Fb U {(p, k + 1)}" and k: "k < PMM_MAX_ORDER" and hi: "unat hi = unat p + 2 ^ unat k"
  shows "meta_ok t (fl(hi := clear_used (fl hi))) (od(hi := k)) (insert (hi, k) Fb) U {(p, k)}"
proof -
  let ?B = "Fb \<union> U \<union> {(p, k + 1)}" and ?C = "insert (hi, k) Fb \<union> U \<union> {(p, k)}" and ?fl = "fl(hi := clear_used (fl hi))"
  note t = tilesD [OF meta_okD(1) [OF ok]] and h = headsD [OF meta_okD(2) [OF ok]]
  have p: "(p, k + 1) \<in> ?B" by auto
  have pU: "(p, k + 1) \<notin> Fb" "(p, k + 1) \<notin> U" "p \<noteq> hi" using h(5,6) hi by auto
  note sp = span_merge [OF k hi]
  have C: "?C \<subseteq> insert (p, k) (insert (hi, k) (?B - {(p, k + 1)}))" using pU by auto
  have "tiles t fl ?C"
  proof (rule tilesI [OF t(1) tiled_subset [OF tiled_split [OF t(2) p sp] C]])
    fix r j assume "(r, j) \<in> ?C"
    then consider "(r, j) = (p, k)" | "(r, j) = (hi, k)" | "(r, j) \<in> ?B" by auto
    note cases = this
    show "j \<le> PMM_MAX_ORDER \<and> unat r + 2 ^ unat j \<le> unat t"
      using cases t(3,4) t(4) [OF p] hi order_simps(1) [OF k] k by cases auto
    show "fl q AND PMM_FLAG_KERNEL = 0 \<and> zone_for_flags (fl q) = zone_for_flags (fl r)" if "unat q \<in> span (r, j)" for q
      using cases that sp(1) t(5,6) [OF p, of q] t(5,6) [of r j q] t(6) [OF p, of hi] by cases auto
  qed
  then have "tiles t ?fl ?C" by (rule tiles_flags) simp
  moreover have "(hi, j) \<notin> Fb" "(hi, j) \<notin> U" "(p, k) \<notin> insert (hi, k) Fb \<union> U" for j
  proof -
    have "unat hi \<in> span (p, k + 1)" using sp(1) by simp
    then show "(hi, j) \<notin> Fb" "(hi, j) \<notin> U" using tiledD [OF t(2) p, of "(hi, j)" "unat hi"] pU(3) by auto
    show "(p, k) \<notin> insert (hi, k) Fb \<union> U" using tiled_head [OF t(2) p, of k] pU(3) by auto
  qed
  then have "heads ?fl (od(hi := k)) (insert (hi, k) Fb) U {(p, k)}"
    using h(1-3) h(4) [of p] pU(3) by (intro headsI) (auto split: if_splits)
  moreover have "(\<exists>j. (q, j) \<in> insert (hi, k) Fb \<union> {(p, k)}) \<or> stale (od(hi := k)) ?C q"
    if q: "q < t" "?fl q AND PMM_FLAG_USED = 0" for q
  proof (cases "q = hi")
    case False
    then consider j where "(q, j) \<in> Fb" | "q = p" |
      r j where "od q = 0" "(r, j) \<in> ?B" "unat q \<in> span (r, j)" "q \<noteq> r" "odd (unat q) \<or> even (unat r)"
      using meta_okD(3) [OF ok q(1)] q(2) unfolding stale_def by auto
    then show ?thesis
    proof cases
      case (3 r j)
      have "\<exists>r j. (r, j) \<in> ?C \<and> unat q \<in> span (r, j) \<and> q \<noteq> r \<and> (odd (unat q) \<or> even (unat r))"
      proof (cases "(r, j) = (p, k + 1)")
        case True
        then obtain r' where "r' = p \<or> r' = hi" "unat q \<in> span (r', k)" "q \<noteq> r'" "odd (unat q) \<or> even (unat r')"
          using stale_cut [OF hi k, of q] 3 False by blast
        then show ?thesis by blast
      qed (use 3 in auto)
      then show ?thesis using 3(1) False unfolding stale_def by auto
    qed auto
  qed auto
  ultimately show ?thesis unfolding meta_ok_def by blast
qed

section \<open>The invariant\<close>

definition free_blocks :: "lists \<Rightarrow> block set" where
  "free_blocks F = {(p, k). \<exists>z. p \<in> set (F z k)}"

definition frames :: "block set \<Rightarrow> nat set" where
  "frames B = (\<Union>b \<in> B. span b)"

abbreviation flags_of :: "pmm \<Rightarrow> u32 \<Rightarrow> u32" where
  "flags_of s q \<equiv> pg_flags (mem_map s q)"

abbreviation order_of :: "pmm \<Rightarrow> u32 \<Rightarrow> u32" where
  "order_of s q \<equiv> pg_order (mem_map s q)"

definition buddy_ok :: "pmm \<Rightarrow> lists \<Rightarrow> block set \<Rightarrow> block set \<Rightarrow> bool" where
  "buddy_ok s F U W \<longleftrightarrow> lists_ok s F \<and> meta_ok (total_pages s) (flags_of s) (order_of s) (free_blocks F) U W \<and>
     (\<forall>z k. \<forall>p \<in> set (F z k). zone_for_flags (flags_of s p) = z)"

lemma buddy_okD:
  assumes "buddy_ok s F U W"
  shows "lists_ok s F" "meta_ok (total_pages s) (flags_of s) (order_of s) (free_blocks F) U W"
    "p \<in> set (F z k) \<Longrightarrow> zone_for_flags (flags_of s p) = z"
  using assms unfolding buddy_ok_def by blast+

lemma buddy_okI:
  assumes "lists_ok s F" "meta_ok (total_pages s) (flags_of s) (order_of s) (free_blocks F) U W"
    "\<And>p z k. p \<in> set (F z k) \<Longrightarrow> zone_for_flags (flags_of s p) = z"
  shows "buddy_ok s F U W"
  using assms unfolding buddy_ok_def by blast

lemma free_blocks_add: "free_blocks (set_list F z k (p # F z k)) = insert (p, k) (free_blocks F)"
  by (auto simp: free_blocks_def split: if_splits)

lemma free_blocks_remove:
  assumes "lists_ok s F" "p \<in> set (F z k)"
  shows "free_blocks (set_list F z k (remove1 p (F z k))) = free_blocks F - {(p, k)}"
proof -
  have rem: "set (remove1 p (F z k)) = set (F z k) - {p}" using lists_okD(3) [OF assms(1)] by (rule set_remove1_eq)
  have "q \<in> set (set_list F z k (remove1 p (F z k)) z' j) \<longleftrightarrow> q \<in> set (F z' j) \<and> (q, j) \<noteq> (p, k)" for q z' j
  proof (cases "z' = z \<and> j = k")
    case True
    then show ?thesis using rem by simp
  next
    case False
    have "(q, j) \<noteq> (p, k)" if "q \<in> set (F z' j)" using lists_okD(7) [OF assms] that False by blast
    then show ?thesis using False by auto
  qed
  then show ?thesis by (auto simp: free_blocks_def)
qed

lemma same_metaD: "same_meta m m' \<Longrightarrow> pg_flags (m' q) = pg_flags (m q)" "same_meta m m' \<Longrightarrow> pg_order (m' q) = pg_order (m q)"
  by (simp_all add: same_meta_def)

text \<open>Descriptors outside the lists may be rewritten.\<close>

lemma lists_ok_put:
  assumes "lists_ok s F" "\<And>z k. p \<in> set (F z k) \<Longrightarrow> pg_prev q = pg_prev (mem_map s p) \<and> pg_next q = pg_next (mem_map s p)"
  shows "lists_ok (s\<lparr>mem_map := (mem_map s)(p := q)\<rparr>) F"
proof -
  have "page_chain ((mem_map s)(p := q)) h (F z k) = page_chain (mem_map s) h (F z k)" for h z k
    by (rule page_chain_cong) (use assms(2) in auto)
  then show ?thesis using assms(1) unfolding lists_ok_def by simp
qed

definition kept :: "pmm \<Rightarrow> pmm \<Rightarrow> bool" where
  "kept s s' \<longleftrightarrow> total_pages s' = total_pages s \<and>
     (\<forall>q. flags_of s' q AND PMM_FLAG_KERNEL = flags_of s q AND PMM_FLAG_KERNEL \<and> zone_for_flags (flags_of s' q) = zone_for_flags (flags_of s q))"

lemma kept_refl [simp]: "kept s s"
  by (simp add: kept_def)

lemma kept_trans: "kept s s' \<Longrightarrow> kept s' s'' \<Longrightarrow> kept s s''"
  by (simp add: kept_def)

lemma frames_simps [simp]: "frames (insert b B) = span b \<union> frames B" "frames {} = {}" "frames (A \<union> B) = frames A \<union> frames B"
  by (auto simp: frames_def)

lemma frames_remove: "tiled B \<Longrightarrow> b \<in> B \<Longrightarrow> frames (B - {b}) = frames B - span b"
  by (auto simp: frames_def tiled_def)

section \<open>Freeing\<close>

lemma buddy_halves:
  fixes p b k :: u32
  assumes "b = p XOR push_bit (unat k) 1" "unat p < 2 ^ 31" "unat k < 31"
  obtains lo hi where "p AND b = lo" "p = lo \<and> b = hi \<or> p = hi \<and> b = lo" "unat hi = unat lo + 2 ^ unat k" "k = 0 \<longrightarrow> even (unat lo)"
proof (cases "bit p (unat k)")
  case True
  then have "unat p = unat b + 2 ^ unat k" using xor_pow2 [OF assms(2,3)] assms(1) by simp
  then show thesis using that [of b p] and_xor_pow2 [of p "unat k"] True assms(1) bit0_odd [of p] by (cases "k = 0") simp_all
next
  case False
  then have "unat b = unat p + 2 ^ unat k" using xor_pow2 [OF assms(2,3)] assms(1) by simp
  then show thesis using that [of p b] and_xor_pow2 [of p "unat k"] False assms(1) bit0_odd [of p] by (cases "k = 0") simp_all
qed

lemma work_bounds:
  assumes "meta_ok t fl od Fb U {(p, k)}"
  shows "unat p < 2 ^ 31" "k \<le> PMM_MAX_ORDER" "p < t" "fl p AND PMM_FLAG_KERNEL = 0"
proof -
  note t = tilesD [OF meta_okD(1) [OF assms]]
  have "(p, k) \<in> Fb \<union> U \<union> {(p, k)}" by simp
  note b = t(1) t(3) [OF this] t(4) [OF this] t(5) [OF this head_in_span]
  then show "k \<le> PMM_MAX_ORDER" "fl p AND PMM_FLAG_KERNEL = 0" by simp_all
  have "0 < (2::nat) ^ unat k" by simp
  then show "p < t" unfolding word_less_nat_alt using b(3) by linarith
  show "unat p < 2 ^ 31" using b(1,3) by simp
qed

text \<open>One round of the merge.\<close>

lemma merge_round:
  assumes ok: "buddy_ok s F U {(p, k)}" and z: "zone_for_flags (flags_of s p) = z" "z < PMM_ZONE_COUNT"
    and b: "b = p XOR push_bit (unat k) 1" "k < PMM_MAX_ORDER" "b < total_pages s" "flags_of s b AND PMM_FLAG_USED = 0"
      "order_of s b = k" "zone_for_flags (flags_of s b) = z"
  obtains s' F' where "merge_block s z p k = merge_block s' z (p AND b) (k + 1)" "buddy_ok s' F' U {(p AND b, k + 1)}"
    "kept s s'" "cpu_used_pages s' = cpu_used_pages s" "zone_for_flags (flags_of s' (p AND b)) = z"
    "frames (free_blocks F' \<union> {(p AND b, k + 1)}) = frames (free_blocks F \<union> {(p, k)})"
proof -
  note m = buddy_okD(2) [OF ok] and l = buddy_okD(1) [OF ok]
  have zk: "k \<le> PMM_MAX_ORDER" using b(2) by simp
  have free: "(b, k) \<in> free_blocks F" by (rule buddy_is_free [OF m b(1,3-5,2)])
  then have mem: "b \<in> set (F z k)" using buddy_okD(3) [OF ok] b(6) by (auto simp: free_blocks_def)
  obtain s1 where s1: "free_area_remove s z k b = Some s1" "lists_ok s1 (set_list F z k (remove1 b (F z k)))"
    "same_meta (mem_map s) (mem_map s1)" "total_pages s1 = total_pages s" "cpu_used_pages s1 = cpu_used_pages s"
    by (rule area_remove_ok [OF l z(2) zk mem])
  let ?s = "s1\<lparr>mem_map := (mem_map s1)(b := mem_map s1 b\<lparr>pg_order := 0\<rparr>)\<rparr>" and ?F = "set_list F z k (remove1 b (F z k))"
  have fl: "flags_of ?s = flags_of s" "order_of ?s = (order_of s)(b := 0)" using s1(3) by (auto simp: same_meta_def)
  have "unat k < 31" using b(2) by (simp add: word_less_nat_alt)
  then obtain lo hi where half: "p AND b = lo" "p = lo \<and> b = hi \<or> p = hi \<and> b = lo" "unat hi = unat lo + 2 ^ unat k" "k = 0 \<longrightarrow> even (unat lo)"
    by (rule buddy_halves [OF b(1) work_bounds(1) [OF m]])
  show thesis
  proof (rule that [of ?s ?F])
    have "\<not> total_pages s \<le> b" using b(3) by simp
    then show "merge_block s z p k = merge_block ?s z (p AND b) (k + 1)"
      using b(2-6) s1(1,4) by (subst merge_block.simps) (simp add: Let_def get_page_def put_page_def del: push_bit_of_1 flip: b(1))
    have "meta_ok (total_pages s) (flags_of s) ((order_of s)(b := 0)) (free_blocks F - {(b, k)}) U {(lo, k + 1)}"
      by (rule meta_merge [OF m free b(2) _ half(2-4)]) (use b(6) z(1) in simp)
    then have meta: "meta_ok (total_pages ?s) (flags_of ?s) (order_of ?s) (free_blocks ?F) U {(p AND b, k + 1)}"
      unfolding fl free_blocks_remove [OF l mem] half(1) using s1(4) by simp
    show "buddy_ok ?s ?F U {(p AND b, k + 1)}"
    proof (rule buddy_okI [OF lists_ok_put [OF s1(2)] meta])
      show "zone_for_flags (flags_of ?s q) = z'" if "q \<in> set (?F z' k')" for q z' k'
        using that buddy_okD(3) [OF ok] fun_cong [OF fl(1), of q] by (auto split: if_splits dest: notin_set_remove1)
    qed simp
    show "kept s ?s" using s1(3,4) by (simp add: kept_def same_meta_def)
    have "zone_for_flags (flags_of s lo) = z" using half(2) z(1) b(6) by auto
    then show "zone_for_flags (flags_of ?s (p AND b)) = z" unfolding half(1) using fun_cong [OF fl(1), of lo] by simp
    have t: "tiled (free_blocks F \<union> U \<union> {(p, k)})" using m by (simp add: meta_ok_def tiles_def)
    have "frames (free_blocks F) = span (b, k) \<union> frames (free_blocks F - {(b, k)})" using free by (auto simp: frames_def)
    moreover have "span (lo, k + 1) = span (p, k) \<union> span (b, k)" using span_merge(1) [OF b(2) half(3)] half(2) by auto
    ultimately show "frames (free_blocks ?F \<union> {(p AND b, k + 1)}) = frames (free_blocks F \<union> {(p, k)})"
      unfolding free_blocks_remove [OF l mem] half(1) by auto
  qed (use s1(5) in simp)
qed

lemma merge_block_ok:
  assumes "buddy_ok s F U {(p, k)}" "zone_for_flags (flags_of s p) = z" "z < PMM_ZONE_COUNT"
  shows "\<exists>s' F' p' k'. merge_block s z p k = Some (s', p', k') \<and> buddy_ok s' F' U {(p', k')} \<and> kept s s' \<and>
    cpu_used_pages s' = cpu_used_pages s \<and> zone_for_flags (flags_of s' p') = z \<and>
    frames (free_blocks F' \<union> {(p', k')}) = frames (free_blocks F \<union> {(p, k)})"
  using assms
proof (induction "11 - unat k" arbitrary: s F p k rule: less_induct)
  case less
  define b where "b = p XOR push_bit (unat k) 1"
  show ?case
  proof (cases "k < PMM_MAX_ORDER \<and> b < total_pages s \<and> flags_of s b AND PMM_FLAG_USED = 0 \<and> order_of s b = k \<and>
      zone_for_flags (flags_of s b) = z")
    case False
    then have "merge_block s z p k = Some (s, p, k)"
      unfolding b_def by (subst merge_block.simps) (auto simp: Let_def get_page_def)
    then show ?thesis using less.prems by fastforce
  next
    case True
    obtain s1 F1 where 1: "merge_block s z p k = merge_block s1 z (p AND b) (k + 1)" "buddy_ok s1 F1 U {(p AND b, k + 1)}"
      "kept s s1" "cpu_used_pages s1 = cpu_used_pages s" "zone_for_flags (flags_of s1 (p AND b)) = z"
      "frames (free_blocks F1 \<union> {(p AND b, k + 1)}) = frames (free_blocks F \<union> {(p, k)})"
      by (rule merge_round [OF less.prems b_def]) (use True in blast)+
    have "unat k < 11" "unat (k + 1) = Suc (unat k)" using True order_simps(1) [of k] by (simp_all add: word_less_nat_alt)
    then have "11 - unat (k + 1) < 11 - unat k" by simp
    from less.hyps [OF this 1(2,5) less.prems(3)] show ?thesis unfolding 1 using kept_trans [OF 1(3)] by metis
  qed
qed

text \<open>The second half of \<open>free_pages_unlocked\<close>, which puts the merged block on its list.\<close>

lemma push_free:
  assumes ok: "buddy_ok s F U {(p, k)}" and z: "zone_for_flags (flags_of s p) = z" "z < PMM_ZONE_COUNT"
    and q: "pg_flags q = clear_used (flags_of s p)" "pg_order q = k"
  obtains s' F' where "put_page s p q \<bind> (\<lambda>s. free_area_push s z k p) = Some s'" "buddy_ok s' F' U {}" "kept s s'"
    "cpu_used_pages s' = cpu_used_pages s" "frames (free_blocks F') = frames (free_blocks F \<union> {(p, k)})"
proof -
  note m = buddy_okD(2) [OF ok] and l = buddy_okD(1) [OF ok]
  note w = work_bounds [OF m]
  let ?s = "s\<lparr>mem_map := (mem_map s)(p := q)\<rparr>" and ?F = "set_list F z k (p # F z k)"
  have new: "p \<notin> set (F z' k')" for z' k'
  proof
    assume "p \<in> set (F z' k')"
    then have "(p, k') \<in> free_blocks F" by (auto simp: free_blocks_def)
    then show False
      using tiled_head [OF tilesD(2) [OF meta_okD(1) [OF m]], of p k k'] headsD(5) [OF meta_okD(2) [OF m], of p k] by simp
  qed
  have "lists_ok ?s F" using new by (intro lists_ok_put [OF l]) blast
  then obtain s' where s': "free_area_push ?s z k p = Some s'" "lists_ok s' ?F"
    "same_meta (mem_map ?s) (mem_map s')" "total_pages s' = total_pages ?s" "cpu_used_pages s' = cpu_used_pages ?s"
    by (rule area_push_ok [OF _ z(2) w(2)]) (use w(3) new in simp_all)
  have fl: "flags_of s' = (flags_of s)(p := clear_used (flags_of s p))" "order_of s' = (order_of s)(p := k)"
    using s'(3) q by (auto simp: same_meta_def)
  show thesis
  proof (rule that [of s' ?F])
    show "put_page s p q \<bind> (\<lambda>s. free_area_push s z k p) = Some s'" using w(3) s'(1) by (simp add: put_page_def)
    have "zone_for_flags (flags_of s' r) = z'" if "r \<in> set (?F z' k')" for r z' k'
      using that buddy_okD(3) [OF ok] z(1) fun_cong [OF fl(1), of r] by (auto split: if_splits)
    then show "buddy_ok s' ?F U {}"
      using meta_finish_free [OF m] s'(2,4) unfolding buddy_ok_def fl free_blocks_add by simp
    show "kept s s'" using s'(4) fun_cong [OF fl(1)] by (simp add: kept_def)
    show "frames (free_blocks ?F) = frames (free_blocks F \<union> {(p, k)})" unfolding free_blocks_add by auto
  qed (use s'(5) in simp)
qed

lemma zone_lt [simp]: "zone_for_flags x < PMM_ZONE_COUNT"
  by (simp add: zone_for_flags_def)

lemma free_work_ok:
  assumes ok: "buddy_ok s F U {(p, k)}" and used: "flags_of s p AND PMM_FLAG_USED \<noteq> 0" and addr: "addr div PAGE_SIZE = p"
  obtains s' F' where "free_pages_unlocked cpu s addr k = Some s'" "buddy_ok s' F' U {}" "kept s s'"
    "cpu_used_pages s' = cpu_used_pages (add_used cpu (- push_bit (unat k) 1) s)"
    "frames (free_blocks F') = frames (free_blocks F \<union> {(p, k)})"
proof -
  let ?s = "add_used cpu (- push_bit (unat k) 1) s" and ?z = "zone_for_flags (flags_of s p)"
  note w = work_bounds [OF buddy_okD(2) [OF ok]]
  have same: "buddy_ok ?s F U {(p, k)}" "flags_of ?s = flags_of s"
    using ok by (simp_all add: buddy_ok_def lists_ok_def add_used_def)
  obtain s1 F1 p1 k1 where 1: "merge_block ?s ?z p k = Some (s1, p1, k1)" "buddy_ok s1 F1 U {(p1, k1)}" "kept ?s s1"
    "cpu_used_pages s1 = cpu_used_pages ?s" "zone_for_flags (flags_of s1 p1) = ?z"
    "frames (free_blocks F1 \<union> {(p1, k1)}) = frames (free_blocks F \<union> {(p, k)})"
    using merge_block_ok [OF same(1) fun_cong [OF same(2), THEN arg_cong [of _ _ zone_for_flags]] zone_lt] by blast
  let ?q = "mem_map s1 p1"
  let ?q' = "?q\<lparr>pg_order := k1, pg_freelist := 0, pg_objects := 0, pg_prev := None, pg_next := None,
                   pg_flags := (pg_flags ?q OR PMM_FLAG_FREE) AND NOT PMM_FLAG_USED, pg_ref_count := 0\<rparr>"
  obtain s' F' where 2: "put_page s1 p1 ?q' \<bind> (\<lambda>s. free_area_push s ?z k1 p1) = Some s'" "buddy_ok s' F' U {}" "kept s1 s'"
    "cpu_used_pages s' = cpu_used_pages s1" "frames (free_blocks F') = frames (free_blocks F1 \<union> {(p1, k1)})"
    by (rule push_free [OF 1(2,5), of ?q']) (simp_all add: clear_used_def)
  show thesis
  proof (rule that [of s' F'])
    have "get_page s1 p1 = Some ?q" using work_bounds(3) [OF buddy_okD(2) [OF 1(2)]] by (simp add: get_page_def)
    then show "free_pages_unlocked cpu s addr k = Some s'"
      using w(3,4) used 1(1) 2(1) unfolding free_pages_unlocked_def phys_to_page_def addr
      by (simp add: get_page_def not_le [symmetric])
    have "kept s ?s" using same(2) by (simp add: kept_def add_used_def)
    then show "kept s s'" using kept_trans 1(3) 2(3) by blast
  qed (use 1 2 in auto)
qed

section \<open>Allocation\<close>

lemma order_pow: "n < 11 \<Longrightarrow> unat (push_bit n 1 :: u32) = 2 ^ n"
  by (subst unat_push_bit) (use power_strict_increasing [of n 32 "2::nat"] in simp_all)

lemma split_round:
  assumes ok: "buddy_ok s F U {(p, k + 1)}" and k: "k < PMM_MAX_ORDER" "order \<le> k" and z: "zone_for_flags (flags_of s p) = z"
  obtains s' F' where "split_block s z order p (k + 1) = split_block s' z order p k" "buddy_ok s' F' U {(p, k)}"
    "kept s s'" "cpu_used_pages s' = cpu_used_pages s" "flags_of s' p = flags_of s p"
    "frames (free_blocks F' \<union> {(p, k)}) = frames (free_blocks F \<union> {(p, k + 1)})"
proof -
  note m = buddy_okD(2) [OF ok] and l = buddy_okD(1) [OF ok]
  define hi where "hi = p + push_bit (unat k) 1"
  have k': "unat k < 11" "unat (k + 1) = Suc (unat k)" using k(1) order_simps(1) [OF k(1)] by (simp_all add: word_less_nat_alt)
  have B: "(p, k + 1) \<in> free_blocks F \<union> U \<union> {(p, k + 1)}" by simp
  note t = tilesD [OF meta_okD(1) [OF m]]
  have top: "unat p + 2 * 2 ^ unat k \<le> unat (total_pages s)" using t(4) [OF B] k'(2) by simp
  have pow: "unat (push_bit (unat k) 1 :: u32) = 2 ^ unat k" using k'(1) by (rule order_pow)
  have hi: "unat hi = unat p + 2 ^ unat k" unfolding hi_def using pow top t(1) by (simp add: unat_add_no_overflow)
  have hi_lt: "hi < total_pages s" unfolding word_less_nat_alt hi using top zero_less_power [of "2::nat" "unat k"] by linarith
  have in_span: "unat hi \<in> span (p, k + 1)" using span_merge(1) [OF k(1) hi] by simp
  have new: "hi \<notin> set (F z' k')" for z' k'
  proof
    assume "hi \<in> set (F z' k')"
    then have "(hi, k') \<in> free_blocks F" by (auto simp: free_blocks_def)
    then show False using tiledD [OF t(2) B _ in_span, of "(hi, k')"] headsD(5) [OF meta_okD(2) [OF m]] by auto
  qed
  let ?b = "mem_map s hi\<lparr>pg_flags := (flags_of s hi OR PMM_FLAG_FREE) AND NOT PMM_FLAG_USED, pg_order := k, pg_ref_count := 0\<rparr>"
  let ?s = "s\<lparr>mem_map := (mem_map s)(hi := ?b)\<rparr>" and ?F = "set_list F z k (hi # F z k)"
  have kz: "k \<le> PMM_MAX_ORDER" "z < PMM_ZONE_COUNT" using k(1) z by auto
  have "lists_ok ?s F" using new by (intro lists_ok_put [OF l]) blast
  then obtain s' where s': "free_area_push ?s z k hi = Some s'" "lists_ok s' ?F"
    "same_meta (mem_map ?s) (mem_map s')" "total_pages s' = total_pages ?s" "cpu_used_pages s' = cpu_used_pages ?s"
    by (rule area_push_ok [OF _ kz(2,1)]) (use hi_lt new in simp_all)
  have fl: "flags_of s' = (flags_of s)(hi := clear_used (flags_of s hi))" "order_of s' = (order_of s)(hi := k)"
    using s'(3) by (auto simp: same_meta_def clear_used_def)
  show thesis
  proof (rule that [of s' ?F])
    have "order < k + 1" "k + 1 - 1 = k" using k k'(2) by (simp_all add: word_less_nat_alt word_le_nat_alt)
    then show "split_block s z order p (k + 1) = split_block s' z order p k"
      using hi_lt s'(1) by (subst split_block.simps) (simp add: Let_def get_page_def put_page_def hi_def)
    have meta: "meta_ok (total_pages s') (flags_of s') (order_of s') (free_blocks ?F) U {(p, k)}"
      using meta_split [OF m k(1) hi] s'(4) unfolding fl free_blocks_add by simp
    have hz: "zone_for_flags (flags_of s hi) = z" using t(6) [OF B in_span] z by simp
    show "buddy_ok s' ?F U {(p, k)}"
    proof (rule buddy_okI [OF s'(2) meta])
      show "zone_for_flags (flags_of s' q) = z'" if "q \<in> set (?F z' k')" for q z' k'
        using that buddy_okD(3) [OF ok] fun_cong [OF fl(1), of q] hz by (auto split: if_splits)
    qed
    show "kept s s'" using s'(4) fun_cong [OF fl(1)] by (simp add: kept_def)
    have "p \<noteq> hi" using hi by auto
    then show "flags_of s' p = flags_of s p" using fun_cong [OF fl(1), of p] by simp
    show "frames (free_blocks ?F \<union> {(p, k)}) = frames (free_blocks F \<union> {(p, k + 1)})"
      unfolding free_blocks_add using span_merge(1) [OF k(1) hi] by auto
  qed (use s'(5) in simp)
qed

lemma split_block_ok:
  assumes "buddy_ok s F U {(p, c)}" "order \<le> c" "zone_for_flags (flags_of s p) = z"
  shows "\<exists>s' F'. split_block s z order p c = Some s' \<and> buddy_ok s' F' U {(p, order)} \<and> kept s s' \<and>
    cpu_used_pages s' = cpu_used_pages s \<and> flags_of s' p = flags_of s p \<and>
    frames (free_blocks F' \<union> {(p, order)}) = frames (free_blocks F \<union> {(p, c)})"
  using assms
proof (induction "unat c" arbitrary: s F c)
  case 0
  then have "c = 0" "order = 0" by (simp_all add: unat_eq_zero)
  then show ?case using 0 by (subst split_block.simps) auto
next
  case (Suc n)
  show ?case
  proof (cases "order = c")
    case True
    then show ?thesis using Suc.prems by (subst split_block.simps) auto
  next
    case False
    define k where "k = c - 1"
    have ck: "c = k + 1" by (simp add: k_def)
    have "unat c \<le> 11" using work_bounds(2) [OF buddy_okD(2) [OF Suc.prems(1)]] by (simp add: word_le_nat_alt)
    have "c \<noteq> 0" using Suc.hyps(2) by auto
    then have n: "unat k = n" using Suc.hyps(2) unat_minus_one [of c] by (simp add: k_def)
    have "unat order \<noteq> Suc n" using False Suc.hyps(2) by (simp add: word_unat_eq_iff)
    then have k: "k < PMM_MAX_ORDER" "order \<le> k"
      using \<open>unat c \<le> 11\<close> Suc.hyps(2) Suc.prems(2) n by (simp_all add: word_le_nat_alt word_less_nat_alt)
    obtain s1 F1 where 1: "split_block s z order p c = split_block s1 z order p k" "buddy_ok s1 F1 U {(p, k)}"
      "kept s s1" "cpu_used_pages s1 = cpu_used_pages s" "flags_of s1 p = flags_of s p"
      "frames (free_blocks F1 \<union> {(p, k)}) = frames (free_blocks F \<union> {(p, c)})"
      by (rule split_round [OF Suc.prems(1) [unfolded ck] k Suc.prems(3)]) (simp add: ck)
    have "zone_for_flags (flags_of s1 p) = z" using 1(5) Suc.prems(3) by simp
    from Suc.hyps(1) [OF n [symmetric] 1(2) k(2) this] show ?thesis unfolding 1 using kept_trans [OF 1(3)] by metis
  qed
qed

definition no_block :: "lists \<Rightarrow> u32 \<Rightarrow> u32 \<Rightarrow> bool" where
  "no_block F z order \<longleftrightarrow> (\<forall>j \<ge> order. F z j = [])"

lemma available_bits:
  fixes order :: u32
  assumes ok: "lists_ok s F" and z: "z < PMM_ZONE_COUNT"
  defines "available \<equiv> available_orders s order z"
  shows "bit available (unat j) \<longleftrightarrow> order \<le> j \<and> F z j \<noteq> []" "available = 0 \<longleftrightarrow> no_block F z order"
proof -
  have m: "(if order = 0 then 0 else push_bit (unat order) 1 - 1) = (mask (unat order) :: u32)" by (simp add: mask_eq_exp_minus_1)
  show 1: "bit available (unat j) \<longleftrightarrow> order \<le> j \<and> F z j \<noteq> []" for j
    unfolding available_def available_orders_def Let_def m using lists_okD(8) [OF ok z, of j]
    by (auto simp: bit_simps word_le_nat_alt dest: bit_imp_le_length)
  have "available = 0 \<longleftrightarrow> (\<forall>j :: u32. \<not> bit available (unat j))"
  proof
    assume *: "\<forall>j :: u32. \<not> bit available (unat j)"
    show "available = 0"
    proof (rule bit_word_eqI)
      fix n assume "n < LENGTH(32)"
      then have "unat (word_of_nat n :: u32) = n" by (simp add: unat_of_nat)
      then show "bit available n = bit 0 n" using * by (metis bit_0_eq bot_apply bot_bool_def)
    qed
  qed simp
  then show "available = 0 \<longleftrightarrow> no_block F z order" using 1 by (auto simp: no_block_def)
qed

lemma alloc_null:
  assumes "order > PMM_MAX_ORDER \<or> zone \<ge> PMM_ZONE_COUNT \<or> no_block F zone order" "lists_ok s F"
  shows "alloc_pages_zone_unlocked cpu s order zone = Some (0, s)"
proof (cases "order > PMM_MAX_ORDER \<or> zone \<ge> PMM_ZONE_COUNT")
  case True
  then show ?thesis by (auto simp: alloc_pages_zone_unlocked_def)
next
  case False
  then show ?thesis
    using assms available_bits(2) [OF assms(2), of zone order] by (auto simp: alloc_pages_zone_unlocked_def)
qed

text \<open>Taking a block off its list.\<close>

lemma area_pop_ok:
  assumes ok: "buddy_ok s F U {}" and z: "z < PMM_ZONE_COUNT" and k: "k \<le> PMM_MAX_ORDER" and ne: "F z k \<noteq> []"
  obtains p s1 F' where "free_area_pop s z k = Some (Some p, s1)" "p < total_pages s1" "pg_flags (mem_map s1 p) = flags_of s p"
    "\<And>q. pg_flags q = set_used (flags_of s p) \<Longrightarrow> pg_order q = 0 \<Longrightarrow>
       (let s' = s1\<lparr>mem_map := (mem_map s1)(p := q)\<rparr> in buddy_ok s' F' U {(p, k)} \<and> kept s s' \<and> cpu_used_pages s' = cpu_used_pages s)"
    "zone_for_flags (flags_of s p) = z" "frames (free_blocks F' \<union> {(p, k)}) = frames (free_blocks F)"
proof -
  note m = buddy_okD(2) [OF ok] and l = buddy_okD(1) [OF ok]
  obtain p xs where p: "F z k = p # xs" using ne by (cases "F z k") auto
  then have mem: "p \<in> set (F z k)" and hd: "area_head (free_areas (zones s z) k) = Some p"
    using chain_head [OF lists_okD(1) [OF l z k]] by simp_all
  let ?F = "set_list F z k (remove1 p (F z k))"
  obtain s1 where s1: "free_area_remove s z k p = Some s1" "lists_ok s1 ?F" "same_meta (mem_map s) (mem_map s1)"
    "total_pages s1 = total_pages s" "cpu_used_pages s1 = cpu_used_pages s"
    "area_head (free_areas (zones s z) k) = Some p \<longrightarrow> free_area_pop s z k = Some (Some p, s1)"
    by (rule area_remove_ok [OF l z k mem])
  have free: "(p, k) \<in> free_blocks F" using mem by (auto simp: free_blocks_def)
  have rem: "set (remove1 p (F z k)) = set (F z k) - {p}" using lists_okD(3) [OF l] by (rule set_remove1_eq)
  have gone: "p \<notin> set (?F z' k')" for z' k'
  proof (cases "z' = z \<and> k' = k")
    case True
    then show ?thesis using rem by simp
  next
    case False
    then have "p \<notin> set (F z' k')" using lists_okD(7) [OF l mem] by blast
    then show ?thesis using False by auto
  qed
  show thesis
  proof (rule that [of p s1 ?F])
    show "free_area_pop s z k = Some (Some p, s1)" using s1(6) hd by simp
    show "p < total_pages s1" using lists_okD(4) [OF l mem] s1(4) by simp
    show "pg_flags (mem_map s1 p) = flags_of s p" using s1(3) by (simp add: same_meta_def)
    show "zone_for_flags (flags_of s p) = z" by (rule buddy_okD(3) [OF ok mem])
    show "frames (free_blocks ?F \<union> {(p, k)}) = frames (free_blocks F)"
      unfolding free_blocks_remove [OF l mem] using free by (auto simp: frames_def)
    fix q :: page assume q: "pg_flags q = set_used (flags_of s p)" "pg_order q = 0"
    let ?s = "s1\<lparr>mem_map := (mem_map s1)(p := q)\<rparr>"
    have fl: "flags_of ?s = (flags_of s)(p := set_used (flags_of s p))" "order_of ?s = (order_of s)(p := 0)"
      using s1(3) q by (auto simp: same_meta_def)
    have "meta_ok (total_pages ?s) (flags_of ?s) (order_of ?s) (free_blocks ?F) U {(p, k)}"
      unfolding fl free_blocks_remove [OF l mem] using meta_pop [OF m free] s1(4) by simp
    moreover have "lists_ok ?s ?F" using gone by (intro lists_ok_put [OF s1(2)]) blast
    moreover have "zone_for_flags (flags_of ?s r) = z'" if "r \<in> set (?F z' k')" for r z' k'
      using that buddy_okD(3) [OF ok] fun_cong [OF fl(1), of r] by (auto split: if_splits dest: notin_set_remove1)
    ultimately have "buddy_ok ?s ?F U {(p, k)}" by (intro buddy_okI)
    moreover have "kept s ?s" using s1(4) fun_cong [OF fl(1)] by (simp add: kept_def)
    ultimately show "let s' = ?s in buddy_ok s' ?F U {(p, k)} \<and> kept s s' \<and> cpu_used_pages s' = cpu_used_pages s"
      using s1(5) by (simp add: Let_def)
  qed
qed

lemma alloc_ok:
  assumes ok: "buddy_ok s F U {}" and z: "z < PMM_ZONE_COUNT" and k: "order \<le> PMM_MAX_ORDER" and ne: "\<not> no_block F z order"
  obtains p s' F' where "alloc_pages_zone_unlocked cpu s order z = Some (page_to_phys p, s')" "buddy_ok s' F' (insert (p, order) U) {}"
    "(p, order) \<notin> U" "kept s s'" "cpu_used_pages s' = cpu_used_pages (add_used cpu (push_bit (unat order) 1) s)"
    "zone_for_flags (flags_of s p) = z" "span (p, order) \<subseteq> frames (free_blocks F)" "frames (free_blocks F') = frames (free_blocks F) - span (p, order)"
proof -
  note l = buddy_okD(1) [OF ok]
  define av where "av = available_orders s order z"
  define c :: u32 where "c = word_of_nat (ctz av)"
  note av = available_bits [OF l z, of order, folded av_def]
  have av0: "av \<noteq> 0" using av(2) ne by simp
  have "unat c = ctz av" using ctz_spec(1) [OF av0] by (simp add: c_def unat_of_nat)
  then have c: "order \<le> c" "F z c \<noteq> []" using ctz_spec(2) [OF av0] av(1) [of c] by simp_all
  then have c11: "c \<le> PMM_MAX_ORDER" using lists_okD(6) [OF l, of "hd (F z c)" z c] by (simp add: list.set_sel)
  obtain p s1 F1 where 1: "free_area_pop s z c = Some (Some p, s1)" "p < total_pages s1" "pg_flags (mem_map s1 p) = flags_of s p"
    "\<And>q. pg_flags q = set_used (flags_of s p) \<Longrightarrow> pg_order q = 0 \<Longrightarrow>
       (let s' = s1\<lparr>mem_map := (mem_map s1)(p := q)\<rparr> in buddy_ok s' F1 U {(p, c)} \<and> kept s s' \<and> cpu_used_pages s' = cpu_used_pages s)"
    "zone_for_flags (flags_of s p) = z" "frames (free_blocks F1 \<union> {(p, c)}) = frames (free_blocks F)"
    using area_pop_ok [OF ok z c11 c(2)] by metis
  define q where "q = (mem_map s1 p)\<lparr>pg_flags := (pg_flags (mem_map s1 p) OR PMM_FLAG_USED) AND NOT PMM_FLAG_FREE, pg_ref_count := 1,
                     pg_order := 0, pg_freelist := 0, pg_objects := 0, pg_prev := None, pg_next := None\<rparr>"
  define s2 where "s2 = s1\<lparr>mem_map := (mem_map s1)(p := q)\<rparr>"
  have 2: "buddy_ok s2 F1 U {(p, c)}" "kept s s2" "cpu_used_pages s2 = cpu_used_pages s" "flags_of s2 p = set_used (flags_of s p)"
    using 1(4) [of q] 1(3) by (simp_all add: q_def set_used_def s2_def Let_def)
  then have "zone_for_flags (flags_of s2 p) = z" using 1(5) by simp
  from split_block_ok [OF 2(1) c(1) this] obtain s3 F3 where
    3: "split_block s2 z order p c = Some s3" "buddy_ok s3 F3 U {(p, order)}" "kept s2 s3" "cpu_used_pages s3 = cpu_used_pages s2"
      "flags_of s3 p = flags_of s2 p" "frames (free_blocks F3 \<union> {(p, order)}) = frames (free_blocks F1 \<union> {(p, c)})" by blast
  define s' where "s' = s3\<lparr>mem_map := (mem_map s3)(p := mem_map s3 p\<lparr>pg_order := order\<rparr>)\<rparr>"
  have fl: "flags_of s' = flags_of s3" "order_of s' = (order_of s3)(p := order)" by (auto simp: s'_def)
  note m3 = buddy_okD(2) [OF 3(2)]
  have meta: "meta_ok (total_pages s') (flags_of s') (order_of s') (free_blocks F3) (insert (p, order) U) {}"
    unfolding fl using meta_finish_alloc [OF m3, of order] 2(4) 3(5) by (simp add: s'_def)
  have ok': "buddy_ok s' F3 (insert (p, order) U) {}"
  proof (rule buddy_okI [OF _ meta])
    show "lists_ok s' F3" unfolding s'_def by (rule lists_ok_put [OF buddy_okD(1) [OF 3(2)]]) simp
    show "zone_for_flags (flags_of s' r) = z'" if "r \<in> set (F3 z' k')" for r z' k'
      using buddy_okD(3) [OF 3(2) that] fun_cong [OF fl(1)] by simp
  qed
  let ?t = "add_used cpu (push_bit (unat order) 1) s'"
  have p3: "p < total_pages s3" using work_bounds(3) [OF m3] .
  show thesis
  proof (rule that [of p ?t F3])
    have "\<not> PMM_MAX_ORDER < order" "\<not> PMM_ZONE_COUNT \<le> z" using k z by (simp_all add: not_less not_le)
    moreover have "put_page s1 p q = Some s2" by (simp add: put_page_def s2_def 1(2))
    note this [unfolded q_def]
    moreover have "get_page s1 p = Some (mem_map s1 p)" using 1(2) by (simp add: get_page_def)
    moreover have "get_page s3 p = Some (mem_map s3 p)" "put_page s3 p (mem_map s3 p\<lparr>pg_order := order\<rparr>) = Some s'"
      using p3 by (simp_all add: put_page_def get_page_def s'_def)
    ultimately show "alloc_pages_zone_unlocked cpu s order z = Some (page_to_phys p, ?t)"
      using av0 1(1) 3(1) unfolding alloc_pages_zone_unlocked_def av_def [symmetric] c_def [symmetric]
      by (simp add: Let_def c_def [symmetric])
    show "buddy_ok ?t F3 (insert (p, order) U) {}" using ok' by (simp add: buddy_ok_def lists_ok_def add_used_def)
    show "(p, order) \<notin> U" using headsD(6) [OF meta_okD(2) [OF m3]] by simp
    have "kept s3 ?t" using fun_cong [OF fl(1)] by (simp add: kept_def add_used_def s'_def)
    then show "kept s ?t" using kept_trans 2(2) 3(3) by blast
    show "cpu_used_pages ?t = cpu_used_pages (add_used cpu (push_bit (unat order) 1) s)"
      using 2(3) 3(4) by (simp add: add_used_def s'_def)
    have all: "frames (free_blocks F3) \<union> span (p, order) = frames (free_blocks F)" using 3(6) 1(6) by auto
    moreover have "frames (free_blocks F3) \<inter> span (p, order) = {}"
      using tilesD(2) [OF meta_okD(1) [OF m3]] headsD(5) [OF meta_okD(2) [OF m3], of p order] unfolding tiled_def frames_def by fast
    ultimately show "frames (free_blocks F3) = frames (free_blocks F) - span (p, order)" "span (p, order) \<subseteq> frames (free_blocks F)" by auto
  qed (fact 1(5))
qed

section \<open>Accounting\<close>

lemma pcp_cpu_index_less [simp]: "pcp_cpu_index cpu < MAX_CPUS"
  by (auto simp: pcp_cpu_index_def split: option.splits)

lemma fold_add: "fold (\<lambda>i n. n + f i) xs a = a + sum_list (map f xs)" for f :: "nat \<Rightarrow> u32"
  by (induction xs arbitrary: a) (simp_all add: algebra_simps)

lemma sum_list_upd: "distinct xs \<Longrightarrow> i \<in> set xs \<Longrightarrow> sum_list (map (f(i := f i + n)) xs) = sum_list (map f xs) + n" for f :: "nat \<Rightarrow> u32"
  by (simp add: sum_list_distinct_conv_sum_set sum.remove [of _ i] del: fun_upd_apply cong: sum.cong) (simp add: algebra_simps)

lemma used_add: "get_used_blocks (add_used cpu n s) = get_used_blocks s + n"
proof -
  have mem: "pcp_cpu_index cpu \<in> set [0..<MAX_CPUS]" using pcp_cpu_index_less by simp
  have "cpu_used_pages (add_used cpu n s) = (cpu_used_pages s)(pcp_cpu_index cpu := cpu_used_pages s (pcp_cpu_index cpu) + n)"
    by (simp add: add_used_def)
  then show ?thesis unfolding get_used_blocks_def fold_add by (simp only: sum_list_upd [OF distinct_upt mem] add_0)
qed

lemma used_cong: "cpu_used_pages s = cpu_used_pages s' \<Longrightarrow> get_used_blocks s = get_used_blocks s'"
  by (simp add: get_used_blocks_def)

section \<open>The invariant of the allocator\<close>

text \<open>What the descriptors say about zones and the kernel, from \<open>init_used_pages\<close> on.\<close>

definition paged :: "pmm \<Rightarrow> nat \<Rightarrow> bool" where
  "paged s kend \<longleftrightarrow> (\<forall>q < total_pages s. zone_for_flags (flags_of s q) = (if unat q < 4096 then PMM_ZONE_DMA else PMM_ZONE_NORMAL) \<and>
     (flags_of s q AND PMM_FLAG_KERNEL = 0 \<longleftrightarrow> kend \<le> unat q))"

lemma pagedD:
  assumes "paged s kend" "q < total_pages s"
  shows "zone_for_flags (flags_of s q) = (if unat q < 4096 then PMM_ZONE_DMA else PMM_ZONE_NORMAL)"
    "flags_of s q AND PMM_FLAG_KERNEL = 0 \<longleftrightarrow> kend \<le> unat q"
  using assms unfolding paged_def by blast+

lemma paged_kept: "paged s kend \<Longrightarrow> kept s s' \<Longrightarrow> paged s' kend"
  by (simp add: paged_def kept_def)

text \<open>
  \<open>U\<close> is the set of the blocks that are allocated, \<open>P\<close> the pages that the allocator was given. Page 0 belongs to the kernel, so
  that the address of a block is never the null pointer, and the counters of the processors add up to the pages that are on no free
  list.
\<close>

definition pmm_inv :: "pmm \<Rightarrow> nat \<Rightarrow> nat set \<Rightarrow> block set \<Rightarrow> bool" where
  "pmm_inv s kend P U \<longleftrightarrow> (\<exists>F. buddy_ok s F U {} \<and> frames (free_blocks F \<union> U) = P \<and>
     get_free_blocks s = word_of_nat (card (frames (free_blocks F)))) \<and> paged s kend \<and> (0 < kend \<or> total_pages s = 0)"

lemma pmm_invE:
  assumes "pmm_inv s kend P U"
  obtains F where "buddy_ok s F U {}" "frames (free_blocks F \<union> U) = P" "get_free_blocks s = word_of_nat (card (frames (free_blocks F)))"
    "paged s kend" "0 < kend \<or> total_pages s = 0"
  using assms unfolding pmm_inv_def by blast

lemma frames_Un: "frames (A \<union> B) = frames A \<union> frames B" "frames (insert b A) = span b \<union> frames A"
  by (auto simp: frames_def)

lemma finite_frames: "buddy_ok s F U W \<Longrightarrow> finite (frames (free_blocks F))"
proof -
  assume ok: "buddy_ok s F U W"
  have "frames (free_blocks F) \<subseteq> {..<unat (total_pages s)}"
    using tilesD(4) [OF meta_okD(1) [OF buddy_okD(2) [OF ok]]] by (fastforce simp: frames_def span_def)
  then show ?thesis using finite_subset by blast
qed

lemma card_span: "card (span (p, k)) = 2 ^ unat k"
  by (simp add: span_def)

lemma pow_word: "(word_of_nat (2 ^ unat k) :: u32) = push_bit (unat k) 1"
  by simp

lemma used_bounds:
  assumes "buddy_ok s F U {}" "(p, k) \<in> U"
  shows "p < total_pages s" "flags_of s p AND PMM_FLAG_KERNEL = 0" "flags_of s p AND PMM_FLAG_USED \<noteq> 0" "page_to_phys p div PAGE_SIZE = p"
proof -
  note m = buddy_okD(2) [OF assms(1)]
  show "p < total_pages s" "flags_of s p AND PMM_FLAG_KERNEL = 0" by (rule work_bounds(3,4) [OF meta_start [OF m assms(2)]])+
  show "flags_of s p AND PMM_FLAG_USED \<noteq> 0" by (rule headsD(3) [OF meta_okD(2) [OF m] assms(2)])
  have "unat p < 2 ^ 20" using \<open>p < total_pages s\<close> tilesD(1) [OF meta_okD(1) [OF m]] by (simp add: word_less_nat_alt)
  then have "unat (p * 4096) = unat p * 4096" by (simp add: unat_word_ariths)
  then show "page_to_phys p div PAGE_SIZE = p" unfolding page_to_phys_def by (simp add: word_unat_eq_iff unat_div)
qed

lemma alloc_inv:
  assumes "pmm_inv s kend P U"
  shows "\<exists>addr s'. alloc_pages_zone_unlocked cpu s order zone = Some (addr, s') \<and>
    (if addr = 0
     then s' = s \<and> (order \<le> PMM_MAX_ORDER \<and> zone < PMM_ZONE_COUNT \<longrightarrow>
       (\<forall>j. order \<le> j \<and> j \<le> PMM_MAX_ORDER \<longrightarrow> area_head (free_areas (zones s zone) j) = None))
     else let p = addr div PAGE_SIZE in
       page_to_phys p = addr \<and> pmm_inv s' kend P (insert (p, order) U) \<and> (\<forall>b \<in> U. span b \<inter> span (p, order) = {}) \<and>
       (if zone = PMM_ZONE_DMA then unat p < 4096 else 4096 \<le> unat p) \<and> get_free_blocks s' = get_free_blocks s - push_bit (unat order) 1)"
proof -
  obtain F where F: "buddy_ok s F U {}" "frames (free_blocks F \<union> U) = P" "get_free_blocks s = word_of_nat (card (frames (free_blocks F)))"
    "paged s kend" "0 < kend \<or> total_pages s = 0" using assms by (rule pmm_invE)
  note l = buddy_okD(1) [OF F(1)]
  show ?thesis
  proof (cases "order > PMM_MAX_ORDER \<or> zone \<ge> PMM_ZONE_COUNT \<or> no_block F zone order")
    case True
    then have "alloc_pages_zone_unlocked cpu s order zone = Some (0, s)" using l by (rule alloc_null)
    moreover have "area_head (free_areas (zones s zone) j) = None"
      if "order \<le> PMM_MAX_ORDER \<and> zone < PMM_ZONE_COUNT" "order \<le> j \<and> j \<le> PMM_MAX_ORDER" for j
      using lists_okD(1) [OF l, of zone j] True that by (auto simp: no_block_def)
    ultimately show ?thesis by simp
  next
    case False
    then have z: "zone < PMM_ZONE_COUNT" and k: "order \<le> PMM_MAX_ORDER" and ne: "\<not> no_block F zone order" by (auto simp: not_le not_less)
    obtain p s' F' where *: "alloc_pages_zone_unlocked cpu s order zone = Some (page_to_phys p, s')" "buddy_ok s' F' (insert (p, order) U) {}"
      "(p, order) \<notin> U" "kept s s'" "cpu_used_pages s' = cpu_used_pages (add_used cpu (push_bit (unat order) 1) s)"
      "zone_for_flags (flags_of s p) = zone" "span (p, order) \<subseteq> frames (free_blocks F)" "frames (free_blocks F') = frames (free_blocks F) - span (p, order)"
      by (rule alloc_ok [OF F(1) z k ne])
    note p = used_bounds [OF *(2) insertI1]
    have tot: "total_pages s' = total_pages s" using *(4) by (simp add: kept_def)
    have kern: "paged s' kend" "0 < kend \<or> total_pages s' = 0" using paged_kept [OF F(4) *(4)] F(5) tot by simp_all
    have "p \<noteq> 0" using p(1,2) pagedD(2) [OF kern(1) p(1)] kern(2) by auto
    then have "page_to_phys p \<noteq> 0" using p(4) by auto
    moreover have free: "get_free_blocks s' = get_free_blocks s - push_bit (unat order) 1"
      using used_cong [OF *(5)] tot by (simp add: get_free_blocks_def used_add)
    moreover have "pmm_inv s' kend P (insert (p, order) U)"
    proof -
      note fin = finite_frames [OF F(1)]
      have "2 ^ unat order \<le> card (frames (free_blocks F))" using card_mono [OF fin *(7)] by (simp add: card_span)
      then have "(word_of_nat (card (frames (free_blocks F'))) :: u32) = word_of_nat (card (frames (free_blocks F))) - push_bit (unat order) 1"
        unfolding *(8) card_Diff_subset [OF finite_subset [OF *(7) fin] *(7)] card_span by (simp add: of_nat_diff)
      moreover have "frames (free_blocks F' \<union> insert (p, order) U) = P" unfolding frames_Un *(8) F(2) [symmetric] using *(7) by auto
      ultimately show ?thesis using *(2) kern free F(3) unfolding pmm_inv_def by metis
    qed
    moreover have "\<forall>b \<in> U. span b \<inter> span (p, order) = {}"
      using tilesD(2) [OF meta_okD(1) [OF buddy_okD(2) [OF *(2)]]] *(3) unfolding tiled_def by blast
    moreover have "if zone = PMM_ZONE_DMA then unat p < 4096 else 4096 \<le> unat p"
      using pagedD(1) [OF F(4), of p] p(1) tot *(6) by (auto split: if_splits)
    ultimately show ?thesis using *(1) p(4) by (simp add: Let_def)
  qed
qed

lemma free_inv:
  assumes "pmm_inv s kend P U" "(p, k) \<in> U"
  shows "\<exists>s'. free_pages_unlocked cpu s (page_to_phys p) k = Some s' \<and> pmm_inv s' kend P (U - {(p, k)}) \<and>
    get_free_blocks s' = get_free_blocks s + push_bit (unat k) 1"
proof -
  obtain F where F: "buddy_ok s F U {}" "frames (free_blocks F \<union> U) = P" "get_free_blocks s = word_of_nat (card (frames (free_blocks F)))"
    "paged s kend" "0 < kend \<or> total_pages s = 0" using assms(1) by (rule pmm_invE)
  note u = used_bounds [OF F(1) assms(2)] and m = buddy_okD(2) [OF F(1)]
  have "buddy_ok s F (U - {(p, k)}) {(p, k)}" using F(1) meta_start [OF m assms(2)] by (simp add: buddy_ok_def)
  then obtain s' F' where *: "free_pages_unlocked cpu s (page_to_phys p) k = Some s'" "buddy_ok s' F' (U - {(p, k)}) {}" "kept s s'"
    "cpu_used_pages s' = cpu_used_pages (add_used cpu (- push_bit (unat k) 1) s)"
    "frames (free_blocks F') = frames (free_blocks F \<union> {(p, k)})"
    by (rule free_work_ok [OF _ u(3,4)])
  have tot: "total_pages s' = total_pages s" using *(3) by (simp add: kept_def)
  have free: "get_free_blocks s' = get_free_blocks s + push_bit (unat k) 1"
    using used_cong [OF *(4)] tot by (simp add: get_free_blocks_def used_add)
  have "span (p, k) \<inter> frames (free_blocks F) = {}"
    using tilesD(2) [OF meta_okD(1) [OF m]] assms(2) headsD(1) [OF meta_okD(2) [OF m], of p k] u(3) unfolding tiled_def frames_def by fast
  then have "card (frames (free_blocks F')) = 2 ^ unat k + card (frames (free_blocks F))"
    unfolding *(5) using finite_frames [OF F(1)] by (simp add: card_Un_disjoint card_span span_def)
  then have "get_free_blocks s' = word_of_nat (card (frames (free_blocks F')))" using free F(3) by simp
  moreover have "frames (free_blocks F' \<union> (U - {(p, k)})) = P"
    unfolding frames_Un *(5) F(2) [symmetric] using assms(2) by (auto simp: frames_def)
  moreover have "paged s' kend" "0 < kend \<or> total_pages s' = 0" using paged_kept [OF F(4) *(3)] F(5) tot by simp_all
  ultimately show ?thesis using *(1,2) free unfolding pmm_inv_def by metis
qed

section \<open>The contract of a page allocator\<close>

text \<open>
  What a client may do: request a block of an order, release a block it holds, or run the allocator's own maintenance. \<open>serve\<close> runs a
  sequence of such calls and keeps the blocks that the clients hold.
\<close>

datatype 'c request = Request 'c u32 | Release 'c u32 u32 | Maintain 'c

fun serve :: "('c \<Rightarrow> 's \<Rightarrow> u32 \<Rightarrow> (u32 \<times> 's) option) \<Rightarrow> ('c \<Rightarrow> 's \<Rightarrow> u32 \<Rightarrow> u32 \<Rightarrow> 's option) \<Rightarrow> ('c \<Rightarrow> 's \<Rightarrow> 's option) \<Rightarrow>
    'c request list \<Rightarrow> 's \<Rightarrow> block list \<Rightarrow> ('s \<times> block list) option" where
  "serve alloc free maintain [] s H = Some (s, H)"
| "serve alloc free maintain (Request c k # rs) s H = do {
     (a, s) \<leftarrow> alloc c s k;
     serve alloc free maintain rs s (if a = 0 then H else (a div PAGE_SIZE, k) # H)
   }"
| "serve alloc free maintain (Release c p k # rs) s H =
     (if (p, k) \<in> set H then do {
        s \<leftarrow> free c s (page_to_phys p) k;
        serve alloc free maintain rs s (remove1 (p, k) H)
      } else serve alloc free maintain rs s H)"
| "serve alloc free maintain (Maintain c # rs) s H = do {
     s \<leftarrow> maintain c s;
     serve alloc free maintain rs s H
   }"

locale page_allocator =
  fixes alloc :: "'c \<Rightarrow> 's \<Rightarrow> u32 \<Rightarrow> (u32 \<times> 's) option"
    and free :: "'c \<Rightarrow> 's \<Rightarrow> u32 \<Rightarrow> u32 \<Rightarrow> 's option"
    and maintain :: "'c \<Rightarrow> 's \<Rightarrow> 's option"
    and inv :: "'s \<Rightarrow> block set \<Rightarrow> bool"
  assumes alloc_law: "inv s H \<Longrightarrow> \<exists>a s'. alloc c s k = Some (a, s') \<and>
      (if a = 0 then inv s' H
       else page_to_phys (a div PAGE_SIZE) = a \<and> (a div PAGE_SIZE, k) \<notin> H \<and> inv s' (insert (a div PAGE_SIZE, k) H))"
    and free_law: "inv s H \<Longrightarrow> (p, k) \<in> H \<Longrightarrow> \<exists>s'. free c s (page_to_phys p) k = Some s' \<and> inv s' (H - {(p, k)})"
    and maintain_law: "inv s H \<Longrightarrow> \<exists>s'. maintain c s = Some s' \<and> inv s' H"
    and inv_tiled: "inv s H \<Longrightarrow> tiled H"
begin

lemma serve_safe:
  "inv s (set H) \<Longrightarrow> distinct H \<Longrightarrow> \<exists>s' H'. serve alloc free maintain rs s H = Some (s', H') \<and> inv s' (set H') \<and> distinct H'"
proof (induction rs arbitrary: s H)
  case (Cons r rs)
  show ?case
  proof (cases r)
    case (Request c k)
    obtain a s' where a: "alloc c s k = Some (a, s')"
      "if a = 0 then inv s' (set H) else (a div PAGE_SIZE, k) \<notin> set H \<and> inv s' (insert (a div PAGE_SIZE, k) (set H))"
      using alloc_law [OF Cons.prems(1), of c k] by (auto split: if_splits)
    let ?H = "if a = 0 then H else (a div PAGE_SIZE, k) # H"
    have "inv s' (set ?H)" "distinct ?H" using a(2) Cons.prems(2) by (auto split: if_splits)
    from Cons.IH [OF this] show ?thesis using a(1) Request by simp
  next
    case (Release c p k)
    show ?thesis
    proof (cases "(p, k) \<in> set H")
      case True
      obtain s' where s': "free c s (page_to_phys p) k = Some s'" "inv s' (set H - {(p, k)})" using free_law [OF Cons.prems(1) True] by blast
      have "inv s' (set (remove1 (p, k) H))" "distinct (remove1 (p, k) H)" using s'(2) Cons.prems(2) by simp_all
      from Cons.IH [OF this] show ?thesis using s'(1) True Release by simp
    next
      case False
      then show ?thesis using Cons.IH [OF Cons.prems] Release by simp
    qed
  next
    case (Maintain c)
    obtain s' where "maintain c s = Some s'" "inv s' (set H)" using maintain_law [OF Cons.prems(1)] by blast
    then show ?thesis using Cons.IH [OF _ Cons.prems(2)] Maintain by simp
  qed
qed simp

lemma alloc_fresh:
  assumes "inv s H" "alloc c s k = Some (a, s')" "a \<noteq> 0" "b \<in> H"
  shows "span b \<inter> span (a div PAGE_SIZE, k) = {}"
proof -
  have "(a div PAGE_SIZE, k) \<notin> H" "inv s' (insert (a div PAGE_SIZE, k) H)" using alloc_law [OF assms(1), of c k] assms(2,3) by auto
  then show ?thesis using inv_tiled [of s' "insert (a div PAGE_SIZE, k) H"] assms(4) unfolding tiled_def by blast
qed

end

interpretation buddy: page_allocator "\<lambda>(cpu, zone) s order. alloc_pages_zone_unlocked cpu s order zone"
  "\<lambda>(cpu, zone). free_pages_unlocked cpu" "\<lambda>_. Some" "\<lambda>s. pmm_inv s kend P" for kend P
proof (unfold_locales, goal_cases)
  case (1 s H c k)
  obtain cpu zone where c: "c = (cpu, zone)" by (cases c)
  obtain a s' where a: "alloc_pages_zone_unlocked cpu s k zone = Some (a, s')"
    "if a = 0 then s' = s else page_to_phys (a div PAGE_SIZE) = a \<and> pmm_inv s' kend P (insert (a div PAGE_SIZE, k) H) \<and>
       (\<forall>b \<in> H. span b \<inter> span (a div PAGE_SIZE, k) = {})"
    using alloc_inv [OF 1, of cpu k zone] unfolding Let_def by metis
  have "a \<noteq> 0 \<Longrightarrow> (a div PAGE_SIZE, k) \<notin> H" using a(2) by (auto simp: span_def)
  then show ?case using a 1 c by (simp split: if_splits)
next
  case (2 s H p k c)
  then show ?case using free_inv [OF 2] by (cases c) auto
next
  case (4 s H)
  obtain F where "buddy_ok s F H {}" using 4 by (rule pmm_invE)
  then have "tiled (free_blocks F \<union> H \<union> {})" by (rule tilesD(2) [OF meta_okD(1) [OF buddy_okD(2)]])
  then show ?case unfolding tiled_def by blast
qed simp

end
