(* ===== verification/Pmm_init.thy ===== *)
theory Pmm_init
  imports Pmm_buddy
begin

text \<open>
  Initialisation of the physical memory manager from a memory map: what the alignment of addresses, the choice of the order of
  a block and the walk over a range do, and that \<open>init_regions\<close> frees exactly the usable pages of the map.
\<close>

section \<open>Alignment\<close>

lemma align_down_unat: "unat (align_down x) = unat x div 4096 * 4096"
proof -
  have m: "PAGE_SIZE - 1 = (mask 12 :: u32)" by (simp add: mask_eq_exp_minus_1)
  have "align_down x = push_bit 12 (drop_bit 12 x)"
    unfolding align_down_def m by (intro bit_word_eqI) (auto simp: bit_simps)
  moreover have "unat (drop_bit 12 x) * 2 ^ 12 < 2 ^ 32" using unat_u32_less [of x] by (simp add: unat_drop_bit)
  ultimately show ?thesis by (simp add: unat_push_bit unat_drop_bit)
qed

lemma align_up_unat:
  assumes "unat x + 4095 < 2 ^ 32"
  shows "unat (align_up x) = (unat x + 4095) div 4096 * 4096"
proof -
  have "unat (x + 4095) = unat x + 4095" using assms by (simp add: unat_add_no_overflow)
  then show ?thesis using align_down_unat [of "x + 4095"] by (simp add: align_up_def align_down_def)
qed

section \<open>Choosing blocks\<close>

lemma reserved_mono:
  "range_is_reserved start' end' rs \<Longrightarrow> start \<le> start' \<Longrightarrow> end' \<le> end \<Longrightarrow> range_is_reserved start end rs"
proof (induction rs)
  case (Cons r rs)
  then show ?case by (auto simp: Let_def split: if_splits)
qed simp

definition fits :: "u32 \<Rightarrow> u32 \<Rightarrow> pmm_reserved_region list \<Rightarrow> u32 \<Rightarrow> bool" where
  "fits cur e rs k \<longleftrightarrow> (let be = cur + push_bit (unat k) PAGE_SIZE in
     cur \<le> be \<and> be \<le> e \<and> (cur < k_dma_limit \<longrightarrow> be \<le> k_dma_limit) \<and> \<not> range_is_reserved cur be rs)"

lemma fit_order_ok: "fit_order cur e 0 rs m \<le> m \<and> (fit_order cur e 0 rs m = 0 \<or> fits cur e rs (fit_order cur e 0 rs m))"
proof (induction "unat m" arbitrary: m)
  case 0
  then show ?case by (subst (1 2 3) fit_order.simps) (simp add: unat_eq_zero)
next
  case (Suc n)
  have "m \<noteq> 0" using Suc.hyps(2) by auto
  then have m: "unat (m - 1) = n" "m - 1 \<le> m" "m > 0" using Suc.hyps(2) unat_minus_one [of m] by (simp_all add: word_gt_0 word_le_nat_alt)
  have "fit_order cur e 0 rs m = (if fits cur e rs m then m else fit_order cur e 0 rs (m - 1))"
    using m(3) by (subst fit_order.simps) (auto simp: Let_def fits_def zone_flags_for_addr_def not_less)
  then show ?case using Suc.hyps(1) [of "m - 1"] m by (auto intro: order_trans)
qed

section \<open>Freeing a range\<close>

definition rsv :: "pmm_reserved_region list \<Rightarrow> nat \<Rightarrow> bool" where
  "rsv rs n \<longleftrightarrow> range_is_reserved (word_of_nat (n * 4096)) (word_of_nat (Suc n * 4096)) rs"

text \<open>The free lists \<open>F\<close> hold exactly the pages \<open>P\<close>, and nothing is allocated.\<close>

definition frees :: "pmm \<Rightarrow> nat \<Rightarrow> nat set \<Rightarrow> bool" where
  "frees s kend P \<longleftrightarrow> (\<exists>F. buddy_ok s F {} {} \<and> frames (free_blocks F) = P \<and> get_free_blocks s = word_of_nat (card P)) \<and> paged s kend"

lemma block_end_unat:
  assumes "unat cur = c * 4096" "unat k \<le> 11" "cur \<le> cur + push_bit (unat k) PAGE_SIZE"
  shows "unat (cur + push_bit (unat k) PAGE_SIZE) = (c + 2 ^ unat k) * 4096"
proof -
  have "(2::nat) ^ unat k \<le> 2 ^ 11" using assms(2) by (rule power_increasing) simp
  then have u: "unat (push_bit (unat k) PAGE_SIZE) = 4096 * 2 ^ unat k" by (subst unat_push_bit) simp_all
  have "unat (cur + push_bit (unat k) PAGE_SIZE) = unat cur + unat (push_bit (unat k) PAGE_SIZE)"
    using assms(3) by (meson no_olen_add_nat word_le_nat_alt unat_plus_simple)
  then show ?thesis using assms(1) u by simp
qed

lemma free_block_step:
  assumes fr: "frees s kend P" and cur: "unat cur = c * 4096" and k: "unat k \<le> 11"
    and n: "c + 2 ^ unat k \<le> unat (total_pages s)" "kend \<le> c" "c < 4096 \<longrightarrow> c + 2 ^ unat k \<le> 4096"
    and new: "P \<inter> {c..<c + 2 ^ unat k} = {}"
  obtains s' where "free_pages_unlocked cpu s cur k = Some s'" "frees s' kend (P \<union> {c..<c + 2 ^ unat k})" "kept s s'"
proof -
  define p where "p = cur div PAGE_SIZE"
  have p: "unat p = c" unfolding p_def using cur by (simp add: unat_div)
  then have sp: "span (p, k) = {c..<c + 2 ^ unat k}" by (simp add: span_def)
  obtain F where F: "buddy_ok s F {} {}" "frames (free_blocks F) = P" "get_free_blocks s = word_of_nat (card P)" and pg: "paged s kend"
    using fr unfolding frees_def by blast
  note m = buddy_okD(2) [OF F(1)]
  have fl: "flags_of s q AND PMM_FLAG_KERNEL = 0 \<and> zone_for_flags (flags_of s q) = zone_for_flags (flags_of s p)" if "unat q \<in> span (p, k)" for q
  proof -
    have q: "c \<le> unat q" "unat q < c + 2 ^ unat k" using that sp by auto
    then have lt: "q < total_pages s" "p < total_pages s" using n(1) p by (simp_all add: word_less_nat_alt)
    have "unat q < 4096 \<longleftrightarrow> unat p < 4096" using q n(3) p by auto
    then show ?thesis using pagedD [OF pg lt(1)] pagedD(1) [OF pg lt(2)] le_trans [OF n(2) q(1)] by simp
  qed
  have k11: "k \<le> PMM_MAX_ORDER" and top: "unat p + 2 ^ unat k \<le> unat (total_pages s)" using k p n(1) by (simp_all add: word_le_nat_alt)
  have "span (p, k) \<inter> (\<Union>b \<in> free_blocks F \<union> {}. span b) = {}" using new sp F(2) unfolding frames_def by auto
  note w = meta_add [OF m k11 top this fl]
  note used = w(2)
  have "buddy_ok s F {} {(p, k)}" using F(1) w(1) by (simp add: buddy_ok_def)
  then obtain s' F' where *: "free_pages_unlocked cpu s cur k = Some s'" "buddy_ok s' F' {} {}" "kept s s'"
    "cpu_used_pages s' = cpu_used_pages (add_used cpu (- push_bit (unat k) 1) s)"
    "frames (free_blocks F') = frames (free_blocks F \<union> {(p, k)})"
    by (rule free_work_ok [OF _ used p_def [symmetric]])
  show thesis
  proof (rule that [OF *(1) _ *(3)])
    have "get_free_blocks s' = get_free_blocks s + push_bit (unat k) 1"
      using used_cong [OF *(4)] *(3) by (simp add: get_free_blocks_def used_add kept_def)
    moreover have "finite P" using finite_frames [OF F(1)] F(2) by simp
    then have "card (P \<union> {c..<c + 2 ^ unat k}) = card P + 2 ^ unat k" using new by (simp add: card_Un_disjoint)
    ultimately show "frees s' kend (P \<union> {c..<c + 2 ^ unat k})"
      unfolding frees_def using *(2,5) F(2,3) sp paged_kept [OF pg *(3)] by auto
  qed
qed


lemma unat_word: "n < 2 ^ 32 \<Longrightarrow> unat (word_of_nat n :: u32) = n"
  by (simp add: unat_of_nat)

lemma unat_page: "unat (x :: u32) = i * 4096 \<Longrightarrow> x = word_of_nat (i * 4096)"
proof -
  assume u: "unat x = i * 4096"
  have "x = word_of_nat (unat x)" by simp
  then show "x = word_of_nat (i * 4096)" unfolding u .
qed

lemma rsv_block:
  assumes "unat cur = c * 4096" "unat be = d * 4096" "\<not> range_is_reserved cur be rs" "c \<le> i" "i < d"
  shows "\<not> rsv rs i"
proof
  assume r: "rsv rs i"
  have lt: "Suc i * 4096 \<le> unat be" "c * 4096 \<le> i * 4096" using assms(2,4,5) by (auto simp only: mult_le_mono1 Suc_leI)
  then have "Suc i * 4096 < 2 ^ 32" using unat_u32_less [of be] by simp
  then have "unat (word_of_nat (i * 4096) :: u32) = i * 4096" "unat (word_of_nat (Suc i * 4096) :: u32) = Suc i * 4096"
    by (intro unat_word; simp)+
  then have "cur \<le> word_of_nat (i * 4096)" "word_of_nat (Suc i * 4096) \<le> be" using lt assms(1) by (simp_all only: word_le_nat_alt)
  then show False using reserved_mono [OF r [unfolded rsv_def]] assms(3) by blast
qed

lemma fitted:
  assumes "unat cur = c * 4096" "unat e = n * 4096" "c < n" and k_def: "k = fit_order cur e 0 rs PMM_MAX_ORDER"
  defines "be \<equiv> cur + push_bit (unat k) PAGE_SIZE"
  shows "unat be = (c + 2 ^ unat k) * 4096" "c + 2 ^ unat k \<le> n" "unat k \<le> 11" "c < 4096 \<longrightarrow> c + 2 ^ unat k \<le> 4096"
    "range_is_reserved cur be rs \<Longrightarrow> k = 0"
proof -
  have k: "k \<le> PMM_MAX_ORDER" "k = 0 \<or> fits cur e rs k" using fit_order_ok [of cur e rs PMM_MAX_ORDER] k_def by auto
  show k11: "unat k \<le> 11" using k(1) by (simp add: word_le_nat_alt)
  have le: "cur \<le> be"
  proof (cases "k = 0")
    case True
    have "Suc c * 4096 < 2 ^ 32" using assms(2,3) unat_u32_less [of e] by simp
    then show ?thesis using True assms(1) by (simp add: be_def word_le_nat_alt unat_add_no_overflow)
  qed (use k(2) in \<open>simp add: fits_def be_def Let_def\<close>)
  show u: "unat be = (c + 2 ^ unat k) * 4096" unfolding be_def by (rule block_end_unat [OF assms(1) k11]) (use le be_def in simp)
  show "c + 2 ^ unat k \<le> n"
  proof (cases "k = 0")
    case False
    then have "unat be \<le> unat e" using k(2) by (simp add: fits_def be_def Let_def word_le_nat_alt)
    then show ?thesis using u assms(2) by simp
  qed (use assms(3) in simp)
  show "c < 4096 \<longrightarrow> c + 2 ^ unat k \<le> 4096"
  proof (cases "k = 0")
    case False
    then have "cur < k_dma_limit \<longrightarrow> unat be \<le> unat k_dma_limit" using k(2) by (simp add: fits_def be_def Let_def word_le_nat_alt)
    then have "c < 4096 \<longrightarrow> (c + 2 ^ unat k) * 4096 \<le> 4096 * 4096" using u assms(1) by (simp add: word_less_nat_alt)
    then show ?thesis by (simp only: mult_le_cancel2) simp
  qed simp
  show "range_is_reserved cur be rs \<Longrightarrow> k = 0" using k(2) by (auto simp: fits_def be_def Let_def)
qed

lemma free_range_loop_ok:
  assumes "frees s kend P" "unat cur = c * 4096" "unat e = n * 4096" "n \<le> unat (total_pages s)" "kend \<le> c" "c \<le> n" "P \<inter> {c..<n} = {}"
  shows "\<exists>s'. free_range_loop cpu s cur e 0 rs = Some s' \<and> frees s' kend (P \<union> {i \<in> {c..<n}. \<not> rsv rs i}) \<and> kept s s'"
  using assms
proof (induction "n - c" arbitrary: s P cur c rule: less_induct)
  case less
  show ?case
  proof (cases "c = n")
    case True
    then have "\<not> cur < e" using less.prems(2,3) by (simp add: word_less_nat_alt)
    then show ?thesis using True less.prems(1) by (subst free_range_loop.simps) simp
  next
    case False
    then have cn: "c < n" using less.prems(6) by simp
    define k where "k = fit_order cur e 0 rs PMM_MAX_ORDER"
    define be where "be = cur + push_bit (unat k) PAGE_SIZE"
    note f = fitted [OF less.prems(2,3) cn k_def, folded be_def]
    have cur: "cur < e" using cn less.prems(2,3) by (simp add: word_less_nat_alt)
    have "\<not> be \<le> cur" using f(1) less.prems(2) by (simp add: word_le_nat_alt)
    moreover have "\<not> e < be" using f(1,2) less.prems(3) by (simp add: word_less_nat_alt)
    ultimately have eq: "free_range_loop cpu s cur e 0 rs =
        (if range_is_reserved cur be rs then free_range_loop cpu s (cur + PAGE_SIZE) e 0 rs
         else free_pages_unlocked cpu s cur k \<bind> (\<lambda>s. free_range_loop cpu s be e 0 rs))"
      using cur by (subst free_range_loop.simps) (simp add: Let_def k_def [symmetric] be_def [symmetric])
    show ?thesis
    proof (cases "range_is_reserved cur be rs")
      case True
      then have k0: "k = 0" using f(5) by simp
      then have be: "be = cur + PAGE_SIZE" "unat be = Suc c * 4096" using f(1) by (simp_all add: be_def)
      have "rsv rs c" using True unat_page [OF less.prems(2)] unat_page [OF be(2)] by (simp add: rsv_def)
      then have "{i \<in> {c..<n}. \<not> rsv rs i} = {i \<in> {Suc c..<n}. \<not> rsv rs i}" by (auto simp: Suc_le_eq le_less)
      moreover have "P \<inter> {Suc c..<n} = {}" using less.prems(7) by auto
      ultimately show ?thesis
        using less.hyps [of "Suc c" s P be] less.prems cn be True eq by simp
    next
      case False
      obtain s1 where s1: "free_pages_unlocked cpu s cur k = Some s1" "frees s1 kend (P \<union> {c..<c + 2 ^ unat k})" "kept s s1"
        by (rule free_block_step [OF less.prems(1,2) f(3) _ less.prems(5) f(4)]) (use less.prems f in auto)
      have "n - (c + 2 ^ unat k) < n - c" using cn zero_less_power [of "2::nat" "unat k"] by linarith
      moreover have "n \<le> unat (total_pages s1)" "kend \<le> c + 2 ^ unat k" "(P \<union> {c..<c + 2 ^ unat k}) \<inter> {c + 2 ^ unat k..<n} = {}"
        using less.prems(4,5,7) s1(3) by (auto simp: kept_def)
      ultimately obtain s' where
        s': "free_range_loop cpu s1 be e 0 rs = Some s'" "frees s' kend (P \<union> {c..<c + 2 ^ unat k} \<union> {i \<in> {c + 2 ^ unat k..<n}. \<not> rsv rs i})" "kept s1 s'"
        using less.hyps [OF _ s1(2) f(1) less.prems(3) _ _ f(2)] by blast
      have "\<not> rsv rs i" if "i \<in> {c..<c + 2 ^ unat k}" for i using rsv_block [OF less.prems(2) f(1) False] that by auto
      then have "P \<union> {c..<c + 2 ^ unat k} \<union> {i \<in> {c + 2 ^ unat k..<n}. \<not> rsv rs i} = P \<union> {i \<in> {c..<n}. \<not> rsv rs i}"
        using f(2) by auto
      then show ?thesis using s'(1,2) s1(1) False eq kept_trans [OF s1(3) s'(3)] by simp
    qed
  qed
qed


lemma align_up_aligned: "unat x = a * 4096 \<Longrightarrow> align_up x = x"
proof -
  assume x: "unat x = a * 4096"
  then have "a < 1048576" using unat_u32_less [of x] by simp
  then have "unat x + 4095 < 2 ^ 32" using x by simp
  then have "unat (align_up x) = unat x" using align_up_unat [of x] x by simp
  then show ?thesis by (simp add: word_unat_eq_iff)
qed

lemma align_down_aligned: "unat x = a * 4096 \<Longrightarrow> align_down x = x"
  using align_down_unat [of x] by (simp add: word_unat_eq_iff)

lemma free_range_ok:
  assumes "frees s kend P" "unat st = a * 4096" "unat e = b * 4096" "b \<le> unat (total_pages s)" "kend \<le> a" "a < b" "P \<inter> {a..<b} = {}"
  shows "\<exists>s'. free_range cpu s st e 0 rs = Some s' \<and> frees s' kend (P \<union> {i \<in> {a..<b}. \<not> rsv rs i}) \<and> kept s s'"
proof -
  have "\<not> e \<le> st" using assms(2,3,6) by (simp add: word_le_nat_alt)
  then have "free_range cpu s st e 0 rs = free_range_loop cpu s st e 0 rs"
    unfolding free_range_def align_up_aligned [OF assms(2)] align_down_aligned [OF assms(3)] by (simp add: Let_def)
  then show ?thesis using free_range_loop_ok [OF assms(1-5) less_imp_le [OF assms(6)] assms(7)] by simp
qed

section \<open>The memory map\<close>

abbreviation available :: "pmm_region \<Rightarrow> bool" where
  "available r \<equiv> region_type r = PMM_REGION_AVAILABLE"

text \<open>The pages that lie inside an available region.\<close>

definition region_pages :: "pmm_region \<Rightarrow> nat set" where
  "region_pages r = (if available r
     then {(unat (region_base r) + 4095) div 4096 ..< (unat (region_base r) + unat (region_size r)) div 4096} else {})"

text \<open>
  A memory map whose available regions end below 4 GiB, do not start inside the last page of the address space and do not
  overlap.
\<close>

primrec map_ok :: "pmm_region list \<Rightarrow> bool" where
  "map_ok [] \<longleftrightarrow> True"
| "map_ok (r # rs) \<longleftrightarrow>
     (available r \<longrightarrow> unat (region_base r) + 4095 < 2 ^ 32 \<and> unat (region_base r) + unat (region_size r) < 2 ^ 32 \<and>
       (\<forall>r' \<in> set rs. available r' \<longrightarrow>
          unat (region_base r) + unat (region_size r) \<le> unat (region_base r') \<or>
          unat (region_base r') + unat (region_size r') \<le> unat (region_base r))) \<and> map_ok rs"

lemma page_bounds:
  "(b + 4095) div 4096 \<le> i \<longleftrightarrow> b \<le> 4096 * i" "i < x div 4096 \<longleftrightarrow> 4096 * i + 4096 \<le> x" for b i x :: nat
  using div_less_iff_less_mult [of 4096 "b + 4095" "Suc i"] less_eq_div_iff_mult_less_eq [of 4096 "Suc i" x] by (auto simp: less_Suc_eq_le Suc_le_eq)

lemma region_pages_disjoint:
  assumes "unat (region_base r) + unat (region_size r) \<le> unat (region_base r') \<or> unat (region_base r') + unat (region_size r') \<le> unat (region_base r)"
  shows "region_pages r \<inter> region_pages r' = {}"
  using assms unfolding region_pages_def by (auto simp: page_bounds)

definition map_pages :: "nat \<Rightarrow> pmm_reserved_region list \<Rightarrow> pmm_region list \<Rightarrow> nat set" where
  "map_pages kend reserved rs = {i. (\<exists>r \<in> set rs. i \<in> region_pages r) \<and> kend \<le> i \<and> \<not> rsv reserved i}"

lemma free_regions_ok:
  assumes "frees s kend P" "map_ok rs" "unat mend = kend * 4096"
    "\<And>r. r \<in> set rs \<Longrightarrow> region_pages r \<subseteq> {..<unat (total_pages s)} \<and> P \<inter> region_pages r = {}"
  shows "\<exists>s'. free_regions cpu s mend reserved rs = Some s' \<and> frees s' kend (P \<union> map_pages kend reserved rs) \<and> kept s s'"
  using assms
proof (induction rs arbitrary: s P)
  case Nil
  then show ?case by (simp add: map_pages_def)
next
  case (Cons r rs)
  note fr = Cons.prems(1) and mend = Cons.prems(3)
  have IH: "\<exists>s'. free_regions cpu s1 mend reserved rs = Some s' \<and> frees s' kend (Q \<union> map_pages kend reserved rs) \<and> kept s s'"
    if "frees s1 kend Q" "kept s s1" "\<And>r'. r' \<in> set rs \<Longrightarrow> Q \<inter> region_pages r' = {}" for s1 Q
    using Cons.IH [OF that(1) _ mend] Cons.prems(2,4) that(2,3) kept_trans [OF that(2)] by (fastforce simp: kept_def)
  have skip: ?case if "free_regions cpu s mend reserved (r # rs) = free_regions cpu s mend reserved rs" "region_pages r \<inter> {kend..} = {}"
  proof -
    have "map_pages kend reserved (r # rs) = map_pages kend reserved rs" using that(2) by (auto simp: map_pages_def)
    then show ?thesis using IH [OF fr kept_refl] Cons.prems(4) that(1) by simp
  qed
  show ?case
  proof (cases "available r")
    case False
    then show ?thesis by (intro skip) (auto simp: region_pages_def)
  next
    case True
    define a b where "a = (unat (region_base r) + 4095) div 4096" and "b = (unat (region_base r) + unat (region_size r)) div 4096"
    have rp: "region_pages r = {a..<b}" using True by (simp add: region_pages_def a_def b_def)
    have ok: "unat (region_base r) + 4095 < 2 ^ 32" "unat (region_base r) + unat (region_size r) < 2 ^ 32" using Cons.prems(2) True by simp_all
    have st: "unat (align_up (region_base r)) = a * 4096" using align_up_unat [OF ok(1)] by (simp add: a_def)
    have en: "unat (align_down (region_base r + region_size r)) = b * 4096"
      using align_down_unat [of "region_base r + region_size r"] ok(2) by (simp add: b_def unat_add_no_overflow)
    define a' where "a' = max a kend"
    define st' where "st' = (if align_up (region_base r) < mend then mend else align_up (region_base r))"
    have st': "unat st' = a' * 4096" using st mend by (auto simp: st'_def a'_def word_less_nat_alt max_def)
    show ?thesis
    proof (cases "a' < b")
      case False
      then have "b \<le> a \<or> b \<le> a'" by simp
      then show ?thesis using True st en st' False
        by (intro skip) (auto simp: Let_def word_le_nat_alt st'_def [symmetric] rp a'_def)
    next
      case less: True
      then have eq: "free_regions cpu s mend reserved (r # rs) =
          free_range cpu s st' (align_down (region_base r + region_size r)) 0 reserved \<bind> (\<lambda>s. free_regions cpu s mend reserved rs)"
        using True st en st' by (auto simp: Let_def word_le_nat_alt st'_def [symmetric] a'_def)
      have "b - 1 \<in> {a..<b}" using less by (auto simp: a'_def)
      then have "b \<le> unat (total_pages s)" using Cons.prems(4) [of r] rp by auto
      moreover have "P \<inter> {a'..<b} = {}" "kend \<le> a'" using Cons.prems(4) [of r] rp by (auto simp: a'_def)
      ultimately obtain s1 where s1: "free_range cpu s st' (align_down (region_base r + region_size r)) 0 reserved = Some s1"
        "frees s1 kend (P \<union> {i \<in> {a'..<b}. \<not> rsv reserved i})" "kept s s1"
        using free_range_ok [OF fr st' en _ _ less] by blast
      have "(P \<union> {i \<in> {a'..<b}. \<not> rsv reserved i}) \<inter> region_pages r' = {}" if "r' \<in> set rs" for r'
      proof -
        have "region_pages r \<inter> region_pages r' = {}"
        proof (cases "available r'")
          case r': True
          show ?thesis by (rule region_pages_disjoint) (use Cons.prems(2) True that r' in auto)
        qed (simp add: region_pages_def)
        then show ?thesis using Cons.prems(4) [of r'] that rp by (auto simp: a'_def)
      qed
      moreover have "P \<union> {i \<in> {a'..<b}. \<not> rsv reserved i} \<union> map_pages kend reserved rs = P \<union> map_pages kend reserved (r # rs)"
        using rp by (auto simp: map_pages_def a'_def)
      ultimately show ?thesis using IH [OF s1(2,3)] s1(1) eq by simp
    qed
  qed
qed


section \<open>The allocator after initialisation\<close>

lemma fold_pages:
  fixes m :: "u32 \<Rightarrow> page"
  assumes "n \<le> 2 ^ 32"
  shows "fold (\<lambda>i m. m(word_of_nat i := g i (m (word_of_nat i)))) [0..<n] m q = (if unat q < n then g (unat q) (m q) else m q)"
  using assms
proof (induction n)
  case (Suc n)
  have "unat q = n \<longleftrightarrow> q = word_of_nat n" using Suc.prems unat_word [of n] by (auto simp: word_unat_eq_iff)
  then show ?case using Suc by (auto simp: less_Suc_eq)
qed simp

lemma init_used_frees:
  fixes s :: pmm
  assumes "unat t \<le> 2 ^ 20" "unat mend = kend * 4096" "total_pages s = t" "cpu_used_pages s = (\<lambda>_. 0)"
    "zones s = (\<lambda>_. \<lparr>free_areas = (\<lambda>_. \<lparr>area_head = None, area_count = 0\<rparr>), free_bitmap = 0\<rparr>)"
  shows "frees (init_used_pages s t mend) kend {}"
proof -
  let ?s = "init_used_pages s t mend"
  have mem: "mem_map ?s q = (if unat q < unat t then used_page mend (word_of_nat (unat q) * PAGE_SIZE) (mem_map s q) else mem_map s q)" for q
    unfolding init_used_pages_def Let_def align_up_aligned [OF assms(2)]
    using fold_pages [of "unat t" "\<lambda>i. used_page mend (word_of_nat i * PAGE_SIZE)" "mem_map s" q] assms(1) by simp
  have fl: "flags_of ?s q = PMM_FLAG_USED OR zone_flags_for_addr (q * PAGE_SIZE) OR (if q * PAGE_SIZE < mend then PMM_FLAG_KERNEL else 0)"
    if "q < t" for q
    using that by (simp add: mem used_page_def word_less_nat_alt)
  have addr: "unat (q * PAGE_SIZE) = unat q * 4096" if "q < t" for q
    using that assms(1) by (simp add: word_less_nat_alt unat_word_ariths)
  have used: "flags_of ?s q AND PMM_FLAG_USED \<noteq> 0" if "q < t" for q
    unfolding fl [OF that] by (simp add: zone_flags_for_addr_def)
  have tot: "total_pages ?s = t" using assms(3) by (simp add: init_used_pages_def Let_def)
  have "paged ?s kend"
    unfolding paged_def tot
  proof (intro allI impI)
    fix q assume q: "q < t"
    have "q * PAGE_SIZE < k_dma_limit \<longleftrightarrow> unat q < 4096" "q * PAGE_SIZE < mend \<longleftrightarrow> \<not> kend \<le> unat q"
      using addr [OF q] assms(2) by (auto simp: word_less_nat_alt)
    then show "zone_for_flags (flags_of ?s q) = (if unat q < 4096 then PMM_ZONE_DMA else PMM_ZONE_NORMAL) \<and>
        (flags_of ?s q AND PMM_FLAG_KERNEL = 0 \<longleftrightarrow> kend \<le> unat q)"
      unfolding fl [OF q] by (simp add: zone_flags_for_addr_def zone_for_flags_def)
  qed
  moreover have "buddy_ok ?s (\<lambda>_ _. []) {} {}"
  proof (rule buddy_okI)
    have "zones ?s = zones s" by (simp add: init_used_pages_def Let_def)
    then show "lists_ok ?s (\<lambda>_ _. [])" using assms(5) by (simp add: lists_ok_def)
    show "meta_ok (total_pages ?s) (flags_of ?s) (order_of ?s) (free_blocks (\<lambda>_ _. [])) {} {}"
      using used assms(1) by (simp add: meta_ok_def tiles_def heads_def tiled_def free_blocks_def tot)
  qed simp
  moreover have "get_free_blocks ?s = 0"
  proof -
    have "cpu_used_pages ?s = cpu_used_pages (add_used None t s)" using assms(4) by (simp add: init_used_pages_def Let_def add_used_def pcp_cpu_index_def)
    moreover have "get_used_blocks s = 0" unfolding get_used_blocks_def fold_add assms(4) by (simp add: map_replicate_const sum_list_replicate)
    ultimately show ?thesis using used_cong [of ?s "add_used None t s"] tot by (simp add: get_free_blocks_def used_add)
  qed
  ultimately show ?thesis unfolding frees_def by (intro conjI exI [of _ "\<lambda>_ _. []"]) (simp_all add: free_blocks_def)
qed

lemma empty_frees: "frees (empty_pmm s) 0 {}"
proof -
  have "buddy_ok (empty_pmm s) (\<lambda>_ _. []) {} {}"
    by (simp add: buddy_ok_def lists_ok_def meta_ok_def tiles_def heads_def tiled_def free_blocks_def empty_pmm_def)
  moreover have "get_used_blocks (empty_pmm s) = 0"
    unfolding get_used_blocks_def fold_add by (simp add: empty_pmm_def map_replicate_const sum_list_replicate)
  ultimately show ?thesis
    unfolding frees_def
    by (intro conjI exI [of _ "\<lambda>_ _. []"]) (simp_all add: get_free_blocks_def free_blocks_def paged_def empty_pmm_def)
qed

lemma regions_end_mono: "m \<le> regions_end rs m"
proof (induction rs arbitrary: m)
  case (Cons r rs)
  then show ?case by (auto simp: Let_def) (meson order_trans less_imp_le)+
qed simp

lemma regions_end_ge:
  assumes "map_ok rs" "r \<in> set rs" "available r" "region_size r \<noteq> 0"
  shows "unat (region_base r) + unat (region_size r) \<le> unat (regions_end rs m)"
  using assms
proof (induction rs arbitrary: m)
  case (Cons x rs)
  show ?case
  proof (cases "r = x")
    case True
    have lt: "unat (region_base r) + unat (region_size r) < 2 ^ 32" using Cons.prems(1,3) True by simp
    then have u: "unat (region_base r + region_size r) = unat (region_base r) + unat (region_size r)" by (simp add: unat_add_no_overflow)
    then have "\<not> region_base r + region_size r < region_base r" by (simp add: word_less_nat_alt)
    then have "regions_end (x # rs) m = regions_end rs (max m (region_base r + region_size r))"
      using True Cons.prems(3,4) by (auto simp: Let_def max_def)
    moreover have "region_base r + region_size r \<le> regions_end rs (max m (region_base r + region_size r))"
      by (rule order_trans [OF max.cobounded2 regions_end_mono])
    ultimately show ?thesis using u by (simp add: word_le_nat_alt)
  next
    case False
    then show ?thesis using Cons by (auto simp: Let_def)
  qed
qed simp


lemma region_in_map:
  assumes "map_ok rs" "r \<in> set rs"
  shows "region_pages r \<subseteq> {..<unat (regions_end rs 0) div 4096}"
proof (cases "available r \<and> region_size r \<noteq> 0")
  case True
  then have "(unat (region_base r) + unat (region_size r)) div 4096 \<le> unat (regions_end rs 0) div 4096"
    using regions_end_ge [OF assms] by (intro div_le_mono) blast
  then show ?thesis using True by (auto simp: region_pages_def)
next
  case False
  then have "region_pages r = {}" by (auto simp: region_pages_def page_bounds)
  then show ?thesis by simp
qed

text \<open>The pages of the memory map that are handed to the allocator: those above the kernel image and the descriptors.\<close>

definition kernel_pages :: "pmm_region list \<Rightarrow> u32 \<Rightarrow> nat" where
  "kernel_pages rs kernel_end_addr = unat (align_up (align_up kernel_end_addr + align_down (regions_end rs 0) div PAGE_SIZE * 32)) div 4096"

text \<open>The map has a page, and the descriptors of its pages end inside the address space.\<close>

definition memory_fits :: "pmm_region list \<Rightarrow> u32 \<Rightarrow> bool" where
  "memory_fits rs kernel_end_addr \<longleftrightarrow> align_down (regions_end rs 0) div PAGE_SIZE \<noteq> 0 \<and>
     align_up kernel_end_addr \<le> align_up (align_up kernel_end_addr + align_down (regions_end rs 0) div PAGE_SIZE * 32)"

lemma init_regions_ok:
  assumes "map_ok rs"
  shows "\<exists>s'. init_regions cpu s rs reserved kernel_end_addr = Some s' \<and>
    (if memory_fits rs kernel_end_addr
     then total_pages s' = align_down (regions_end rs 0) div PAGE_SIZE \<and> 0 < kernel_pages rs kernel_end_addr \<and>
       frees s' (kernel_pages rs kernel_end_addr) (map_pages (kernel_pages rs kernel_end_addr) reserved rs)
     else total_pages s' = 0 \<and> frees s' 0 {})"
proof -
  let ?e = "empty_pmm s" and ?kend = "kernel_pages rs kernel_end_addr"
  define t where "t = align_down (regions_end rs 0) div PAGE_SIZE"
  define phys where "phys = align_up kernel_end_addr"
  define mend where "mend = align_up (phys + t * 32)"
  have ut: "unat t = unat (regions_end rs 0) div 4096" by (simp add: t_def unat_div align_down_unat)
  have t20: "unat t \<le> 2 ^ 20" using unat_u32_less [of "regions_end rs 0"] by (simp add: ut)
  have empty: "frees ?e 0 {}" by (rule empty_frees)
  have mend: "unat mend = ?kend * 4096" unfolding kernel_pages_def mend_def phys_def t_def align_up_def using align_down_unat unfolding align_down_def by simp
  have fit: "memory_fits rs kernel_end_addr \<longleftrightarrow> \<not> (t = 0 \<or> mend < phys)"
    by (simp add: memory_fits_def t_def phys_def mend_def not_less)
  have nil: "rs = [] \<Longrightarrow> t = 0" by (simp add: t_def align_down_def)
  show ?thesis
  proof (cases "t = 0 \<or> mend < phys")
    case True
    then have "init_regions cpu s rs reserved kernel_end_addr = Some ?e"
      unfolding init_regions_def Let_def t_def [symmetric] phys_def [symmetric] mend_def [symmetric] by auto
    then show ?thesis using empty True fit by (simp add: empty_pmm_def)
  next
    case False
    define s0 where "s0 = init_used_pages (?e\<lparr>total_pages := t, mem_map := (\<lambda>i. if i < t then zero_page else mem_map ?e i)\<rparr>) t mend"
    have eq: "init_regions cpu s rs reserved kernel_end_addr = free_regions cpu s0 mend reserved rs"
      using False nil unfolding init_regions_def Let_def t_def [symmetric] phys_def [symmetric] mend_def [symmetric] s0_def by auto
    have fr: "frees s0 ?kend {}" unfolding s0_def by (rule init_used_frees [OF t20 mend]) (simp_all add: empty_pmm_def)
    have tot: "total_pages s0 = t" by (simp add: s0_def init_used_pages_def Let_def)
    have "region_pages r \<subseteq> {..<unat (total_pages s0)} \<and> {} \<inter> region_pages r = {}" if "r \<in> set rs" for r
      unfolding tot using region_in_map [OF assms that] ut by simp
    from free_regions_ok [OF fr assms mend this] obtain s' where
      s': "free_regions cpu s0 mend reserved rs = Some s'" "frees s' ?kend (map_pages ?kend reserved rs)" "kept s0 s'" by auto
    moreover have "0 < ?kend"
    proof (rule ccontr)
      assume "\<not> 0 < ?kend"
      then have "mend = 0" using mend by (simp add: unat_eq_zero)
      then have "phys = 0" using False by (auto simp: word_gt_0)
      have u: "unat (t * 32) = unat t * 32" using t20 by (simp add: unat_word_ariths)
      have "0 < unat t" using False by (simp add: unat_gt_0)
      then have "4096 \<le> unat (align_up (t * 32))" using align_up_unat [of "t * 32"] t20 by (simp add: u)
      then show False using \<open>mend = 0\<close> \<open>phys = 0\<close> by (simp add: mend_def)
    qed
    ultimately show ?thesis using eq tot False fit by (simp add: kept_def t_def)
  qed
qed

lemma frees_inv: "frees s kend P \<Longrightarrow> 0 < kend \<or> total_pages s = 0 \<Longrightarrow> pmm_inv s kend P {}"
  unfolding frees_def pmm_inv_def by auto

section \<open>The memory map\<close>

text \<open>
  The bytes of a reserved region, and reserved regions that end at least a page below the end of the address space: the end of a region is
  rounded up in 32 bits, and the rounded end of a later one is 0.
\<close>

definition reserved_bytes :: "pmm_reserved_region \<Rightarrow> nat set" where
  "reserved_bytes r = {unat (reserved_base r) ..< unat (reserved_base r) + unat (reserved_size r)}"

definition reserved_ok :: "pmm_reserved_region list \<Rightarrow> bool" where
  "reserved_ok rs \<longleftrightarrow> (\<forall>r \<in> set rs. unat (reserved_base r) + unat (reserved_size r) + 4095 < 2 ^ 32)"

definition page_bytes :: "nat \<Rightarrow> nat set" where
  "page_bytes i = {i * 4096 ..< Suc i * 4096}"

text \<open>The usable pages: inside an available region, free of reserved bytes, above the kernel and the page descriptors.\<close>

definition usable_pages :: "nat \<Rightarrow> pmm_reserved_region list \<Rightarrow> pmm_region list \<Rightarrow> nat set" where
  "usable_pages kend reserved rs = {i. kend \<le> i \<and>
     (\<exists>r \<in> set rs. available r \<and> page_bytes i \<subseteq> {unat (region_base r) ..< unat (region_base r) + unat (region_size r)}) \<and>
     (\<forall>r \<in> set reserved. page_bytes i \<inter> reserved_bytes r = {})}"

lemma range_is_reserved_any: "range_is_reserved a b rs \<longleftrightarrow> (\<exists>r \<in> set rs. range_is_reserved a b [r])"
  by (induction rs) (simp_all add: Let_def)

lemma reserved_page:
  assumes "unat (reserved_base r) + unat (reserved_size r) + 4095 < 2 ^ 32" "Suc i * 4096 < 2 ^ 32"
  shows "range_is_reserved (word_of_nat (i * 4096)) (word_of_nat (Suc i * 4096)) [r] \<longleftrightarrow> page_bytes i \<inter> reserved_bytes r \<noteq> {}"
proof -
  let ?b = "reserved_base r" and ?n = "reserved_size r"
  have e: "unat (?b + ?n) = unat ?b + unat ?n" using assms(1) by (simp add: unat_add_no_overflow)
  then have nw: "\<not> ?b + ?n < ?b" by (simp add: word_less_nat_alt)
  have up: "unat (align_up (?b + ?n)) = (unat ?b + unat ?n + 4095) div 4096 * 4096" using assms(1) e by (simp add: align_up_unat)
  define a z :: u32 where "a = word_of_nat (i * 4096)" and "z = word_of_nat (Suc i * 4096)"
  have i: "unat a = i * 4096" "unat z = Suc i * 4096"
    unfolding a_def z_def by (rule unat_word; use assms(2) in simp)+
  have "range_is_reserved a z [r] \<longleftrightarrow>
      0 < unat ?n \<and> i < (unat ?b + unat ?n + 4095) div 4096 \<and> unat ?b div 4096 < Suc i"
    using nw by (auto simp: Let_def word_le_nat_alt not_le up align_down_unat i unat_gt_0)
  also have "\<dots> \<longleftrightarrow> 0 < unat ?n \<and> i * 4096 < unat ?b + unat ?n \<and> unat ?b < Suc i * 4096"
    by (metis div_less_iff_less_mult mult.commute not_le page_bounds(1) zero_less_numeral)
  also have "\<dots> \<longleftrightarrow> page_bytes i \<inter> reserved_bytes r \<noteq> {}"
  proof -
    have "page_bytes i \<inter> reserved_bytes r = {max (i * 4096) (unat ?b) ..< min (Suc i * 4096) (unat ?b + unat ?n)}"
      by (auto simp: page_bytes_def reserved_bytes_def)
    then show ?thesis by (auto simp: max_def min_def)
  qed
  finally show ?thesis unfolding a_def z_def .
qed

lemma map_pages_usable:
  assumes "map_ok rs" "reserved_ok reserved"
  shows "map_pages kend reserved rs = usable_pages kend reserved rs"
proof -
  have "(\<exists>r \<in> set rs. i \<in> region_pages r) \<and> \<not> rsv reserved i \<longleftrightarrow>
      (\<exists>r \<in> set rs. available r \<and> page_bytes i \<subseteq> {unat (region_base r) ..< unat (region_base r) + unat (region_size r)}) \<and>
      (\<forall>r \<in> set reserved. page_bytes i \<inter> reserved_bytes r = {})" (is "?A \<and> ?B \<longleftrightarrow> ?C \<and> ?D") for i
  proof -
    have in_region: "i \<in> region_pages r \<longleftrightarrow> available r \<and> page_bytes i \<subseteq> {unat (region_base r) ..< unat (region_base r) + unat (region_size r)}" for r
      by (auto simp: region_pages_def page_bounds page_bytes_def subset_eq_atLeast0_lessThan_finite ivl_subset)
    then have AC: "?A \<longleftrightarrow> ?C" by blast
    have "?B \<longleftrightarrow> ?D" if A: ?A
    proof -
      obtain r where "r \<in> set rs" "i \<in> region_pages r" using A by blast
      then have "i < unat (regions_end rs 0) div 4096" using region_in_map [OF assms(1)] by blast
      then have "Suc i * 4096 < 2 ^ 32" using unat_u32_less [of "regions_end rs 0"] by simp
      then show ?thesis using assms(2) reserved_page unfolding rsv_def range_is_reserved_any [of _ _ reserved] reserved_ok_def by blast
    qed
    then show ?thesis using AC by blast
  qed
  then show ?thesis unfolding map_pages_def usable_pages_def by blast
qed

end
