(* ===== verification/Pmm_pcp.thy ===== *)
theory Pmm_pcp
  imports Pmm_init
begin

text \<open>
  The caches of pages that every processor keeps in front of the buddy allocator (\<open>src/src/mm/pmm.cpp\<close>), and the entry points of
  the allocator: \<open>alloc_pages\<close>, \<open>alloc_pages_zone\<close>, \<open>free_pages\<close>, the batches and \<open>pmm_drain_local_pcp_caches\<close>. A call runs on one
  processor, given by its \<open>cpu_current\<close>; a call is one step, since a cache is used with interrupts disabled on its own processor and
  the zones under their locks.

  The main result is about the whole allocator: started from a memory map, it serves every sequence of calls on all processors
  without leaving its tables, and the blocks it has handed out never overlap and consist of usable memory.
\<close>

section \<open>State\<close>

record order_list =
  ol_count :: u32
  phys_pages :: "u32 list"

record pmm_state =
  core :: pmm
  pcp_caches :: "nat \<Rightarrow> u32 \<Rightarrow> u32 \<Rightarrow> order_list"

abbreviation k_pcp_max_order :: u32 where "k_pcp_max_order \<equiv> 3"

definition pcp_capacity :: "u32 \<Rightarrow> u32" where
  "pcp_capacity order = [256, 128, 64, 32] ! unat order"

definition pcp_refill_batch :: "u32 \<Rightarrow> u32" where
  "pcp_refill_batch order = [32, 16, 8, 4] ! unat order"

definition pcp_drain_batch :: "u32 \<Rightarrow> u32" where
  "pcp_drain_batch order = [128, 64, 32, 16] ! unat order"

definition pcp_list :: "int ptr \<Rightarrow> pmm_state \<Rightarrow> u32 \<Rightarrow> u32 \<Rightarrow> order_list" where
  "pcp_list cpu st zone order = pcp_caches st (pcp_cpu_index cpu) zone order"

definition set_pcp_list :: "int ptr \<Rightarrow> u32 \<Rightarrow> u32 \<Rightarrow> order_list \<Rightarrow> pmm_state \<Rightarrow> pmm_state" where
  "set_pcp_list cpu zone order l st = st\<lparr>pcp_caches := (\<lambda>c z k.
     if c = pcp_cpu_index cpu \<and> z = zone \<and> k = order then l else pcp_caches st c z k)\<rparr>"

section \<open>Batches\<close>

text \<open>The loop that fills \<open>out\<close> from one zone; its result are the entries written.\<close>

primrec alloc_batch_loop :: "int ptr \<Rightarrow> u32 \<Rightarrow> u32 \<Rightarrow> nat \<Rightarrow> pmm \<Rightarrow> (u32 list \<times> pmm) option" where
  "alloc_batch_loop cpu order zone 0 s = Some ([], s)"
| "alloc_batch_loop cpu order zone (Suc n) s = do {
     (p, s) \<leftarrow> alloc_pages_zone_unlocked cpu s order zone;
     if p = 0 then Some ([], s)
     else do {
       (ps, s) \<leftarrow> alloc_batch_loop cpu order zone n s;
       Some (p # ps, s)
     }
   }"

definition alloc_pages_batch :: "int ptr \<Rightarrow> pmm \<Rightarrow> u32 \<Rightarrow> u32 \<Rightarrow> u32 \<Rightarrow> (u32 list \<times> pmm) option" where
  "alloc_pages_batch cpu s order preferred cap =
     (if cap = 0 \<or> order > PMM_MAX_ORDER then Some ([], s)
      else do {
        let preferred = (if preferred \<ge> PMM_ZONE_COUNT then PMM_ZONE_NORMAL else preferred);
        let fallback = (if preferred = PMM_ZONE_NORMAL then PMM_ZONE_DMA else PMM_ZONE_NORMAL);
        (ps, s) \<leftarrow> alloc_batch_loop cpu order preferred (unat cap) s;
        (qs, s) \<leftarrow> alloc_batch_loop cpu order fallback (unat cap - length ps) s;
        Some (ps @ qs, s)
      })"

primrec free_all :: "int ptr \<Rightarrow> u32 \<Rightarrow> u32 list \<Rightarrow> pmm \<Rightarrow> pmm option" where
  "free_all cpu order [] s = Some s"
| "free_all cpu order (p # ps) s = do {
     s \<leftarrow> free_pages_unlocked cpu s p order;
     free_all cpu order ps s
   }"

text \<open>The pages of a batch that lie in a zone. \<open>dma_pages\<close> and \<open>normal_pages\<close> have 256 entries each.\<close>

definition batch_zone :: "pmm \<Rightarrow> u32 \<Rightarrow> u32 list \<Rightarrow> u32 list" where
  "batch_zone s zone pages = filter (\<lambda>a. a \<noteq> 0 \<and> (case phys_to_page s a of
       None \<Rightarrow> False
     | Some p \<Rightarrow> zone_for_flags (pg_flags (mem_map s p)) = zone)) pages"

definition free_pages_batch :: "int ptr \<Rightarrow> pmm \<Rightarrow> u32 \<Rightarrow> u32 list \<Rightarrow> pmm option" where
  "free_pages_batch cpu s order pages =
     (if pages = [] \<or> order > PMM_MAX_ORDER then Some s
      else
        let dma_pages = batch_zone s PMM_ZONE_DMA pages; normal_pages = batch_zone s PMM_ZONE_NORMAL pages
        in if length dma_pages > 256 \<or> length normal_pages > 256 then None
        else do {
          s \<leftarrow> free_all cpu order dma_pages s;
          free_all cpu order normal_pages s
        })"

section \<open>Caches of the processors\<close>

definition pcp_cache_drain :: "int ptr \<Rightarrow> pmm \<Rightarrow> u32 \<Rightarrow> order_list \<Rightarrow> (order_list \<times> pmm) option" where
  "pcp_cache_drain cpu s order l =
     (if ol_count l < pcp_capacity order then Some (l, s)
      else do {
        let drain = (if ol_count l < pcp_drain_batch order then ol_count l else pcp_drain_batch order);
        batch \<leftarrow> those (map (\<lambda>i. get_at (phys_pages l) (unat (ol_count l - 1 - word_of_nat i))) [0..<unat drain]);
        s \<leftarrow> free_pages_batch cpu s order batch;
        Some (l\<lparr>ol_count := ol_count l - drain\<rparr>, s)
      })"

definition pcp_push :: "u32 \<Rightarrow> order_list \<Rightarrow> order_list option" where
  "pcp_push addr l = do {
     ps \<leftarrow> set_at (phys_pages l) (unat (ol_count l)) addr;
     Some \<lparr>ol_count = ol_count l + 1, phys_pages = ps\<rparr>
   }"

primrec pcp_refill :: "u32 \<Rightarrow> u32 list \<Rightarrow> order_list \<Rightarrow> order_list option" where
  "pcp_refill order [] l = Some l"
| "pcp_refill order (b # batch) l =
     (if ol_count l < pcp_capacity order then do {
        l \<leftarrow> pcp_push b l;
        pcp_refill order batch l
      } else Some l)"

definition pcp_alloc_from_cache :: "int ptr \<Rightarrow> pmm_state \<Rightarrow> u32 \<Rightarrow> u32 \<Rightarrow> (u32 \<times> pmm_state) option" where
  "pcp_alloc_from_cache cpu st zone order =
     (let l = pcp_list cpu st zone order in
      if ol_count l > 0 then do {
        p \<leftarrow> get_at (phys_pages l) (unat (ol_count l - 1));
        Some (p, set_pcp_list cpu zone order (l\<lparr>ol_count := ol_count l - 1\<rparr>) st)
      } else do {
        (batch, s) \<leftarrow> alloc_pages_batch cpu (core st) order zone (pcp_refill_batch order);
        case batch of
          [] \<Rightarrow> Some (0, st\<lparr>core := s\<rparr>)
        | b # bs \<Rightarrow> do {
            l \<leftarrow> pcp_refill order bs l;
            Some (b, set_pcp_list cpu zone order l (st\<lparr>core := s\<rparr>))
          }
      })"

definition pcp_free_to_cache :: "int ptr \<Rightarrow> pmm_state \<Rightarrow> u32 \<Rightarrow> u32 \<Rightarrow> u32 \<Rightarrow> pmm_state option" where
  "pcp_free_to_cache cpu st zone order addr =
     (let l = pcp_list cpu st zone order in do {
        (l, s) \<leftarrow> (if ol_count l \<ge> pcp_capacity order then pcp_cache_drain cpu (core st) order l else Some (l, core st));
        if ol_count l < pcp_capacity order then do {
          l \<leftarrow> pcp_push addr l;
          Some (set_pcp_list cpu zone order l (st\<lparr>core := s\<rparr>))
        } else do {
          s \<leftarrow> free_pages_batch cpu s order [addr];
          Some (set_pcp_list cpu zone order l (st\<lparr>core := s\<rparr>))
        }
      })"

section \<open>Entry points\<close>

text \<open>For an order above the cached ones the lock of \<open>zones_[zone]\<close> is taken before the zone is checked.\<close>

definition alloc_pages_zone :: "int ptr \<Rightarrow> pmm_state \<Rightarrow> u32 \<Rightarrow> u32 \<Rightarrow> (u32 \<times> pmm_state) option" where
  "alloc_pages_zone cpu st order zone =
     (if order \<le> k_pcp_max_order then
        if zone \<ge> PMM_ZONE_COUNT then Some (0, st) else pcp_alloc_from_cache cpu st zone order
      else if zone \<ge> PMM_ZONE_COUNT then None
      else do {
        (p, s) \<leftarrow> alloc_pages_zone_unlocked cpu (core st) order zone;
        Some (p, st\<lparr>core := s\<rparr>)
      })"

definition alloc_pages :: "int ptr \<Rightarrow> pmm_state \<Rightarrow> u32 \<Rightarrow> (u32 \<times> pmm_state) option" where
  "alloc_pages cpu st order =
     (if order \<le> k_pcp_max_order then do {
        (p, st) \<leftarrow> pcp_alloc_from_cache cpu st PMM_ZONE_NORMAL order;
        if p \<noteq> 0 then Some (p, st) else pcp_alloc_from_cache cpu st PMM_ZONE_DMA order
      } else do {
        (ptr, st) \<leftarrow> alloc_pages_zone cpu st order PMM_ZONE_NORMAL;
        if ptr \<noteq> 0 then Some (ptr, st) else alloc_pages_zone cpu st order PMM_ZONE_DMA
      })"

definition free_pages :: "int ptr \<Rightarrow> pmm_state \<Rightarrow> u32 \<Rightarrow> u32 \<Rightarrow> pmm_state option" where
  "free_pages cpu st addr order =
     (if addr = 0 \<or> order > PMM_MAX_ORDER then Some st
      else case phys_to_page (core st) addr of
        None \<Rightarrow> Some st
      | Some page \<Rightarrow> do {
          q \<leftarrow> get_page (core st) page;
          if order \<le> k_pcp_max_order then
            if pg_flags q AND PMM_FLAG_KERNEL \<noteq> 0 \<or> pg_flags q AND PMM_FLAG_USED = 0 then Some st
            else pcp_free_to_cache cpu st (zone_for_flags (pg_flags q)) order addr
          else do {
            s \<leftarrow> free_pages_unlocked cpu (core st) addr order;
            Some (st\<lparr>core := s\<rparr>)
          }
        })"

definition drain_cpu_index :: "int ptr \<Rightarrow> int" where
  "drain_cpu_index cpu_current =
     (let idx = (case cpu_current of Some i \<Rightarrow> i | None \<Rightarrow> 0) in if idx < 0 \<or> idx \<ge> int MAX_CPUS then 0 else idx)"

text \<open>One list of a cache: the pages go to the buddy allocator, then the list becomes empty.\<close>

definition drain_list_free :: "int ptr \<Rightarrow> nat \<Rightarrow> u32 \<Rightarrow> u32 \<Rightarrow> pmm_state \<Rightarrow> pmm_state option" where
  "drain_list_free cpu c zone order st = do {
     let l = pcp_caches st c zone order;
     s \<leftarrow> free_pages_batch cpu (core st) order (take (unat (ol_count l)) (phys_pages l));
     Some (st\<lparr>core := s\<rparr>)
   }"

definition drain_list_reset :: "nat \<Rightarrow> u32 \<Rightarrow> u32 \<Rightarrow> pmm_state \<Rightarrow> pmm_state" where
  "drain_list_reset c zone order st =
     st\<lparr>pcp_caches := (\<lambda>c' z k. if c' = c \<and> z = zone \<and> k = order then (pcp_caches st c' z k)\<lparr>ol_count := 0\<rparr> else pcp_caches st c' z k)\<rparr>"

primrec drain_lists :: "int ptr \<Rightarrow> nat \<Rightarrow> (u32 \<times> u32) list \<Rightarrow> pmm_state \<Rightarrow> pmm_state option" where
  "drain_lists cpu c [] st = Some st"
| "drain_lists cpu c (zk # zks) st =
     (case zk of (zone, order) \<Rightarrow>
        if ol_count (pcp_caches st c zone order) > 0 then do {
          st \<leftarrow> drain_list_free cpu c zone order st;
          drain_lists cpu c zks (drain_list_reset c zone order st)
        } else drain_lists cpu c zks st)"

definition pmm_drain_local_pcp_caches :: "int ptr \<Rightarrow> pmm_state \<Rightarrow> pmm_state option" where
  "pmm_drain_local_pcp_caches cpu_current st =
     (let cpu = drain_cpu_index cpu_current in
      if cpu < 0 \<or> cpu \<ge> int MAX_CPUS then Some st
      else drain_lists cpu_current (nat cpu) [(z, k). z \<leftarrow> [0, 1], k \<leftarrow> [0, 1, 2, 3]] st)"

section \<open>Batches keep the invariant\<close>

text \<open>The block of an order at an address, and addresses of pages.\<close>

definition blk :: "u32 \<Rightarrow> u32 \<Rightarrow> block" where
  "blk k a = (a div PAGE_SIZE, k)"

definition page_addr :: "u32 \<Rightarrow> bool" where
  "page_addr a \<longleftrightarrow> a \<noteq> 0 \<and> page_to_phys (a div PAGE_SIZE) = a"

lemma page_addrD: "page_addr a \<Longrightarrow> page_to_phys (a div PAGE_SIZE) = a"
  by (simp add: page_addr_def)

lemma blk_inj: "page_addr a \<Longrightarrow> page_addr b \<Longrightarrow> blk k a = blk k b \<longleftrightarrow> a = b"
  unfolding page_addr_def blk_def by (metis prod.inject)

lemma blk_image: "page_addr a \<Longrightarrow> \<forall>b \<in> A. page_addr b \<Longrightarrow> blk k a \<in> blk k ` A \<longleftrightarrow> a \<in> A"
  using blk_inj by blast

text \<open>What a zone holds no more: it has no free block of the order or a larger one.\<close>

definition exhausted :: "pmm \<Rightarrow> u32 \<Rightarrow> u32 \<Rightarrow> bool" where
  "exhausted s zone order \<longleftrightarrow> (\<forall>j. order \<le> j \<and> j \<le> PMM_MAX_ORDER \<longrightarrow> area_head (free_areas (zones s zone) j) = None)"

lemma alloc_unlocked:
  assumes "pmm_inv s kend P U"
  obtains "alloc_pages_zone_unlocked cpu s order zone = Some (0, s)"
      "order \<le> PMM_MAX_ORDER \<and> zone < PMM_ZONE_COUNT \<longrightarrow> exhausted s zone order"
  | a s' where "alloc_pages_zone_unlocked cpu s order zone = Some (a, s')" "page_addr a" "pmm_inv s' kend P (insert (blk order a) U)"
      "blk order a \<notin> U" "zone = PMM_ZONE_DMA \<longleftrightarrow> a < k_dma_limit"
proof -
  obtain a s' where a: "alloc_pages_zone_unlocked cpu s order zone = Some (a, s')" and
    r: "if a = 0 then s' = s \<and> (order \<le> PMM_MAX_ORDER \<and> zone < PMM_ZONE_COUNT \<longrightarrow> exhausted s zone order)
     else page_to_phys (a div PAGE_SIZE) = a \<and> pmm_inv s' kend P (insert (blk order a) U) \<and> (\<forall>b \<in> U. span b \<inter> span (blk order a) = {}) \<and>
       (if zone = PMM_ZONE_DMA then unat (a div PAGE_SIZE) < 4096 else 4096 \<le> unat (a div PAGE_SIZE)) \<and>
       get_free_blocks s' = get_free_blocks s - push_bit (unat order) 1"
    using alloc_inv [OF assms, of cpu order zone, unfolded Let_def, folded blk_def exhausted_def] by blast
  show thesis
  proof (cases "a = 0")
    case False
    have "unat (a div PAGE_SIZE) < 4096 \<longleftrightarrow> a < k_dma_limit"
      by (simp add: unat_div word_less_nat_alt div_less_iff_less_mult)
    then have "zone = PMM_ZONE_DMA \<longleftrightarrow> a < k_dma_limit" using r False by (auto split: if_splits)
    moreover have "blk order a \<notin> U" using r False by (auto simp: blk_def span_def)
    ultimately show thesis using that(2) [OF a] r False by (auto simp: page_addr_def)
  qed (use that(1) a r in auto)
qed

text \<open>Pages taken from the allocator in one go.\<close>

definition taken :: "nat \<Rightarrow> nat set \<Rightarrow> block set \<Rightarrow> u32 \<Rightarrow> u32 list \<Rightarrow> pmm \<Rightarrow> bool" where
  "taken kend P U order ps s' \<longleftrightarrow> pmm_inv s' kend P (U \<union> blk order ` set ps) \<and> distinct ps \<and> (\<forall>a \<in> set ps. page_addr a) \<and>
     U \<inter> blk order ` set ps = {}"

lemma alloc_batch_loop_ok:
  assumes "pmm_inv s kend P U" "order \<le> PMM_MAX_ORDER" "zone < PMM_ZONE_COUNT"
  shows "\<exists>ps s'. alloc_batch_loop cpu order zone n s = Some (ps, s') \<and> taken kend P U order ps s' \<and> length ps \<le> n \<and>
    (ps = [] \<longrightarrow> s' = s \<and> (n = 0 \<or> exhausted s zone order)) \<and> (\<forall>a \<in> set ps. zone = PMM_ZONE_DMA \<longleftrightarrow> a < k_dma_limit)"
  using assms(1)
proof (induction n arbitrary: s U)
  case 0
  then show ?case by (simp add: taken_def)
next
  case (Suc n)
  from alloc_unlocked [OF Suc.prems, of cpu order zone] show ?case
  proof cases
    case 1
    then show ?thesis using Suc.prems assms(2,3) by (simp add: taken_def)
  next
    case (2 a s1)
    from Suc.IH [OF 2(3)] obtain ps s' where ps: "alloc_batch_loop cpu order zone n s1 = Some (ps, s')" "length ps \<le> n"
      "taken kend P (insert (blk order a) U) order ps s'" "\<forall>a \<in> set ps. zone = PMM_ZONE_DMA \<longleftrightarrow> a < k_dma_limit" by auto
    have "taken kend P U order (a # ps) s'" using ps(3) 2(2,4) by (auto simp: taken_def Un_commute)
    then show ?thesis using ps 2 by (simp add: page_addr_def)
  qed
qed

lemma taken_append:
  "taken kend P U order ps s \<Longrightarrow> taken kend P (U \<union> blk order ` set ps) order qs s' \<Longrightarrow> taken kend P U order (ps @ qs) s'"
  unfolding taken_def by (auto simp: image_Un Un_assoc)

lemma alloc_pages_batch_ok:
  assumes "pmm_inv s kend P U" "order \<le> PMM_MAX_ORDER" "zone < PMM_ZONE_COUNT" "cap \<noteq> 0"
  shows "\<exists>ps s'. alloc_pages_batch cpu s order zone cap = Some (ps, s') \<and> taken kend P U order ps s' \<and> length ps \<le> unat cap \<and>
    (ps = [] \<longrightarrow> s' = s \<and> exhausted s PMM_ZONE_DMA order \<and> exhausted s PMM_ZONE_NORMAL order)"
proof -
  let ?f = "if zone = PMM_ZONE_NORMAL then PMM_ZONE_DMA else PMM_ZONE_NORMAL"
  have cap: "0 < unat cap" using assms(4) by (simp add: unat_gt_0)
  have z: "zone = PMM_ZONE_DMA \<and> ?f = PMM_ZONE_NORMAL \<or> zone = PMM_ZONE_NORMAL \<and> ?f = PMM_ZONE_DMA"
  proof -
    have "unat zone < 2" using assms(3) by (simp add: word_less_nat_alt)
    then have "unat zone = 0 \<or> unat zone = 1" by linarith
    then show ?thesis by (auto simp: word_unat_eq_iff)
  qed
  from alloc_batch_loop_ok [OF assms(1-3), of cpu "unat cap"] obtain ps s1 where
    1: "alloc_batch_loop cpu order zone (unat cap) s = Some (ps, s1)" "taken kend P U order ps s1" "length ps \<le> unat cap"
      "ps = [] \<longrightarrow> s1 = s \<and> exhausted s zone order" using cap by auto
  have "pmm_inv s1 kend P (U \<union> blk order ` set ps)" "?f < PMM_ZONE_COUNT" using 1(2) by (simp_all add: taken_def)
  from alloc_batch_loop_ok [OF this(1) assms(2) this(2), of cpu "unat cap - length ps"] obtain qs s2 where
    2: "alloc_batch_loop cpu order ?f (unat cap - length ps) s1 = Some (qs, s2)" "taken kend P (U \<union> blk order ` set ps) order qs s2"
      "length qs \<le> unat cap - length ps" "qs = [] \<longrightarrow> s2 = s1 \<and> (unat cap - length ps = 0 \<or> exhausted s1 ?f order)" by blast
  have "alloc_pages_batch cpu s order zone cap = Some (ps @ qs, s2)"
    using 1(1) 2(1) assms(2-4) by (simp add: alloc_pages_batch_def not_le [symmetric] not_less)
  moreover have "ps @ qs = [] \<longrightarrow> s2 = s \<and> exhausted s PMM_ZONE_DMA order \<and> exhausted s PMM_ZONE_NORMAL order"
    using 1(4) 2(4) z cap by auto
  moreover have "length (ps @ qs) \<le> unat cap" using 1(3) 2(3) by simp
  ultimately show ?thesis using taken_append [OF 1(2) 2(2)] by blast
qed

lemma free_all_ok:
  assumes "pmm_inv s kend P U" "distinct ps" "\<forall>a \<in> set ps. page_addr a" "blk order ` set ps \<subseteq> U"
  shows "\<exists>s'. free_all cpu order ps s = Some s' \<and> pmm_inv s' kend P (U - blk order ` set ps)"
  using assms
proof (induction ps arbitrary: s U)
  case (Cons a ps)
  have a: "page_to_phys (a div PAGE_SIZE) = a" using Cons.prems(3) by (intro page_addrD) simp
  have b: "(a div PAGE_SIZE, order) \<in> U" using Cons.prems(4) by (simp add: blk_def)
  obtain s1 where s1: "free_pages_unlocked cpu s a order = Some s1" "pmm_inv s1 kend P (U - {blk order a})"
    using free_inv [OF Cons.prems(1) b, of cpu] unfolding a blk_def by blast
  have "blk order a \<notin> blk order ` set ps" using blk_image [of a "set ps" order] Cons.prems(2,3) by simp
  then have "blk order ` set ps \<subseteq> U - {blk order a}" using Cons.prems(4) by auto
  from Cons.IH [OF s1(2) _ _ this] Cons.prems(2,3) obtain s' where
    "free_all cpu order ps s1 = Some s'" "pmm_inv s' kend P (U - {blk order a} - blk order ` set ps)" by auto
  moreover have "U - {blk order a} - blk order ` set ps = U - blk order ` set (a # ps)" by auto
  ultimately show ?case using s1(1) by simp
qed simp

lemma allocated_page:
  assumes "pmm_inv s kend P U" "(p, k) \<in> U"
  shows "k \<le> PMM_MAX_ORDER" "p < total_pages s" "flags_of s p AND PMM_FLAG_KERNEL = 0" "flags_of s p AND PMM_FLAG_USED \<noteq> 0" "page_to_phys p div PAGE_SIZE = p"
proof -
  obtain F where F: "buddy_ok s F U {}" using assms(1) by (rule pmm_invE)
  show "k \<le> PMM_MAX_ORDER" using tilesD(3) [OF meta_okD(1) [OF buddy_okD(2) [OF F]], of p k] assms(2) by simp
  show "p < total_pages s" "flags_of s p AND PMM_FLAG_KERNEL = 0" "flags_of s p AND PMM_FLAG_USED \<noteq> 0" "page_to_phys p div PAGE_SIZE = p"
    by (rule used_bounds [OF F assms(2)])+
qed

lemma batch_zone_set:
  assumes "pmm_inv s kend P U" "\<forall>a \<in> set ps. page_addr a" "blk order ` set ps \<subseteq> U"
  shows "set (batch_zone s PMM_ZONE_DMA ps) \<union> set (batch_zone s PMM_ZONE_NORMAL ps) = set ps"
    "set (batch_zone s PMM_ZONE_DMA ps) \<inter> set (batch_zone s PMM_ZONE_NORMAL ps) = {}"
proof -
  have "phys_to_page s a = Some (a div PAGE_SIZE)" if "a \<in> set ps" for a
    using allocated_page(2) [OF assms(1), of "a div PAGE_SIZE" order] assms(3) that by (auto simp: phys_to_page_def Let_def blk_def image_subset_iff)
  moreover have "a \<noteq> 0" if "a \<in> set ps" for a using assms(2) that by (simp add: page_addr_def)
  ultimately show "set (batch_zone s PMM_ZONE_DMA ps) \<union> set (batch_zone s PMM_ZONE_NORMAL ps) = set ps"
    by (auto simp: batch_zone_def zone_for_flags_def)
  show "set (batch_zone s PMM_ZONE_DMA ps) \<inter> set (batch_zone s PMM_ZONE_NORMAL ps) = {}"
    by (auto simp: batch_zone_def split: option.splits)
qed

lemma free_pages_batch_ok:
  assumes "pmm_inv s kend P U" "distinct ps" "\<forall>a \<in> set ps. page_addr a" "blk order ` set ps \<subseteq> U" "length ps \<le> 256"
  shows "\<exists>s'. free_pages_batch cpu s order ps = Some s' \<and> pmm_inv s' kend P (U - blk order ` set ps)"
proof (cases "ps = []")
  case True
  then show ?thesis using assms(1) by (simp add: free_pages_batch_def)
next
  case False
  let ?d = "batch_zone s PMM_ZONE_DMA ps" and ?n = "batch_zone s PMM_ZONE_NORMAL ps"
  note b = batch_zone_set [OF assms(1,3,4)]
  have le: "order \<le> PMM_MAX_ORDER" using allocated_page(1) [OF assms(1), of "hd ps div PAGE_SIZE" order] assms(4) hd_in_set [OF False] by (auto simp: blk_def)
  have len: "length ?d \<le> 256" "length ?n \<le> 256" using assms(5) by (auto simp: batch_zone_def intro: order_trans [OF length_filter_le])
  have dist: "distinct ?d" "distinct ?n" using assms(2) by (simp_all add: batch_zone_def)
  have pa: "\<forall>a \<in> set ?d. page_addr a" "\<forall>a \<in> set ?n. page_addr a" "blk order ` set ?d \<subseteq> U" using b(1) assms(3,4) by blast+
  obtain s1 where 1: "free_all cpu order ?d s = Some s1" "pmm_inv s1 kend P (U - blk order ` set ?d)"
    using free_all_ok [OF assms(1) dist(1) pa(1,3)] by blast
  have "blk order ` set ?n \<inter> blk order ` set ?d = {}" using b(2) pa(1,2) blk_inj by (auto 0 3)
  then have "blk order ` set ?n \<subseteq> U - blk order ` set ?d" using b(1) assms(4) by blast
  then obtain s2 where 2: "free_all cpu order ?n s1 = Some s2" "pmm_inv s2 kend P (U - blk order ` set ?d - blk order ` set ?n)"
    using free_all_ok [OF 1(2) dist(2) pa(2)] by blast
  have "U - blk order ` set ?d - blk order ` set ?n = U - blk order ` set ps" using b(1) by blast
  then show ?thesis using 1(1) 2 len leD [OF le] False by (auto simp: free_pages_batch_def Let_def linorder_not_less)
qed

section \<open>The invariant of the caches\<close>

lemma pcp_sizes:
  assumes "k \<le> k_pcp_max_order"
  shows "unat (pcp_capacity k) \<le> 256" "pcp_refill_batch k \<noteq> 0" "unat (pcp_refill_batch k) \<le> unat (pcp_capacity k)"
    "0 < unat (pcp_drain_batch k)" "unat (pcp_drain_batch k) \<le> unat (pcp_capacity k)"
proof -
  have "unat k \<le> 3" using assms by (simp add: word_le_nat_alt)
  then have "unat k = 0 \<or> unat k = 1 \<or> unat k = 2 \<or> unat k = 3" by linarith
  then have "unat (pcp_capacity k) \<le> 256 \<and> pcp_refill_batch k \<noteq> 0 \<and> unat (pcp_refill_batch k) \<le> unat (pcp_capacity k) \<and>
    0 < unat (pcp_drain_batch k) \<and> unat (pcp_drain_batch k) \<le> unat (pcp_capacity k)"
    by (elim disjE) (simp_all add: pcp_capacity_def pcp_refill_batch_def pcp_drain_batch_def)
  then show "unat (pcp_capacity k) \<le> 256" "pcp_refill_batch k \<noteq> 0" "unat (pcp_refill_batch k) \<le> unat (pcp_capacity k)"
    "0 < unat (pcp_drain_batch k)" "unat (pcp_drain_batch k) \<le> unat (pcp_capacity k)" by blast+
qed

text \<open>The addresses on a list, the top last.\<close>

definition stack :: "order_list \<Rightarrow> u32 list" where
  "stack l = take (unat (ol_count l)) (phys_pages l)"

definition ol_ok :: "u32 \<Rightarrow> order_list \<Rightarrow> bool" where
  "ol_ok k l \<longleftrightarrow> k \<le> k_pcp_max_order \<and> length (phys_pages l) = 256 \<and> ol_count l \<le> pcp_capacity k"

lemma ol_okD:
  assumes "ol_ok k l"
  shows "k \<le> k_pcp_max_order" "length (phys_pages l) = 256" "unat (ol_count l) \<le> unat (pcp_capacity k)" "unat (ol_count l) \<le> 256"
    "length (stack l) = unat (ol_count l)"
proof -
  show *: "k \<le> k_pcp_max_order" "length (phys_pages l) = 256" "unat (ol_count l) \<le> unat (pcp_capacity k)"
    using assms by (simp_all add: ol_ok_def word_le_nat_alt)
  show "unat (ol_count l) \<le> 256" using *(3) pcp_sizes(1) [OF *(1)] by linarith
  then show "length (stack l) = unat (ol_count l)" using *(2) by (simp add: stack_def)
qed

lemma stack_shrink:
  assumes "ol_ok k l" "n \<le> ol_count l"
  shows "ol_ok k (l\<lparr>ol_count := ol_count l - n\<rparr>)" "stack (l\<lparr>ol_count := ol_count l - n\<rparr>) = take (unat (ol_count l) - unat n) (stack l)"
proof -
  have n: "unat (ol_count l - n) = unat (ol_count l) - unat n" using assms(2) by (simp add: unat_sub_no_underflow word_le_nat_alt)
  then show "ol_ok k (l\<lparr>ol_count := ol_count l - n\<rparr>)" using assms(1) by (auto simp: ol_ok_def word_le_nat_alt)
  show "stack (l\<lparr>ol_count := ol_count l - n\<rparr>) = take (unat (ol_count l) - unat n) (stack l)" by (simp add: stack_def n min_def)
qed

lemma pcp_push_ok:
  assumes "ol_ok k l" "ol_count l < pcp_capacity k"
  shows "\<exists>l'. pcp_push a l = Some l' \<and> ol_ok k l' \<and> stack l' = stack l @ [a] \<and> ol_count l' = ol_count l + 1"
proof -
  note o = ol_okD [OF assms(1)]
  have lt: "unat (ol_count l) < unat (pcp_capacity k)" using assms(2) by (simp add: word_less_nat_alt)
  then have "unat (ol_count l) < 256" using pcp_sizes(1) [OF o(1)] by linarith
  moreover from this have u: "unat (ol_count l + 1) = Suc (unat (ol_count l))" by (simp add: unat_add_no_overflow)
  ultimately have p: "pcp_push a l = Some \<lparr>ol_count = ol_count l + 1, phys_pages = (phys_pages l)[unat (ol_count l) := a]\<rparr>"
    and "take (Suc (unat (ol_count l))) ((phys_pages l)[unat (ol_count l) := a]) = take (unat (ol_count l)) (phys_pages l) @ [a]"
    using o(2) by (simp_all add: pcp_push_def take_Suc_conv_app_nth)
  then show ?thesis using assms(1) lt u by (simp add: ol_ok_def stack_def word_le_nat_alt)
qed

lemma pcp_refill_ok:
  assumes "ol_ok k l" "unat (ol_count l) + length bs \<le> unat (pcp_capacity k)"
  shows "\<exists>l'. pcp_refill k bs l = Some l' \<and> ol_ok k l' \<and> stack l' = stack l @ bs"
  using assms
proof (induction bs arbitrary: l)
  case (Cons b bs)
  have lt: "ol_count l < pcp_capacity k" using Cons.prems(2) by (simp add: word_less_nat_alt)
  from pcp_push_ok [OF Cons.prems(1) this, of b] obtain l' where
    l': "pcp_push b l = Some l'" "ol_ok k l'" "stack l' = stack l @ [b]" "ol_count l' = ol_count l + 1" by blast
  have "unat (ol_count l') = Suc (unat (ol_count l))" using ol_okD(5) [OF l'(2)] ol_okD(5) [OF Cons.prems(1)] l'(3) by simp
  then show ?case using Cons.IH [OF l'(2)] Cons.prems(2) lt l'(1,3) by simp
qed simp

lemma drain_batch_ok:
  assumes "ol_ok k l" "d \<le> ol_count l"
  shows "those (map (\<lambda>i. get_at (phys_pages l) (unat (ol_count l - 1 - word_of_nat i))) [0..<unat d]) =
    Some (rev (drop (unat (ol_count l) - unat d) (stack l)))"
proof -
  note o = ol_okD [OF assms(1)]
  have those_Some: "those (map (\<lambda>i. Some (f i)) xs) = Some (map f xs)" for f :: "nat \<Rightarrow> u32" and xs by (induction xs) simp_all
  have d: "unat d \<le> unat (ol_count l)" using assms(2) by (simp add: word_le_nat_alt)
  have "get_at (phys_pages l) (unat (ol_count l - 1 - word_of_nat i)) = Some (stack l ! (unat (ol_count l) - 1 - i))" if "i < unat d" for i
  proof -
    have i: "unat (word_of_nat i :: u32) = i" using that d o(4) by (simp add: unat_of_nat take_bit_nat_eq_self)
    have "unat (ol_count l - 1) = unat (ol_count l) - 1" using that d by (subst unat_sub_no_underflow) (simp_all add: word_le_nat_alt)
    then have "unat (ol_count l - 1 - word_of_nat i) = unat (ol_count l) - 1 - i"
      using that d i by (subst unat_sub_no_underflow) (auto simp: word_le_nat_alt)
    then show ?thesis using that d o(2,4) by (simp add: stack_def)
  qed
  then have "those (map (\<lambda>i. get_at (phys_pages l) (unat (ol_count l - 1 - word_of_nat i))) [0..<unat d]) =
      Some (map (\<lambda>i. stack l ! (unat (ol_count l) - 1 - i)) [0..<unat d])"
    unfolding those_Some [symmetric] by (intro arg_cong [where f = those] map_cong) auto
  moreover have "map (\<lambda>i. stack l ! (unat (ol_count l) - 1 - i)) [0..<unat d] = rev (drop (unat (ol_count l) - unat d) (stack l))"
    using d o(5) by (intro nth_equalityI) (auto simp: rev_nth)
  ultimately show ?thesis by simp
qed

text \<open>The caches of the processors: \<open>slot\<close> are the lists there are, \<open>cached\<close> the blocks on them.\<close>

definition slot :: "nat \<Rightarrow> u32 \<Rightarrow> u32 \<Rightarrow> bool" where
  "slot c z k \<longleftrightarrow> c < MAX_CPUS \<and> z < PMM_ZONE_COUNT \<and> k \<le> k_pcp_max_order"

definition list_ok :: "u32 \<Rightarrow> order_list \<Rightarrow> bool" where
  "list_ok k l \<longleftrightarrow> ol_ok k l \<and> distinct (stack l) \<and> (\<forall>a \<in> set (stack l). page_addr a)"

definition on_list :: "pmm_state \<Rightarrow> nat \<Rightarrow> u32 \<Rightarrow> u32 \<Rightarrow> block set" where
  "on_list st c z k = blk k ` set (stack (pcp_caches st c z k))"

definition cached :: "pmm_state \<Rightarrow> block set" where
  "cached st = {b. \<exists>c z k. slot c z k \<and> b \<in> on_list st c z k}"

definition caches_ok :: "pmm_state \<Rightarrow> bool" where
  "caches_ok st \<longleftrightarrow> (\<forall>c z k. slot c z k \<longrightarrow> list_ok k (pcp_caches st c z k)) \<and>
     (\<forall>c z k c' z' k' b. slot c z k \<longrightarrow> slot c' z' k' \<longrightarrow> b \<in> on_list st c z k \<longrightarrow> b \<in> on_list st c' z' k' \<longrightarrow> c = c' \<and> z = z' \<and> k = k')"

definition pcp_inv :: "pmm_state \<Rightarrow> nat \<Rightarrow> nat set \<Rightarrow> block set \<Rightarrow> bool" where
  "pcp_inv st kend P H \<longleftrightarrow> pmm_inv (core st) kend P (H \<union> cached st) \<and> H \<inter> cached st = {} \<and> caches_ok st"

lemma pcp_invD:
  assumes "pcp_inv st kend P H"
  shows "pmm_inv (core st) kend P (H \<union> cached st)" "H \<inter> cached st = {}" "caches_ok st" "slot c z k \<Longrightarrow> list_ok k (pcp_caches st c z k)"
    "slot c z k \<Longrightarrow> on_list st c z k \<subseteq> cached st"
  using assms by (auto simp: pcp_inv_def caches_ok_def cached_def)

lemma slot_cpu: "z < PMM_ZONE_COUNT \<Longrightarrow> k \<le> k_pcp_max_order \<Longrightarrow> slot (pcp_cpu_index cpu) z k"
  using pcp_cpu_index_less by (simp add: slot_def)

text \<open>Replacing one list; every operation on a cache is such a step.\<close>

lemma pcp_inv_upd:
  assumes inv: "pcp_inv st kend P H" and s: "slot c z k" and l: "list_ok k l"
    and st': "pcp_caches st' = (\<lambda>c' z' k'. if c' = c \<and> z' = z \<and> k' = k then l else pcp_caches st c' z' k')"
    and rest: "C = cached st - on_list st c z k" "blk k ` set (stack l) \<inter> C = {}"
    and core: "pmm_inv (core st') kend P (H' \<union> (C \<union> blk k ` set (stack l)))" "H' \<inter> (C \<union> blk k ` set (stack l)) = {}"
  shows "pcp_inv st' kend P H'"
proof -
  have on: "on_list st' c' z' k' = (if c' = c \<and> z' = z \<and> k' = k then blk k ` set (stack l) else on_list st c' z' k')" for c' z' k'
    by (simp add: on_list_def st')
  have sep: "c = c' \<and> z = z' \<and> k = k'" if "slot c z k" "slot c' z' k'" "b \<in> on_list st c z k" "b \<in> on_list st c' z' k'" for c z k c' z' k' b
    using pcp_invD(3) [OF inv] that unfolding caches_ok_def by blast
  have other: "on_list st c' z' k' \<subseteq> C" if "slot c' z' k'" "\<not> (c' = c \<and> z' = z \<and> k' = k)" for c' z' k'
    using sep [OF s that(1)] that pcp_invD(5) [OF inv that(1)] unfolding rest(1) by blast
  have "cached st' = C \<union> blk k ` set (stack l)"
  proof (intro equalityI subsetI)
    fix b assume "b \<in> cached st'"
    then obtain c' z' k' where b: "slot c' z' k'" "b \<in> on_list st' c' z' k'" by (auto simp: cached_def)
    then show "b \<in> C \<union> blk k ` set (stack l)" using other [OF b(1)] on [of c' z' k'] by (auto split: if_splits)
  next
    fix b assume "b \<in> C \<union> blk k ` set (stack l)"
    then consider "b \<in> C" | "b \<in> on_list st' c z k" using on [of c z k] by auto
    then show "b \<in> cached st'"
    proof cases
      case 1
      then obtain c' z' k' where b: "slot c' z' k'" "b \<in> on_list st c' z' k'" "b \<notin> on_list st c z k" by (auto simp: cached_def rest(1))
      then have "b \<in> on_list st' c' z' k'" using on [of c' z' k'] by auto
      then show ?thesis using b(1) by (auto simp: cached_def)
    qed (use s in \<open>auto simp: cached_def\<close>)
  qed
  moreover have "caches_ok st'"
    unfolding caches_ok_def
  proof (intro conjI allI impI)
    show "list_ok k' (pcp_caches st' c' z' k')" if "slot c' z' k'" for c' z' k'
      using pcp_invD(4) [OF inv that] l by (simp add: st')
    fix c1 z1 k1 c2 z2 k2 b
    assume a: "slot c1 z1 k1" "slot c2 z2 k2" "b \<in> on_list st' c1 z1 k1" "b \<in> on_list st' c2 z2 k2"
    have "(c1 = c \<and> z1 = z \<and> k1 = k) = (c2 = c \<and> z2 = z \<and> k2 = k)"
      using a(3,4) other [OF a(1)] other [OF a(2)] rest(2) unfolding on by (auto split: if_splits)
    then show "c1 = c2" "z1 = z2" "k1 = k2" using a(3,4) sep [OF a(1,2)] unfolding on by (auto split: if_splits)
  qed
  ultimately show ?thesis using core by (simp add: pcp_inv_def)
qed

section \<open>Allocation and freeing\<close>

lemma pcp_inv_order: "pcp_inv st kend P H \<Longrightarrow> (p, k) \<in> H \<Longrightarrow> k \<le> PMM_MAX_ORDER"
  using allocated_page(1) pcp_invD(1) by blast

lemma caches_set_pcp [simp]: "pcp_caches (set_pcp_list cpu z k l st) =
    (\<lambda>c' z' k'. if c' = pcp_cpu_index cpu \<and> z' = z \<and> k' = k then l else pcp_caches st c' z' k')"
  "core (set_pcp_list cpu z k l st) = core st"
  by (simp_all add: set_pcp_list_def)

lemma pcp_alloc_ok:
  assumes inv: "pcp_inv st kend P H" and z: "z < PMM_ZONE_COUNT" and k: "k \<le> k_pcp_max_order"
  shows "\<exists>a st'. pcp_alloc_from_cache cpu st z k = Some (a, st') \<and>
    (if a = 0 then st' = st \<and> exhausted (core st) PMM_ZONE_DMA k \<and> exhausted (core st) PMM_ZONE_NORMAL k \<and> ol_count (pcp_list cpu st z k) = 0
     else page_addr a \<and> blk k a \<notin> H \<and> pcp_inv st' kend P (insert (blk k a) H))"
proof -
  let ?c = "pcp_cpu_index cpu"
  define l where "l = pcp_list cpu st z k"
  note s = slot_cpu [OF z k, of cpu] and D = pcp_invD [OF inv]
  have l: "ol_ok k l" "distinct (stack l)" "\<forall>a \<in> set (stack l). page_addr a"
    using D(4) [OF s] by (simp_all add: list_ok_def l_def pcp_list_def)
  have on: "on_list st ?c z k = blk k ` set (stack l)" by (simp add: on_list_def l_def pcp_list_def)
  show ?thesis
  proof (cases "ol_count l > 0")
    case True
    let ?l = "l\<lparr>ol_count := ol_count l - 1\<rparr>"
    have pos: "0 < unat (ol_count l)" using True by (simp add: word_gt_0 unat_gt_0)
    then have le: "1 \<le> ol_count l" by (simp add: word_le_nat_alt)
    obtain a xs where xs: "stack l = xs @ [a]" using pos ol_okD(5) [OF l(1)] by (cases "stack l" rule: rev_cases) auto
    have n: "unat (ol_count l) = Suc (length xs)" using ol_okD(5) [OF l(1)] xs by simp
    then have st': "stack ?l = xs" using stack_shrink(2) [OF l(1) le] xs by simp
    have "unat (ol_count l - 1) = length xs" using n le by (simp add: unat_sub_no_underflow)
    moreover have "phys_pages l ! length xs = a" using xs n unfolding stack_def by (metis lessI nth_append_length nth_take)
    ultimately have eq: "pcp_alloc_from_cache cpu st z k = Some (a, set_pcp_list cpu z k ?l st)"
      using True n ol_okD(2,4) [OF l(1)] by (simp add: pcp_alloc_from_cache_def l_def [symmetric])
    have a: "page_addr a" "a \<noteq> 0" "blk k a \<notin> blk k ` set xs" "blk k a \<in> cached st" "list_ok k ?l"
      using l xs st' blk_image [of a "set xs" k] D(5) [OF s] on stack_shrink(1) [OF l(1) le] by (auto simp: page_addr_def list_ok_def)
    have "pcp_inv (set_pcp_list cpu z k ?l st) kend P (insert (blk k a) H)"
    proof (rule pcp_inv_upd [OF inv s a(5) _ refl])
      have "insert (blk k a) H \<union> (cached st - on_list st ?c z k \<union> blk k ` set (stack ?l)) = H \<union> cached st"
        using D(5) [OF s] a(4) unfolding on st' xs by auto
      then show "pmm_inv (core (set_pcp_list cpu z k ?l st)) kend P (insert (blk k a) H \<union> (cached st - on_list st ?c z k \<union> blk k ` set (stack ?l)))"
        using D(1) by simp
      show "insert (blk k a) H \<inter> (cached st - on_list st ?c z k \<union> blk k ` set (stack ?l)) = {}"
        using D(2) D(5) [OF s] a(3) unfolding on st' xs by auto
    qed (simp_all add: on st' xs, blast)
    then show ?thesis using eq a(1,2,4) D(2) by auto
  next
    case False
    then have l0: "stack l = []" "ol_count l = 0" by (simp_all add: stack_def word_gt_0)
    have "k \<le> PMM_MAX_ORDER" using k by (rule order_trans) simp
    from alloc_pages_batch_ok [OF D(1) this z pcp_sizes(2) [OF k], of cpu] obtain ps s' where
      ps: "alloc_pages_batch cpu (core st) k z (pcp_refill_batch k) = Some (ps, s')" "taken kend P (H \<union> cached st) k ps s'"
      "length ps \<le> unat (pcp_refill_batch k)"
      "ps = [] \<longrightarrow> s' = core st \<and> exhausted (core st) PMM_ZONE_DMA k \<and> exhausted (core st) PMM_ZONE_NORMAL k" by blast
    show ?thesis
    proof (cases ps)
      case Nil
      then show ?thesis using ps(1,4) False l0(2) by (simp add: pcp_alloc_from_cache_def l_def [symmetric])
    next
      case (Cons b bs)
      have "unat (ol_count l) + length bs \<le> unat (pcp_capacity k)" using Cons ps(3) pcp_sizes(3) [OF k] l0(2) by simp
      from pcp_refill_ok [OF l(1) this] obtain l' where l': "pcp_refill k bs l = Some l'" "ol_ok k l'" "stack l' = bs" using l0(1) by auto
      let ?st = "set_pcp_list cpu z k l' (st\<lparr>core := s'\<rparr>)"
      have eq: "pcp_alloc_from_cache cpu st z k = Some (b, ?st)"
        using ps(1) False l'(1) Cons by (simp add: pcp_alloc_from_cache_def l_def [symmetric])
      have t: "pmm_inv s' kend P (H \<union> cached st \<union> blk k ` set (b # bs))" "distinct (b # bs)" "\<forall>a \<in> set (b # bs). page_addr a"
        "(H \<union> cached st) \<inter> blk k ` set (b # bs) = {}" using ps(2) unfolding taken_def Cons by blast+
      have b: "blk k b \<notin> blk k ` set bs" "b \<noteq> 0" using blk_image [of b "set bs" k] t(2,3) by (simp_all add: page_addr_def)
      have "pcp_inv ?st kend P (insert (blk k b) H)"
      proof (rule pcp_inv_upd [OF inv s _ _ refl])
        show "list_ok k l'" using l' t(2,3) by (simp add: list_ok_def)
        have "insert (blk k b) H \<union> (cached st - on_list st ?c z k \<union> blk k ` set (stack l')) = H \<union> cached st \<union> blk k ` set (b # bs)"
          unfolding on l0 l'(3) by auto
        then show "pmm_inv (core ?st) kend P (insert (blk k b) H \<union> (cached st - on_list st ?c z k \<union> blk k ` set (stack l')))" using t(1) by simp
        show "insert (blk k b) H \<inter> (cached st - on_list st ?c z k \<union> blk k ` set (stack l')) = {}" using D(2) t(4) b(1) l'(3) by auto
        show "blk k ` set (stack l') \<inter> (cached st - on_list st ?c z k) = {}" using t(4) l'(3) by auto
      qed (simp cong: if_cong)
      then show ?thesis using eq b(2) t(3,4) by auto
    qed
  qed
qed

text \<open>Giving back the pages above a part of a list.\<close>

lemma pcp_shrink_ok:
  assumes inv: "pcp_inv st kend P H" and s: "slot c z k" and d: "d \<le> ol_count (pcp_caches st c z k)"
    and ps: "set ps = set (drop (unat (ol_count (pcp_caches st c z k)) - unat d) (stack (pcp_caches st c z k)))" "distinct ps"
  obtains s' where "free_pages_batch cpu (core st) k ps = Some s'"
    "\<And>st'. core st' = s' \<Longrightarrow> pcp_caches st' = (\<lambda>c' z' k'. if c' = c \<and> z' = z \<and> k' = k
       then (pcp_caches st c z k)\<lparr>ol_count := ol_count (pcp_caches st c z k) - d\<rparr> else pcp_caches st c' z' k') \<Longrightarrow> pcp_inv st' kend P H"
proof -
  let ?l = "pcp_caches st c z k"
  define n where "n = unat (ol_count ?l) - unat d"
  note D = pcp_invD [OF inv]
  have l: "ol_ok k ?l" "distinct (stack ?l)" "\<forall>a \<in> set (stack ?l). page_addr a" using D(4) [OF s] by (simp_all add: list_ok_def)
  note sh = stack_shrink [OF l(1) d, folded n_def]
  have split: "set (stack ?l) = set (take n (stack ?l)) \<union> set ps" unfolding ps(1) n_def [symmetric] by (metis append_take_drop_id set_append)
  have disj: "set (take n (stack ?l)) \<inter> set ps = {}"
    unfolding ps(1) n_def [symmetric] using l(2) by (metis append_take_drop_id distinct_append)
  have b: "blk k ` set (take n (stack ?l)) \<inter> blk k ` set ps = {}"
    using disj split l(3) blk_inj by (auto 0 3)
  have on: "on_list st c z k = blk k ` set (take n (stack ?l)) \<union> blk k ` set ps" unfolding on_list_def split image_Un ..
  have len: "length ps \<le> 256"
    using distinct_card [OF ps(2)] card_length [of "stack ?l"] card_mono [of "set (stack ?l)" "set ps"] split ol_okD(4,5) [OF l(1)] by auto
  have sub: "blk k ` set ps \<subseteq> H \<union> cached st" using on D(5) [OF s] by auto
  from free_pages_batch_ok [OF D(1) ps(2) _ sub len, of cpu] obtain s' where
    s': "free_pages_batch cpu (core st) k ps = Some s'" "pmm_inv s' kend P (H \<union> cached st - blk k ` set ps)" using split l(3) by auto
  show thesis
  proof (rule that [OF s'(1)])
    fix st' :: pmm_state
    assume st': "core st' = s'" "pcp_caches st' = (\<lambda>c' z' k'. if c' = c \<and> z' = z \<and> k' = k
       then ?l\<lparr>ol_count := ol_count ?l - d\<rparr> else pcp_caches st c' z' k')"
    let ?new = "blk k ` set (stack (?l\<lparr>ol_count := ol_count ?l - d\<rparr>))"
    show "pcp_inv st' kend P H"
    proof (rule pcp_inv_upd [OF inv s _ st'(2) refl])
      show "list_ok k (?l\<lparr>ol_count := ol_count ?l - d\<rparr>)"
        using sh l by (auto simp: list_ok_def dest: in_set_takeD)
      show "?new \<inter> (cached st - on_list st c z k) = {}" unfolding sh(2) on by auto
      have "H \<union> (cached st - on_list st c z k \<union> ?new) = H \<union> cached st - blk k ` set ps"
        using b D(2) D(5) [OF s] unfolding sh(2) on by auto
      then show "pmm_inv (core st') kend P (H \<union> (cached st - on_list st c z k \<union> ?new))" using s'(2) st'(1) by simp
      show "H \<inter> (cached st - on_list st c z k \<union> ?new) = {}" using D(2) D(5) [OF s] unfolding sh(2) on by auto
    qed
  qed
qed

lemma pcp_push_inv:
  assumes inv: "pcp_inv st kend P H" and s: "slot (pcp_cpu_index cpu) z k" and a: "blk k a \<in> H" "page_addr a"
    and lt: "ol_count (pcp_list cpu st z k) < pcp_capacity k"
  shows "\<exists>l. pcp_push a (pcp_list cpu st z k) = Some l \<and> pcp_inv (set_pcp_list cpu z k l st) kend P (H - {blk k a})"
proof -
  let ?c = "pcp_cpu_index cpu" and ?l = "pcp_list cpu st z k"
  note D = pcp_invD [OF inv]
  have l: "ol_ok k ?l" "distinct (stack ?l)" "\<forall>a \<in> set (stack ?l). page_addr a"
    using D(4) [OF s] by (simp_all add: list_ok_def pcp_list_def)
  have on: "on_list st ?c z k = blk k ` set (stack ?l)" by (simp add: on_list_def pcp_list_def)
  from pcp_push_ok [OF l(1) lt, of a] obtain l' where l': "pcp_push a ?l = Some l'" "ol_ok k l'" "stack l' = stack ?l @ [a]" by blast
  have new: "blk k a \<notin> cached st" using D(2) a(1) by blast
  then have "a \<notin> set (stack ?l)" using D(5) [OF s] on by auto
  have "pcp_inv (set_pcp_list cpu z k l' st) kend P (H - {blk k a})"
  proof (rule pcp_inv_upd [OF inv s _ _ refl])
    show "list_ok k l'" using l l' a(2) \<open>a \<notin> set (stack ?l)\<close> by (simp add: list_ok_def)
    show "blk k ` set (stack l') \<inter> (cached st - on_list st ?c z k) = {}" using new unfolding l'(3) on by auto
    have "H - {blk k a} \<union> (cached st - on_list st ?c z k \<union> blk k ` set (stack l')) = H \<union> cached st"
      using D(5) [OF s] a(1) unfolding l'(3) on by auto
    then show "pmm_inv (core (set_pcp_list cpu z k l' st)) kend P (H - {blk k a} \<union> (cached st - on_list st ?c z k \<union> blk k ` set (stack l')))"
      using D(1) by simp
    show "(H - {blk k a}) \<inter> (cached st - on_list st ?c z k \<union> blk k ` set (stack l')) = {}"
      using D(2) D(5) [OF s] unfolding l'(3) on by auto
  qed simp
  then show ?thesis using l'(1) by blast
qed

lemma set_pcp_twice: "set_pcp_list cpu z k l (set_pcp_list cpu z k l' st) = set_pcp_list cpu z k l st"
  by (simp add: set_pcp_list_def fun_eq_iff cong: if_cong)

lemma pcp_list_set [simp]: "pcp_list cpu (set_pcp_list cpu z k l st) z k = l"
  by (simp add: pcp_list_def)

lemma pcp_free_ok:
  assumes inv: "pcp_inv st kend P H" and z: "z < PMM_ZONE_COUNT" and k: "k \<le> k_pcp_max_order" and a: "blk k a \<in> H" "page_addr a"
  shows "\<exists>st'. pcp_free_to_cache cpu st z k a = Some st' \<and> pcp_inv st' kend P (H - {blk k a})"
proof -
  let ?l = "pcp_list cpu st z k"
  note s = slot_cpu [OF z k, of cpu]
  have l: "ol_ok k ?l" "distinct (stack ?l)" using pcp_invD(4) [OF inv s] by (simp_all add: list_ok_def pcp_list_def)
  show ?thesis
  proof (cases "ol_count ?l < pcp_capacity k")
    case True
    then show ?thesis using pcp_push_inv [OF inv s a True] by (auto simp: pcp_free_to_cache_def Let_def)
  next
    case False
    let ?d = "pcp_drain_batch k"
    let ?l' = "?l\<lparr>ol_count := ol_count ?l - ?d\<rparr>"
    note sz = pcp_sizes [OF k] and o = ol_okD [OF l(1)]
    have full: "ol_count ?l = pcp_capacity k" using False l(1) by (simp add: ol_ok_def)
    then have d: "?d \<le> ol_count ?l" using sz(5) by (simp add: word_le_nat_alt)
    define ps where "ps = rev (drop (unat (ol_count ?l) - unat ?d) (stack ?l))"
    have "set ps = set (drop (unat (ol_count ?l) - unat ?d) (stack ?l))" "distinct ps" using l(2) by (simp_all add: ps_def)
    from pcp_shrink_ok [OF inv s d [unfolded pcp_list_def] this [unfolded pcp_list_def], of cpu] obtain s' where
      s': "free_pages_batch cpu (core st) k ps = Some s'"
      "\<And>st'. core st' = s' \<Longrightarrow> pcp_caches st' = (\<lambda>c' z' k'. if c' = pcp_cpu_index cpu \<and> z' = z \<and> k' = k
         then ?l' else pcp_caches st c' z' k') \<Longrightarrow> pcp_inv st' kend P H"
      unfolding pcp_list_def [symmetric] by blast
    let ?st = "set_pcp_list cpu z k ?l' (st\<lparr>core := s'\<rparr>)"
    have inv': "pcp_inv ?st kend P H" by (rule s'(2)) (simp_all cong: if_cong)
    have dr: "pcp_cache_drain cpu (core st) k ?l = Some (?l', s')"
      using False s'(1) d drain_batch_ok [OF l(1) d] by (auto simp: pcp_cache_drain_def ps_def)
    have lt: "ol_count ?l' < pcp_capacity k"
      using d sz(4) full by (simp add: word_less_nat_alt word_le_nat_alt unat_sub_no_underflow)
    then have "ol_count (pcp_list cpu ?st z k) < pcp_capacity k" by simp
    from pcp_push_inv [OF inv' s a this] obtain l2 where
      l2: "pcp_push a ?l' = Some l2" "pcp_inv (set_pcp_list cpu z k l2 ?st) kend P (H - {blk k a})" by auto
    have "pcp_free_to_cache cpu st z k a = Some (set_pcp_list cpu z k l2 (st\<lparr>core := s'\<rparr>))"
      using dr lt l2(1) full by (simp add: pcp_free_to_cache_def Let_def)
    then show ?thesis using l2(2) unfolding set_pcp_twice by blast
  qed
qed

text \<open>The core alone.\<close>

lemma pcp_inv_core:
  assumes "pcp_inv st kend P H" "pmm_inv s kend P (H' \<union> cached st)" "H' \<inter> cached st = {}"
  shows "pcp_inv (st\<lparr>core := s\<rparr>) kend P H'"
proof -
  have "cached (st\<lparr>core := s\<rparr>) = cached st" "caches_ok (st\<lparr>core := s\<rparr>) = caches_ok st"
    by (simp_all add: cached_def caches_ok_def on_list_def)
  then show ?thesis using assms by (simp add: pcp_inv_def)
qed

lemma alloc_pages_zone_cached: "z < PMM_ZONE_COUNT \<Longrightarrow> k \<le> k_pcp_max_order \<Longrightarrow> alloc_pages_zone cpu st k z = pcp_alloc_from_cache cpu st z k"
  by (auto simp: alloc_pages_zone_def)

lemma alloc_pages_zone_ok:
  assumes inv: "pcp_inv st kend P H" and z: "z < PMM_ZONE_COUNT"
  shows "\<exists>a st'. alloc_pages_zone cpu st k z = Some (a, st') \<and>
    (if a = 0 then st' = st \<and> (k \<le> PMM_MAX_ORDER \<longrightarrow> exhausted (core st) z k)
     else page_addr a \<and> blk k a \<notin> H \<and> pcp_inv st' kend P (insert (blk k a) H))"
proof (cases "k \<le> k_pcp_max_order")
  case True
  have "z = PMM_ZONE_DMA \<or> z = PMM_ZONE_NORMAL" using z by (auto simp: word_less_nat_alt word_unat_eq_iff)
  moreover obtain a st' where "pcp_alloc_from_cache cpu st z k = Some (a, st')"
    "if a = 0 then st' = st \<and> exhausted (core st) PMM_ZONE_DMA k \<and> exhausted (core st) PMM_ZONE_NORMAL k \<and> ol_count (pcp_list cpu st z k) = 0
     else page_addr a \<and> blk k a \<notin> H \<and> pcp_inv st' kend P (insert (blk k a) H)"
    using pcp_alloc_ok [OF inv z True, of cpu] by blast
  ultimately show ?thesis unfolding alloc_pages_zone_cached [OF z True] by (auto split: if_splits)
next
  case False
  note D = pcp_invD [OF inv] and z' = z [folded not_le]
  from D(1) show ?thesis
  proof (cases rule: alloc_unlocked [of _ _ _ _ cpu k z])
    case 1
    then show ?thesis using False z' by (simp add: alloc_pages_zone_def)
  next
    case (2 a s')
    have "pcp_inv (st\<lparr>core := s'\<rparr>) kend P (insert (blk k a) H)"
      by (rule pcp_inv_core [OF inv]) (use 2 D(2) in auto)
    then show ?thesis using 2 False z' by (simp add: alloc_pages_zone_def page_addr_def)
  qed
qed

lemma alloc_pages_ok:
  assumes inv: "pcp_inv st kend P H"
  shows "\<exists>a st'. alloc_pages cpu st k = Some (a, st') \<and>
    (if a = 0 then st' = st \<and> (k \<le> PMM_MAX_ORDER \<longrightarrow> exhausted (core st) PMM_ZONE_DMA k \<and> exhausted (core st) PMM_ZONE_NORMAL k)
     else page_addr a \<and> blk k a \<notin> H \<and> pcp_inv st' kend P (insert (blk k a) H))"
proof -
  have eq: "alloc_pages cpu st k = do {
      (p, st) \<leftarrow> alloc_pages_zone cpu st k PMM_ZONE_NORMAL;
      if p \<noteq> 0 then Some (p, st) else alloc_pages_zone cpu st k PMM_ZONE_DMA }"
    by (cases "k \<le> k_pcp_max_order") (simp_all add: alloc_pages_def alloc_pages_zone_cached cong: if_cong)
  have z: "PMM_ZONE_NORMAL < PMM_ZONE_COUNT" "PMM_ZONE_DMA < PMM_ZONE_COUNT" by simp_all
  obtain a st' where a: "alloc_pages_zone cpu st k PMM_ZONE_NORMAL = Some (a, st')"
    "if a = 0 then st' = st \<and> (k \<le> PMM_MAX_ORDER \<longrightarrow> exhausted (core st) PMM_ZONE_NORMAL k)
     else page_addr a \<and> blk k a \<notin> H \<and> pcp_inv st' kend P (insert (blk k a) H)"
    using alloc_pages_zone_ok [OF inv z(1), of cpu k] by blast
  obtain b st2 where b: "alloc_pages_zone cpu st k PMM_ZONE_DMA = Some (b, st2)"
    "if b = 0 then st2 = st \<and> (k \<le> PMM_MAX_ORDER \<longrightarrow> exhausted (core st) PMM_ZONE_DMA k)
     else page_addr b \<and> blk k b \<notin> H \<and> pcp_inv st2 kend P (insert (blk k b) H)"
    using alloc_pages_zone_ok [OF inv z(2), of cpu k] by blast
  show ?thesis
  proof (cases "a = 0")
    case True
    then have "alloc_pages cpu st k = Some (b, st2)" unfolding eq using a b(1) by simp
    then show ?thesis using b(2) a(2) True by (simp split: if_splits)
  next
    case False
    then have "alloc_pages cpu st k = Some (a, st')" unfolding eq using a by simp
    then show ?thesis using a(2) False by simp
  qed
qed

lemma free_pages_ok:
  assumes inv: "pcp_inv st kend P H" and b: "(p, k) \<in> H"
  shows "\<exists>st'. free_pages cpu st (page_to_phys p) k = Some st' \<and> pcp_inv st' kend P (H - {(p, k)})"
proof -
  note D = pcp_invD [OF inv]
  have bU: "(p, k) \<in> H \<union> cached st" using b by simp
  note u = allocated_page [OF D(1) bU]
  obtain F where F: "paged (core st) kend" "0 < kend \<or> total_pages (core st) = 0" using D(1) by (rule pmm_invE)
  have "p \<noteq> 0" using u(2,3) pagedD(2) [OF F(1) u(2)] F(2) by auto
  then have a: "page_to_phys p \<noteq> 0" "page_addr (page_to_phys p)" "blk k (page_to_phys p) = (p, k)"
    using u(5) by (auto simp: page_addr_def blk_def)
  have pg: "phys_to_page (core st) (page_to_phys p) = Some p" using u(2,5) by (auto simp: phys_to_page_def Let_def)
  show ?thesis
  proof (cases "k \<le> k_pcp_max_order")
    case True
    have "zone_for_flags (flags_of (core st) p) < PMM_ZONE_COUNT" by (simp add: zone_for_flags_def)
    from pcp_free_ok [OF inv this True _ a(2), of cpu] show ?thesis
      using pg a(1,3) b u leD [OF u(1)] True by (simp add: free_pages_def get_page_def)
  next
    case False
    obtain s' where s': "free_pages_unlocked cpu (core st) (page_to_phys p) k = Some s'" "pmm_inv s' kend P (H \<union> cached st - {(p, k)})"
      using free_inv [OF D(1) bU, of cpu] by blast
    have "H - {(p, k)} \<union> cached st = H \<union> cached st - {(p, k)}" using D(2) b by auto
    then have "pcp_inv (st\<lparr>core := s'\<rparr>) kend P (H - {(p, k)})" by (intro pcp_inv_core [OF inv]) (use s'(2) D(2) in auto)
    then show ?thesis using pg a(1) s'(1) u(2) leD [OF u(1)] False by (simp add: free_pages_def get_page_def)
  qed
qed

lemma drain_lists_ok:
  assumes "pcp_inv st kend P H" "\<forall>(z, k) \<in> set zks. slot c z k"
  shows "\<exists>st'. drain_lists cpu c zks st = Some st' \<and> pcp_inv st' kend P H"
  using assms
proof (induction zks arbitrary: st)
  case (Cons zk zks)
  obtain z k where zk: "zk = (z, k)" by (cases zk)
  have s: "slot c z k" using Cons.prems(2) zk by simp
  let ?l = "pcp_caches st c z k"
  have "ol_ok k ?l" "distinct (stack ?l)" using pcp_invD(4) [OF Cons.prems(1) s] by (simp_all add: list_ok_def)
  then obtain s' where s': "free_pages_batch cpu (core st) k (stack ?l) = Some s'"
    "\<And>st'. core st' = s' \<Longrightarrow> pcp_caches st' = (\<lambda>c' z' k'. if c' = c \<and> z' = z \<and> k' = k
       then ?l\<lparr>ol_count := ol_count ?l - ol_count ?l\<rparr> else pcp_caches st c' z' k') \<Longrightarrow> pcp_inv st' kend P H"
    using pcp_shrink_ok [OF Cons.prems(1) s order_refl, of "stack ?l" cpu] by auto
  have "drain_list_free cpu c z k st = Some (st\<lparr>core := s'\<rparr>)"
    using s'(1) by (simp add: drain_list_free_def stack_def Let_def)
  moreover have "pcp_inv (drain_list_reset c z k (st\<lparr>core := s'\<rparr>)) kend P H"
    by (rule s'(2)) (auto simp: drain_list_reset_def fun_eq_iff)
  ultimately show ?case using Cons zk by simp
qed simp

lemma drain_ok:
  assumes "pcp_inv st kend P H"
  shows "\<exists>st'. pmm_drain_local_pcp_caches cpu st = Some st' \<and> pcp_inv st' kend P H"
proof -
  have c: "0 \<le> drain_cpu_index cpu" "drain_cpu_index cpu < int MAX_CPUS" by (auto simp: drain_cpu_index_def Let_def)
  have "\<forall>(z, k) \<in> set [(z, k). z \<leftarrow> [0, 1], k \<leftarrow> [0, 1, 2, 3]]. slot (nat (drain_cpu_index cpu)) z k" using c by (auto simp: slot_def)
  from drain_lists_ok [OF assms this] show ?thesis using c by (simp add: pmm_drain_local_pcp_caches_def Let_def)
qed

section \<open>The allocator as a whole\<close>

text \<open>The calls of the kernel: from any zone, from one zone, on one processor.\<close>

datatype entry = Any "int ptr" | In_dma "int ptr" | In_normal "int ptr"

fun entry_cpu :: "entry \<Rightarrow> int ptr" where
  "entry_cpu (Any cpu) = cpu"
| "entry_cpu (In_dma cpu) = cpu"
| "entry_cpu (In_normal cpu) = cpu"

fun entry_alloc :: "entry \<Rightarrow> pmm_state \<Rightarrow> u32 \<Rightarrow> (u32 \<times> pmm_state) option" where
  "entry_alloc (Any cpu) st order = alloc_pages cpu st order"
| "entry_alloc (In_dma cpu) st order = alloc_pages_zone cpu st order PMM_ZONE_DMA"
| "entry_alloc (In_normal cpu) st order = alloc_pages_zone cpu st order PMM_ZONE_NORMAL"

definition entry_free :: "entry \<Rightarrow> pmm_state \<Rightarrow> u32 \<Rightarrow> u32 \<Rightarrow> pmm_state option" where
  "entry_free e = free_pages (entry_cpu e)"

definition entry_drain :: "entry \<Rightarrow> pmm_state \<Rightarrow> pmm_state option" where
  "entry_drain e = pmm_drain_local_pcp_caches (entry_cpu e)"

lemma entry_alloc_ok:
  assumes "pcp_inv st kend P H"
  shows "\<exists>a st'. entry_alloc e st k = Some (a, st') \<and>
    (if a = 0 then st' = st else page_addr a \<and> blk k a \<notin> H \<and> pcp_inv st' kend P (insert (blk k a) H))"
proof -
  have z: "PMM_ZONE_DMA < PMM_ZONE_COUNT" "PMM_ZONE_NORMAL < PMM_ZONE_COUNT" by simp_all
  show ?thesis
  proof (cases e)
    case (Any cpu)
    then show ?thesis using alloc_pages_ok [OF assms, of cpu k] by (simp only: entry_alloc.simps) meson
  next
    case (In_dma cpu)
    then show ?thesis using alloc_pages_zone_ok [OF assms z(1), of cpu k] by (simp only: entry_alloc.simps) meson
  next
    case (In_normal cpu)
    then show ?thesis using alloc_pages_zone_ok [OF assms z(2), of cpu k] by (simp only: entry_alloc.simps) meson
  qed
qed

interpretation front: page_allocator entry_alloc entry_free entry_drain "\<lambda>st. pcp_inv st kend P" for kend P
proof (unfold_locales, goal_cases)
  case (1 st H e k)
  obtain a st' where "entry_alloc e st k = Some (a, st')"
    "if a = 0 then st' = st else page_addr a \<and> blk k a \<notin> H \<and> pcp_inv st' kend P (insert (blk k a) H)" using entry_alloc_ok [OF 1] by blast
  then show ?case using 1 by (simp add: page_addr_def blk_def split: if_splits)
next
  case (2 st H p k e)
  then show ?case unfolding entry_free_def by (rule free_pages_ok)
next
  case (3 st H e)
  then show ?case unfolding entry_drain_def by (rule drain_ok)
next
  case (4 st H)
  then show ?case using buddy.inv_tiled [OF pcp_invD(1)] unfolding tiled_def by blast
qed

text \<open>From the memory map: the allocator after initialisation with empty caches, and a sequence of calls.\<close>

definition boot :: "int ptr \<Rightarrow> pmm \<Rightarrow> pmm_region list \<Rightarrow> pmm_reserved_region list \<Rightarrow> u32 \<Rightarrow> pmm_state option" where
  "boot cpu s regions reserved kernel_end_addr = do {
     s \<leftarrow> init_regions cpu s regions reserved kernel_end_addr;
     Some \<lparr>core = s, pcp_caches = (\<lambda>_ _ _. \<lparr>ol_count = 0, phys_pages = replicate 256 0\<rparr>)\<rparr>
   }"

definition pmm_run :: "int ptr \<Rightarrow> pmm \<Rightarrow> pmm_region list \<Rightarrow> pmm_reserved_region list \<Rightarrow> u32 \<Rightarrow> entry request list \<Rightarrow>
    (pmm_state \<times> block list) option" where
  "pmm_run cpu s regions reserved kernel_end_addr calls = do {
     st \<leftarrow> boot cpu s regions reserved kernel_end_addr;
     serve entry_alloc entry_free entry_drain calls st []
   }"

text \<open>The pages that a memory map gives to the allocator.\<close>

definition memory :: "pmm_region list \<Rightarrow> pmm_reserved_region list \<Rightarrow> u32 \<Rightarrow> nat set" where
  "memory rs reserved kernel_end_addr =
     (if memory_fits rs kernel_end_addr then usable_pages (kernel_pages rs kernel_end_addr) reserved rs else {})"

lemma pmm_init_inv:
  assumes "map_ok rs" "reserved_ok reserved"
  shows "\<exists>s' kend. init_regions cpu s rs reserved ke = Some s' \<and> frees s' kend (memory rs reserved ke) \<and> (0 < kend \<or> total_pages s' = 0)"
  using init_regions_ok [OF assms(1), of cpu s reserved ke] unfolding map_pages_usable [OF assms] memory_def by (auto split: if_splits)

lemma boot_inv:
  assumes "map_ok rs" "reserved_ok reserved"
  shows "\<exists>st kend. boot cpu s rs reserved ke = Some st \<and> pcp_inv st kend (memory rs reserved ke) {}"
proof -
  obtain s' kend where s': "init_regions cpu s rs reserved ke = Some s'" "pmm_inv s' kend (memory rs reserved ke) {}"
    using pmm_init_inv [OF assms, of cpu s ke] frees_inv by blast
  let ?st = "\<lparr>core = s', pcp_caches = (\<lambda>_ _ _. \<lparr>ol_count = 0, phys_pages = replicate 256 0\<rparr>)\<rparr>"
  have "on_list ?st c z k = {}" for c z k by (simp add: on_list_def stack_def)
  then have "cached ?st = {}" "caches_ok ?st" by (auto simp: cached_def caches_ok_def list_ok_def ol_ok_def stack_def slot_def)
  then have "pcp_inv ?st kend (memory rs reserved ke) {}" using s'(2) by (simp add: pcp_inv_def)
  then show ?thesis using s'(1) by (simp add: boot_def) blast
qed

lemma run_inv:
  assumes "map_ok rs" "reserved_ok reserved"
  shows "\<exists>st H kend. pmm_run cpu s rs reserved ke calls = Some (st, H) \<and>
    pcp_inv st kend (memory rs reserved ke) (set H) \<and> distinct H"
proof -
  obtain st kend where st: "boot cpu s rs reserved ke = Some st" "pcp_inv st kend (memory rs reserved ke) {}" using boot_inv [OF assms] by blast
  then show ?thesis using front.serve_safe [of st kend "memory rs reserved ke" "[]" calls] by (auto simp: pmm_run_def)
qed

lemma pcp_inv_frames: "pcp_inv st kend P H \<Longrightarrow> b \<in> H \<Longrightarrow> span b \<subseteq> P"
  by (drule pcp_invD(1), erule pmm_invE) (auto simp: frames_def)

lemma free_count:
  assumes "pmm_inv s kend P U"
  shows "unat (get_free_blocks s) + card (frames U) = card P"
proof -
  obtain F where F: "buddy_ok s F U {}" "frames (free_blocks F \<union> U) = P" "get_free_blocks s = word_of_nat (card (frames (free_blocks F)))"
    using assms by (rule pmm_invE)
  note m = buddy_okD(2) [OF F(1)]
  have t: "unat (total_pages s) \<le> 2 ^ 20" and sub: "frames (free_blocks F \<union> U) \<subseteq> {..<unat (total_pages s)}"
    using tilesD(1,4) [OF meta_okD(1) [OF m]] by (fastforce simp: frames_def span_def)+
  have fin: "finite (frames (free_blocks F))" "finite (frames U)" using sub finite_subset unfolding frames_Un by blast+
  have "card (frames (free_blocks F)) \<le> 2 ^ 20" using card_mono [OF _ sub] card_mono [of "frames (free_blocks F \<union> U)" "frames (free_blocks F)"] fin t
    by (simp add: frames_Un)
  then have "unat (get_free_blocks s) = card (frames (free_blocks F))" unfolding F(3) by (intro unat_word) simp
  moreover have "frames (free_blocks F) \<inter> frames U = {}"
  proof -
    have "b \<notin> U" if "b \<in> free_blocks F" for b
      using headsD(1) [OF meta_okD(2) [OF m], of "fst b" "snd b"] headsD(3) [OF meta_okD(2) [OF m], of "fst b" "snd b"] that by auto
    then show ?thesis using tilesD(2) [OF meta_okD(1) [OF m]] unfolding frames_def tiled_def by blast
  qed
  ultimately show ?thesis unfolding F(2) [symmetric] frames_Un using card_Un_disjoint [OF fin] by simp
qed

lemma not_exhausted:
  assumes "pmm_inv s kend P {}" "P \<noteq> {}"
  shows "\<not> (exhausted s PMM_ZONE_DMA 0 \<and> exhausted s PMM_ZONE_NORMAL 0)"
proof -
  obtain F where F: "buddy_ok s F {} {}" "frames (free_blocks F \<union> {}) = P" using assms(1) by (rule pmm_invE)
  note l = buddy_okD(1) [OF F(1)]
  obtain p z k where p: "p \<in> set (F z k)" using F(2) assms(2) by (fastforce simp: frames_def free_blocks_def)
  have z: "z < PMM_ZONE_COUNT" "k \<le> PMM_MAX_ORDER" using lists_okD(5,6) [OF l p] by auto
  have "page_chain (mem_map s) (area_head (free_areas (zones s z) k)) (F z k)" using lists_okD(1) [OF l z] .
  then have "area_head (free_areas (zones s z) k) \<noteq> None" using p by (cases "F z k") (auto simp: page_chain_def)
  moreover have "z = PMM_ZONE_DMA \<or> z = PMM_ZONE_NORMAL" using z(1) by (auto simp: word_less_nat_alt word_unat_eq_iff)
  ultimately show ?thesis using z(2) unfolding exhausted_def by auto
qed

section \<open>Properties\<close>

lemma page_addr_mod:
  assumes "page_addr a"
  shows "unat a mod 4096 = 0"
proof -
  have "unat a = unat (a div PAGE_SIZE * PAGE_SIZE)" by (rule arg_cong [OF page_addrD [OF assms, unfolded page_to_phys_def, symmetric]])
  then have "unat a = unat a div 4096 * 4096 mod 2 ^ 32" unfolding unat_word_ariths by (simp add: unat_div)
  moreover have "unat a div 4096 * 4096 < 2 ^ 32" using unat_u32_less [of a] by simp
  ultimately show ?thesis by (metis mod_less mod_mult_self2_is_0)
qed

lemma memory_usable: "memory rs reserved ke \<subseteq> usable_pages (kernel_pages rs ke) reserved rs"
  by (simp add: memory_def)

text \<open>
  A memory map for the witnesses: one region of eight pages with the kernel in the first one; the descriptors take the second page.
\<close>

definition small_map :: "pmm_region list" where
  "small_map = [\<lparr>region_base = 0, region_size = 0x8000, region_type = PMM_REGION_AVAILABLE\<rparr>]"

definition no_pmm :: pmm where
  "no_pmm = \<lparr>mem_map = (\<lambda>_. zero_page), total_pages = 0, cpu_used_pages = (\<lambda>_. 0),
     zones = (\<lambda>_. \<lparr>free_areas = (\<lambda>_. \<lparr>area_head = None, area_count = 0\<rparr>), free_bitmap = 0\<rparr>)\<rparr>"

lemma small_map_ok: "map_ok small_map" "reserved_ok [\<lparr>reserved_base = 0x5000, reserved_size = 1\<rparr>]" "reserved_ok []"
  by (simp_all add: small_map_def reserved_ok_def)

declare free_range_loop.simps [code]

text \<open>
  C10: Started from a memory map, the physical memory manager serves every sequence of allocations (from any or one zone, of any
  order), releases of blocks that are held, and drains of the caches, on any processors, one call after the other, without leaving its page
  descriptors and tables. No block is handed out twice, different blocks that are held share no page, and every page of them lies in an
  available region, above the kernel and the page descriptors, and contains no reserved byte. The available regions of the map must not
  overlap, must not start in the last page of the address space and must end below 4 GiB, and the reserved regions must end before the
  last page.
\<close>

theorem pmm_serves_safely:
  assumes "map_ok rs" "reserved_ok reserved"
  shows "\<exists>st H. pmm_run cpu s rs reserved ke calls = Some (st, H) \<and> distinct H \<and>
    (\<forall>b \<in> set H. \<forall>c \<in> set H. b \<noteq> c \<longrightarrow> span b \<inter> span c = {}) \<and>
    (\<forall>b \<in> set H. span b \<subseteq> usable_pages (kernel_pages rs ke) reserved rs)"
proof -
  obtain st H kend where st: "pmm_run cpu s rs reserved ke calls = Some (st, H)" "pcp_inv st kend (memory rs reserved ke) (set H)" "distinct H"
    using run_inv [OF assms] by blast
  moreover have "\<forall>b \<in> set H. span b \<subseteq> usable_pages (kernel_pages rs ke) reserved rs"
    using pcp_inv_frames [OF st(2)] memory_usable by blast
  moreover have "\<forall>b \<in> set H. \<forall>c \<in> set H. b \<noteq> c \<longrightarrow> span b \<inter> span c = {}" using front.inv_tiled [OF st(2)] unfolding tiled_def by blast
  ultimately show ?thesis by blast
qed

theorem pmm_serves_safely_witness:
  "map_ok small_map \<and> reserved_ok [\<lparr>reserved_base = 0x5000, reserved_size = 1\<rparr>] \<and>
   (\<exists>st H. pmm_run None no_pmm small_map [\<lparr>reserved_base = 0x5000, reserved_size = 1\<rparr>] 0x1000
      [Request (Any (Some 0)) 0, Request (In_dma (Some 1)) 1, Release (Any (Some 2)) 2 0, Maintain (Any (Some 0)), Request (Any None) 4] = Some (st, H))"
  using pmm_serves_safely [OF small_map_ok(1,2), of None no_pmm "0x1000"] small_map_ok by blast

text \<open>
  C11: Initialisation from a memory map that satisfies the same conditions puts exactly the usable pages on the free lists: those inside an available region, above the
  kernel image and the page descriptors, without a reserved byte. The free count is their number. When the map has no page, or the
  descriptors would not fit into the address space, the manager has no memory.
\<close>

theorem pmm_init_free_pages:
  assumes "map_ok rs" "reserved_ok reserved"
  shows "\<exists>s' F. init_regions cpu s rs reserved ke = Some s' \<and> buddy_ok s' F {} {} \<and>
    frames (free_blocks F) = (if memory_fits rs ke then usable_pages (kernel_pages rs ke) reserved rs else {}) \<and>
    unat (get_free_blocks s') = card (frames (free_blocks F))"
proof -
  obtain s' kend where s': "init_regions cpu s rs reserved ke = Some s'" "frees s' kend (memory rs reserved ke)" "0 < kend \<or> total_pages s' = 0"
    using pmm_init_inv [OF assms, of cpu s ke] by blast
  obtain F where F: "buddy_ok s' F {} {}" "frames (free_blocks F) = memory rs reserved ke" using s'(2) unfolding frees_def by blast
  have "unat (get_free_blocks s') = card (memory rs reserved ke)" using free_count [OF frees_inv [OF s'(2,3)]] by (simp add: frames_def)
  then show ?thesis using s'(1) F unfolding memory_def [symmetric] by auto
qed

theorem pmm_init_free_pages_witness:
  "map_ok small_map \<and> reserved_ok [\<lparr>reserved_base = 0x5000, reserved_size = 1\<rparr>] \<and>
   (\<exists>s' F. init_regions None no_pmm small_map [\<lparr>reserved_base = 0x5000, reserved_size = 1\<rparr>] 0x1000 = Some s' \<and> buddy_ok s' F {} {})"
  using pmm_init_free_pages [OF small_map_ok(1,2), of None no_pmm "0x1000"] small_map_ok by blast

text \<open>
  C12: In every state that the calls reach from such a memory map, an allocation of any order up to the largest returns. It returns null only when neither zone has a free block
  of the order or a larger one, and then nothing has changed. Otherwise it returns the page-aligned address of a block that is usable
  memory and shares no page with a block that is held.
\<close>

theorem pmm_alloc_complete:
  assumes "map_ok rs" "reserved_ok reserved" "pmm_run cpu s rs reserved ke calls = Some (st, H)" "order \<le> PMM_MAX_ORDER"
  shows "\<exists>a st'. alloc_pages cpu' st order = Some (a, st') \<and>
    (if a = 0 then st' = st \<and> exhausted (core st) PMM_ZONE_DMA order \<and> exhausted (core st) PMM_ZONE_NORMAL order
     else unat a mod 4096 = 0 \<and> span (a div PAGE_SIZE, order) \<subseteq> usable_pages (kernel_pages rs ke) reserved rs \<and>
       (\<forall>b \<in> set H. span b \<inter> span (a div PAGE_SIZE, order) = {}))"
proof -
  obtain kend where inv: "pcp_inv st kend (memory rs reserved ke) (set H)" using run_inv [OF assms(1,2), of cpu s ke calls] assms(3) by auto
  from alloc_pages_ok [OF inv, of cpu' order] obtain a st' where a: "alloc_pages cpu' st order = Some (a, st')"
    "if a = 0 then st' = st \<and> (order \<le> PMM_MAX_ORDER \<longrightarrow> exhausted (core st) PMM_ZONE_DMA order \<and> exhausted (core st) PMM_ZONE_NORMAL order)
     else page_addr a \<and> blk order a \<notin> set H \<and> pcp_inv st' kend (memory rs reserved ke) (insert (blk order a) (set H))" by blast
  show ?thesis
  proof (cases "a = 0")
    case False
    have inv': "page_addr a" "pcp_inv st' kend (memory rs reserved ke) (insert (blk order a) (set H))" using a(2) False by auto
    have "span (a div PAGE_SIZE, order) \<subseteq> usable_pages (kernel_pages rs ke) reserved rs"
      using pcp_inv_frames [OF inv'(2) insertI1] memory_usable unfolding blk_def by blast
    moreover have "\<forall>b \<in> set H. span b \<inter> span (a div PAGE_SIZE, order) = {}"
      using front.alloc_fresh [OF inv, of "Any cpu'" order a st'] a(1) False by simp
    moreover have "unat a mod 4096 = 0" using page_addr_mod [OF inv'(1)] .
    ultimately show ?thesis using a(1) False by auto
  qed (use a assms(4) in simp)
qed

theorem pmm_alloc_complete_witness:
  "\<exists>st H. pmm_run None no_pmm small_map [] 0x1000 [Request (Any (Some 0)) 1] = Some (st, H) \<and>
     (\<exists>a st'. alloc_pages (Some 1) st 2 = Some (a, st'))"
proof -
  obtain st H where st: "pmm_run None no_pmm small_map [] 0x1000 [Request (Any (Some 0)) 1] = Some (st, H)"
    using run_inv [OF small_map_ok(1,3)] by blast
  have "(2 :: u32) \<le> PMM_MAX_ORDER" by simp
  from pmm_alloc_complete [OF small_map_ok(1,3) st this, of "Some 1"] st show ?thesis by blast
qed

text \<open>
  C13: The page accounting is exact in every state that the calls reach from such a memory map, if the page descriptors fit into the
  address space: the free count, added over the counters of all processors, is
  the number of usable pages less the pages that the clients hold and the pages that wait in the caches of the processors. The caches
  hold no block that a client holds.
\<close>

theorem pmm_free_count:
  assumes "map_ok rs" "reserved_ok reserved" "memory_fits rs ke" "pmm_run cpu s rs reserved ke calls = Some (st, H)"
  shows "unat (get_free_blocks (core st)) + card (frames (set H \<union> cached st)) = card (usable_pages (kernel_pages rs ke) reserved rs) \<and>
    set H \<inter> cached st = {}"
proof -
  obtain kend where inv: "pcp_inv st kend (memory rs reserved ke) (set H)" using run_inv [OF assms(1,2), of cpu s ke calls] assms(4) by auto
  show ?thesis using free_count [OF pcp_invD(1) [OF inv]] pcp_invD(2) [OF inv] assms(3) unfolding memory_def by simp
qed

theorem pmm_free_count_witness:
  "\<exists>st H. pmm_run None no_pmm small_map [] 0x1000 [Request (Any (Some 0)) 1] = Some (st, H) \<and>
     unat (get_free_blocks (core st)) + card (frames (set H \<union> cached st)) = card (usable_pages (kernel_pages small_map 0x1000) [] small_map)"
proof -
  obtain st H where st: "pmm_run None no_pmm small_map [] 0x1000 [Request (Any (Some 0)) 1] = Some (st, H)"
    using run_inv [OF small_map_ok(1,3)] by blast
  have "memory_fits small_map 0x1000" by (simp add: memory_fits_def small_map_def align_down_def align_up_def)
  from pmm_free_count [OF small_map_ok(1,3) this st] st show ?thesis by blast
qed

text \<open>
  A request for memory below 16 MiB can return memory above it. When all usable memory is above the limit, a request for a page of
  the DMA zone does not fail: the refill of the cache falls back to the other zone, and the page returned is above the limit.
\<close>

theorem pmm_dma_request_above_limit:
  assumes "map_ok rs" "reserved_ok reserved" "memory_fits rs ke"
    and "\<forall>i \<in> usable_pages (kernel_pages rs ke) reserved rs. 4096 \<le> i" "n \<in> usable_pages (kernel_pages rs ke) reserved rs"
  shows "\<exists>st a st'. boot cpu s rs reserved ke = Some st \<and> alloc_pages_zone cpu st 0 PMM_ZONE_DMA = Some (a, st') \<and> k_dma_limit \<le> a"
proof -
  obtain st kend where st: "boot cpu s rs reserved ke = Some st" "pcp_inv st kend (memory rs reserved ke) {}"
    using boot_inv [OF assms(1,2)] by blast
  have mem: "memory rs reserved ke = usable_pages (kernel_pages rs ke) reserved rs" using assms(3) by (simp add: memory_def)
  from st(1) have "core st = core st \<and> cached st = {}"
    by (auto simp: boot_def cached_def on_list_def stack_def split: bind_splits)
  then have "pmm_inv (core st) kend (memory rs reserved ke) {}" using pcp_invD(1) [OF st(2)] by simp
  from not_exhausted [OF this] have ne: "\<not> (exhausted (core st) PMM_ZONE_DMA 0 \<and> exhausted (core st) PMM_ZONE_NORMAL 0)" using assms(5) mem by auto
  have z: "PMM_ZONE_DMA < PMM_ZONE_COUNT" "(0 :: u32) \<le> k_pcp_max_order" by simp_all
  from pcp_alloc_ok [OF st(2) z, of cpu] obtain a st' where a: "pcp_alloc_from_cache cpu st PMM_ZONE_DMA 0 = Some (a, st')"
    "pcp_inv st' kend (memory rs reserved ke) {blk 0 a}" using ne by (metis (no_types, lifting))
  have "unat (a div PAGE_SIZE) \<in> usable_pages (kernel_pages rs ke) reserved rs"
    using pcp_inv_frames [OF a(2) insertI1] mem by (auto simp: blk_def span_def)
  then have "4096 \<le> unat a div 4096" using assms(4) by (auto simp: unat_div)
  then have "k_dma_limit \<le> a" by (simp add: word_le_nat_alt less_eq_div_iff_mult_less_eq)
  then show ?thesis using st(1) a(1) alloc_pages_zone_cached [OF z, of cpu st] by auto
qed

text \<open>Four pages from 16 MiB on.\<close>

definition high_map :: "pmm_region list" where
  "high_map = [\<lparr>region_base = 0x1000000, region_size = 0x4000, region_type = PMM_REGION_AVAILABLE\<rparr>]"

theorem pmm_dma_request_above_limit_witness:
  "\<exists>st a st'. boot None no_pmm high_map [] 0x100000 = Some st \<and> alloc_pages_zone None st 0 PMM_ZONE_DMA = Some (a, st') \<and> k_dma_limit \<le> a"
proof -
  have k: "kernel_pages high_map 0x100000 = 289" by (simp add: kernel_pages_def high_map_def align_down_def align_up_def)
  have u: "usable_pages 289 [] high_map = {4096..<4100}"
    by (auto simp: usable_pages_def high_map_def page_bytes_def ivl_subset)
  have f: "memory_fits high_map 0x100000" "map_ok high_map" by (simp_all add: memory_fits_def high_map_def align_down_def align_up_def)
  show ?thesis
    by (rule pmm_dma_request_above_limit [OF f(2) small_map_ok(3) f(1), of 4096]) (simp_all add: k u)
qed


text \<open>
  A block is not aligned to its size: \<open>free_range\<close> cuts blocks from the start of a range without aligning them, so that on the same map
  the block of four pages is at \<open>0x2000\<close>.
\<close>

lemma pmm_alloc_misaligned:
  "do {
     st \<leftarrow> boot None no_pmm small_map [] 0x1000;
     (a, st) \<leftarrow> alloc_pages None st 2;
     Some (a, a mod (4 * PAGE_SIZE))
   } = Some (0x2000, 0x2000)"
  by code_simp

end
