(* ===== verification/Spec2Isabelle.thy ===== *)
theory Spec2Isabelle
  imports Ringbuf Pipe Ldisc KString Waitqueue Mutex Rwspinlock Percpu_rwspinlock Rwlock Sem Spinlock Pmm_pcp
begin

text \<open>
  A verification of parts of the kernel of YulaOS, an operating system for 32-bit x86 machines with several processors. The paths below
  are those of the repository under \<open>src/\<close>. Each component of the code has a theory with its state, its operations in the order and
  with the branches of the code, its invariant and its properties; the theories \<open>Prelude\<close>, \<open>Memory\<close>, \<open>Channel\<close> and \<open>Steps\<close> hold what
  they share. This theory collects them; the properties stand in the theories of their components.

  \<^bold>\<open>The parts and how they interact.\<close>
  Bytes travel through the kernel in ring buffers and pipes. The line discipline of the terminals keeps two ring buffers, one for
  input and one for the echo. Pipes, terminals and most other parts put tasks to sleep on semaphores, mutexes and readers-writer
  locks, which keep the sleepers in wait queues; a wait queue is an intrusive doubly linked list of tasks that is protected by a spin
  lock of its user. Spin locks are queues of per-processor nodes. Everything stores its data in pages of the physical memory manager
  and moves it with the string and memory routines.

  \<^bold>\<open>The models.\<close>
  \<^item> \<open>Ringbuf\<close>: \<open>src/src/lib/ringbuf.h\<close>. Record \<open>ringbuf\<close>; \<open>ringbuf_push\<close>, \<open>ringbuf_pop\<close>, \<open>ringbuf_write\<close>, \<open>ringbuf_read\<close>,
    \<open>ringbuf_peek_contiguous\<close>, \<open>ringbuf_consume\<close> and the queries.
  \<^item> \<open>Pipe\<close>: \<open>src/src/kernel/ipc/pipe.c\<close>. Record \<open>pipe\<close> with the free-running 32-bit counters; reading and writing as sequences of critical
    sections between waits (\<open>pipe_read_section\<close>, \<open>pipe_write_section\<close>), close, poll, creation. Copies from and to user memory are a
    parameter \<open>ua\<close> that may stop early. \<open>spsc_step\<close> has the overlap of a reader and a writer byte by byte.
  \<^item> \<open>Ldisc\<close>: \<open>src/src/kernel/tty/ldisc.c\<close>. Record \<open>ldisc\<close>; input (\<open>receive_byte_locked\<close>), canonical and raw reading, echo, output.
  \<^item> \<open>KMem\<close>, \<open>KString\<close> (over \<open>Memory\<close>): \<open>src/src/lib/string.c\<close> on a byte-addressed memory with unmapped addresses, loop by loop.
  \<^item> \<open>Dlist\<close>: \<open>src/src/lib/dlist.h\<close> on a heap of nodes. \<open>Waitqueue\<close>: \<open>src/src/kernel/waitq/waitqueue.c\<close> with \<open>proc_change_state\<close> and
    \<open>proc_wake\<close> of \<open>src/src/kernel/proc.cpp\<close>.
  \<^item> \<open>Mutex\<close>, \<open>Rwlock\<close>, \<open>Sem\<close>, \<open>Spinlock\<close>, \<open>Rwspinlock\<close>, \<open>Percpu_rwspinlock\<close> (over \<open>Steps\<close>): the files of \<open>src/src/kernel/locking\<close> as transition
    systems. The state has the shared words, the wait queue as the list of its tasks (which \<open>Waitqueue\<close> justifies) and a program
    counter per task that carries the local variables; every atomic access is a rule of an inductive relation named after the function,
    and \<open>mutex_step\<close>, \<open>sem_step\<close> and so on interleave the tasks in every order. \<open>Mutex\<close> and \<open>Sem\<close> have the set of the tasks that sleep: a task
    leaves \<open>sched_yield\<close> only after a wake-up. \<open>Sem\<close> also has the timers and the lists that \<open>sem_signal_all\<close> detaches and empties
    without the lock.
  \<^item> \<open>Pmm\<close>, \<open>Pmm_buddy\<close>, \<open>Pmm_init\<close>, \<open>Pmm_pcp\<close>: \<open>src/src/mm/pmm.h\<close> and \<open>src/src/mm/pmm.cpp\<close>. Records \<open>page\<close>, \<open>pmm\<close> and \<open>pmm_state\<close>; the buddy
    allocator (\<open>alloc_pages_zone_unlocked\<close>, \<open>free_pages_unlocked\<close>), the initialisation from a memory map (\<open>init_regions\<close>), the caches of the
    processors and the entry points (\<open>alloc_pages\<close>, \<open>alloc_pages_zone\<close>, \<open>free_pages\<close>, \<open>pmm_drain_local_pcp_caches\<close>).

  \<^bold>\<open>What is shown.\<close>
  \<^item> Channels: ring buffers and pipes implement the interface \<open>byte_channel\<close>, so that no sequence of calls loses, duplicates or reorders a
    byte, for the pipe as long as the user buffers are accessible. Blocking writes up to the size of the pipe are atomic, longer ones
    arrive in order; the results of the non-blocking calls are exact, with the effect of faults in the user buffer; poll agrees with reading.
  \<^item> Terminals: canonical input implements a specification of line editing, and a typed line is what is read. The one store outside a
    buffer is characterised.
  \<^item> Routines on memory: every size class and alignment equals its byte-wise specification and touches mapped memory only; the
    overlapping moves for which \<open>memmove\<close> is wrong are characterised.
  \<^item> Lists and wait queues: the operations implement those on lists of tasks; the queue is served in order, also around cancelled waits.
  \<^item> Locks: mutual exclusion and exact state words in every interleaving, through the interfaces \<open>exclusive_lock\<close> and \<open>shared_lock\<close>; the
    processor flags after the variants with suffix \<open>_safe\<close>; no lost wake-ups for the mutex and the semaphore, where a task sleeps only while it
    is queued or something is on its way to wake it. Reachable states show a lost wake-up of the readers-writer lock, a token of
    the semaphore that is acquired twice, a cancelled wait that races with \<open>sem_signal_all\<close>, and queue nodes of the spin lock that
    clash when tasks preempt each other.
  \<^item> Physical memory: the allocator serves every sequence of calls on all processors without leaving its tables, through the
    interface \<open>page_allocator\<close>, which the buddy allocator and the caches in front of it both implement. Blocks that are held never overlap and
    are usable memory, initialisation frees exactly the usable pages, allocation fails only without a block, and the free count is exact.
    A concrete run shows that a preempted drain hands out a block twice.

  \<^bold>\<open>Loops, bounds and fuel.\<close>
  No model uses fuel. Loops that end by their structure are primitive recursive, loops with a measure are total functions (\<open>split_block\<close>,
  \<open>merge_block\<close>, \<open>fit_order\<close>), and loops whose end depends on the data are partial functions into \<open>option\<close>, where \<open>None\<close> is a run that does
  not end or leaves its memory; the properties state that the result is \<open>Some\<close>. Waits are explicit: a list of what happens
  during the successive waits of a call, or a step of another task.

  \<^bold>\<open>Assumptions.\<close>
  \<^item> Words have 32 bits and wrap around. Atomic accesses are sequentially consistent, and the plain accesses of a critical section are
    one step where a lock protects them.
  \<^item> Task descriptors are aligned to 64 bytes, and a task stays on the processor it was assigned to.
  \<^item> A task that has changed its state to sleeping runs on until it yields. Other parts of the kernel may wake any task at any time.
  \<^item> The semaphore is followed up to the first data race on a detached list; the theorems say nothing about the states after it.
  \<^item> Contexts of a processor nest like interrupts in the model of the spin lock, except where a property is about preemption.
  \<^item> A call of the physical memory manager is one step: a cache is used with interrupts off on its own processor and a zone under its
    lock. The drain is the exception, and a property shows the consequence.
  \<^item> Memory maps have disjoint available regions that end below 4 GiB and do not start in the last page, and reserved regions that end
    before the last page.

  \<^bold>\<open>Not modelled.\<close>
  Processor set-up, interrupt entry and page tables, the device drivers and the port and memory-mapped input and output (their behaviour
  is that of the hardware); file systems and block cache; processes, scheduler, signals and system calls except for the state changes that
  wait queues use; futexes, IPC endpoints, RCU, poll wait queues and work queues (the calls of the pipe and the line discipline to the
  latter two are recorded); the slab allocator, virtual memory and shared memory above the page allocator; trees, hash tables and the C++
  support library; the user programs, their C library and the host tools. Of the modelled files, \<open>pmm_free_block_deferred\<close> and the shrinker
  callback of the memory manager and the \<open>_safe\<close> wrappers of the per-processor lock have no definition.
\<close>

end
